(* ===== verification/Mach_Prelude.thy ===== *)
theory Mach_Prelude
  imports Main "HOL-Library.Word" "HOL-Library.Monad_Syntax"
begin

text \<open>
  Shared vocabulary of the development: 32-bit machine values, kernel addresses, kernel return
  codes, assertions in the option monad, and generic facts on words, lists and the option monad.

  Convention: a function of the model that may fail has result type \<open>'a option\<close>.
  \<open>None\<close> stands for everything that is not a return of the C function: a read or write
  through a pointer to unallocated memory, an \<^verbatim>\<open>assert\<close> that does not hold, a loop
  that does not end. A theorem that an operation yields \<open>Some\<close> therefore states memory
  safety, that the assertions hold, and termination at once. Error returns of the C code are
  ordinary values (\<open>kern_return\<close>).
\<close>

unbundle bit_operations_syntax

type_synonym u32 = "32 word"
type_synonym ptr = u32

named_theorems splay_simps
named_theorems hash_simps
named_theorems entry_simps
named_theorems lmm_simps

text \<open>Return codes, \<^verbatim>\<open>mach4/include/mach/kern_return.h\<close>.\<close>

datatype kern_return =
    KERN_SUCCESS
  | KERN_INVALID_ADDRESS
  | KERN_PROTECTION_FAILURE
  | KERN_NO_SPACE
  | KERN_INVALID_ARGUMENT
  | KERN_FAILURE
  | KERN_RESOURCE_SHORTAGE
  | KERN_NOT_RECEIVER
  | KERN_NO_ACCESS
  | KERN_MEMORY_FAILURE
  | KERN_MEMORY_ERROR
  | KERN_NOT_IN_SET
  | KERN_NAME_EXISTS
  | KERN_ABORTED
  | KERN_INVALID_NAME
  | KERN_INVALID_TASK
  | KERN_INVALID_RIGHT
  | KERN_INVALID_VALUE
  | KERN_UREFS_OVERFLOW
  | KERN_INVALID_CAPABILITY
  | KERN_RIGHT_EXISTS
  | KERN_INVALID_HOST
  | KERN_MEMORY_PRESENT
  | KERN_WRITE_PROTECTION_FAILURE
  | KERN_TERMINATED

text \<open>The C \<^verbatim>\<open>assert\<close>: a failed assertion stops the kernel.\<close>

definition oassert :: "bool \<Rightarrow> unit option" where
  "oassert b = (if b then Some () else None)"

lemma oassert_simps [simp]:
  "oassert True = Some ()"
  "oassert False = None"
  "oassert b = Some u \<longleftrightarrow> b"
  by (simp_all add: oassert_def)

lemma oassert_bind [simp]: "b \<Longrightarrow> Option.bind (oassert b) f = f ()"
  by simp

text \<open>Conversion between machine words and natural numbers.\<close>

lemma unat_lt32: "unat (x :: u32) < 2 ^ 32"
  using unsigned_less [of x] by simp

lemma unat_of_nat32: "n < 2 ^ 32 \<Longrightarrow> unat (of_nat n :: u32) = n"
  by (simp add: unsigned_of_nat take_bit_nat_eq_self)

lemma unat_less_bits: "unat x < 2 ^ n \<longleftrightarrow> (\<forall>k. bit x k \<longrightarrow> k < n)" for x :: u32
proof
  assume a: "unat x < 2 ^ n"
  have "take_bit n (unat x) = unat x" using a by (rule take_bit_nat_eq_self)
  then show "\<forall>k. bit x k \<longrightarrow> k < n" by (metis bit_take_bit_iff bit_unsigned_iff possible_bit_nat)
next
  assume a: "\<forall>k. bit x k \<longrightarrow> k < n"
  have "take_bit n x = x" by (rule bit_eqI) (use a in \<open>auto simp: bit_take_bit_iff\<close>)
  then have "unat x = take_bit n (unat x)" by (metis unsigned_take_bit_eq)
  then show "unat x < 2 ^ n" by (metis take_bit_nat_less_exp)
qed

end
