(* ===== verification/Splay.thy ===== *)
theory Splay
  imports Mach_Prelude "HOL-Library.Tree"
begin

text \<open>
  The splay tree of port names, \<^verbatim>\<open>mach4/kernel/ipc/ipc_splay.c\<close>, modelled on an
  explicit heap of tree entries, pointer write by pointer write. This theory holds the state and
  the operations; \<open>Splay_Correct\<close> holds their correctness.

  The tree is kept unassembled: a middle tree, and a left and a right tree each with one
  uninitialised child field (a hole). \<open>ist_ltreep\<close> is the address of the hole of the left
  tree: either the field \<open>ist_ltree\<close> of the splay structure itself (\<open>Self\<close>) or
  the \<open>ite_rchild\<close> field of an entry (\<open>Child p\<close>); \<open>ist_rtreep\<close> is the mirror image,
  with \<open>ite_lchild\<close>.
\<close>

section \<open>State\<close>

text \<open>\<^verbatim>\<open>struct ipc_tree_entry\<close> of \<^verbatim>\<open>ipc_entry.h\<close>, its embedded
  \<^verbatim>\<open>struct ipc_entry\<close> flattened.\<close>

record ipc_tree_entry =
  ite_bits :: u32
  ite_object :: ptr
  ite_request :: u32
  ite_next :: ptr
  ite_name :: u32
  ite_space :: ptr
  ite_lchild :: ptr
  ite_rchild :: ptr

type_synonym ite_heap = "ptr \<Rightarrow> ipc_tree_entry option"

abbreviation (input) ITE_NULL :: ptr where "ITE_NULL \<equiv> 0"

datatype treep = Self | Child ptr

record ipc_splay_tree =
  ist_name :: u32
  ist_root :: ptr
  ist_ltree :: ptr
  ist_ltreep :: treep
  ist_rtree :: ptr
  ist_rtreep :: treep

abbreviation (input) MACH_PORT_SMALLEST :: u32 where "MACH_PORT_SMALLEST \<equiv> 0"
abbreviation (input) MACH_PORT_LARGEST :: u32 where "MACH_PORT_LARGEST \<equiv> - 1"

section \<open>Memory accesses\<close>

text \<open>Reading through a null or dangling pointer is \<open>None\<close>.\<close>

definition ite_get :: "ite_heap \<Rightarrow> ptr \<Rightarrow> ipc_tree_entry option" where
  "ite_get h p = (if p = ITE_NULL then None else h p)"

definition set_lchild :: "ptr \<Rightarrow> ptr \<Rightarrow> ite_heap \<Rightarrow> ite_heap option" where
  "set_lchild p v h = do { e \<leftarrow> ite_get h p; Some (h(p \<mapsto> e\<lparr>ite_lchild := v\<rparr>)) }"

definition set_rchild :: "ptr \<Rightarrow> ptr \<Rightarrow> ite_heap \<Rightarrow> ite_heap option" where
  "set_rchild p v h = do { e \<leftarrow> ite_get h p; Some (h(p \<mapsto> e\<lparr>ite_rchild := v\<rparr>)) }"

definition set_name :: "ptr \<Rightarrow> u32 \<Rightarrow> ite_heap \<Rightarrow> ite_heap option" where
  "set_name p v h = do { e \<leftarrow> ite_get h p; Some (h(p \<mapsto> e\<lparr>ite_name := v\<rparr>)) }"

text \<open>\<^verbatim>\<open>ite_free\<close> returns the entry to its zone; it is no longer readable.\<close>

definition ite_free :: "ptr \<Rightarrow> ite_heap \<Rightarrow> ite_heap option" where
  "ite_free p h = do { _ \<leftarrow> ite_get h p; Some (h(p := None)) }"

text \<open>The stores \<^verbatim>\<open>*ltreep = v\<close> and \<^verbatim>\<open>*rtreep = v\<close>.\<close>

definition ltreep_write :: "ptr \<Rightarrow> ipc_splay_tree \<Rightarrow> ite_heap \<Rightarrow> (ipc_splay_tree \<times> ite_heap) option" where
  "ltreep_write v s h = (case ist_ltreep s of
      Self \<Rightarrow> Some (s\<lparr>ist_ltree := v\<rparr>, h)
    | Child p \<Rightarrow> do { h \<leftarrow> set_rchild p v h; Some (s, h) })"

definition rtreep_write :: "ptr \<Rightarrow> ipc_splay_tree \<Rightarrow> ite_heap \<Rightarrow> (ipc_splay_tree \<times> ite_heap) option" where
  "rtreep_write v s h = (case ist_rtreep s of
      Self \<Rightarrow> Some (s\<lparr>ist_rtree := v\<rparr>, h)
    | Child p \<Rightarrow> do { h \<leftarrow> set_lchild p v h; Some (s, h) })"

text \<open>The two assignments that make a structure's own fields the holes.\<close>

definition reset_treeps :: "ipc_splay_tree \<Rightarrow> ipc_splay_tree" where
  "reset_treeps s = s\<lparr>ist_ltreep := Self, ist_rtreep := Self\<rparr>"

section \<open>Top-down splaying\<close>

definition link_left :: "ptr \<Rightarrow> ipc_splay_tree \<Rightarrow> ite_heap \<Rightarrow> (ptr \<times> ipc_splay_tree \<times> ite_heap) option" where
  "link_left tree s h = do {
     (s, h) \<leftarrow> ltreep_write tree s h;
     e \<leftarrow> ite_get h tree;
     Some (ite_rchild e, s\<lparr>ist_ltreep := Child tree\<rparr>, h) }"

definition link_right :: "ptr \<Rightarrow> ipc_splay_tree \<Rightarrow> ite_heap \<Rightarrow> (ptr \<times> ipc_splay_tree \<times> ite_heap) option" where
  "link_right tree s h = do {
     (s, h) \<leftarrow> rtreep_write tree s h;
     e \<leftarrow> ite_get h tree;
     Some (ite_lchild e, s\<lparr>ist_rtreep := Child tree\<rparr>, h) }"

definition rotate_left :: "ptr \<Rightarrow> ite_heap \<Rightarrow> (ptr \<times> ite_heap) option" where
  "rotate_left temp h = do {
     e \<leftarrow> ite_get h temp;
     let tree = ite_rchild e;
     c \<leftarrow> ite_get h tree;
     h \<leftarrow> set_rchild temp (ite_lchild c) h;
     h \<leftarrow> set_lchild tree temp h;
     Some (tree, h) }"

definition rotate_right :: "ptr \<Rightarrow> ite_heap \<Rightarrow> (ptr \<times> ite_heap) option" where
  "rotate_right temp h = do {
     e \<leftarrow> ite_get h temp;
     let tree = ite_lchild e;
     c \<leftarrow> ite_get h tree;
     h \<leftarrow> set_lchild temp (ite_rchild c) h;
     h \<leftarrow> set_rchild tree temp h;
     Some (tree, h) }"

text \<open>The two branches of the loop body; \<open>lchild\<close> (\<open>rchild\<close>) is the non-null child
  in the direction of the search.\<close>

definition descend_left ::
  "u32 \<Rightarrow> ptr \<Rightarrow> ptr \<Rightarrow> ipc_splay_tree \<Rightarrow> ite_heap \<Rightarrow> (ptr \<times> ipc_splay_tree \<times> ite_heap) option" where
  "descend_left name lchild tree s h = do {
     c \<leftarrow> ite_get h lchild;
     let tname = ite_name c;
     (tree, h) \<leftarrow> (if name < tname \<and> ite_lchild c \<noteq> ITE_NULL
                   then rotate_right tree h else Some (tree, h));
     (tree, s, h) \<leftarrow> link_right tree s h;
     c \<leftarrow> ite_get h lchild;
     (tree, s, h) \<leftarrow> (if name > tname \<and> ite_rchild c \<noteq> ITE_NULL
                      then link_left tree s h else Some (tree, s, h));
     oassert (tree \<noteq> ITE_NULL);
     Some (tree, s, h) }"

definition descend_right ::
  "u32 \<Rightarrow> ptr \<Rightarrow> ptr \<Rightarrow> ipc_splay_tree \<Rightarrow> ite_heap \<Rightarrow> (ptr \<times> ipc_splay_tree \<times> ite_heap) option" where
  "descend_right name rchild tree s h = do {
     c \<leftarrow> ite_get h rchild;
     let tname = ite_name c;
     (tree, h) \<leftarrow> (if name > tname \<and> ite_rchild c \<noteq> ITE_NULL
                   then rotate_left tree h else Some (tree, h));
     (tree, s, h) \<leftarrow> link_left tree s h;
     c \<leftarrow> ite_get h rchild;
     (tree, s, h) \<leftarrow> (if name < tname \<and> ite_lchild c \<noteq> ITE_NULL
                      then link_right tree s h else Some (tree, s, h));
     oassert (tree \<noteq> ITE_NULL);
     Some (tree, s, h) }"

partial_function (option) splay_loop ::
  "u32 \<Rightarrow> ptr \<Rightarrow> ipc_splay_tree \<Rightarrow> ite_heap \<Rightarrow> (ptr \<times> ipc_splay_tree \<times> ite_heap) option" where
  "splay_loop name tree s h = do {
     e \<leftarrow> ite_get h tree;
     if name = ite_name e then Some (tree, s, h)
     else if name < ite_name e then
       (if ite_lchild e = ITE_NULL then Some (tree, s, h)
        else do {
          (tree, s, h) \<leftarrow> descend_left name (ite_lchild e) tree s h;
          splay_loop name tree s h })
     else
       (if ite_rchild e = ITE_NULL then Some (tree, s, h)
        else do {
          (tree, s, h) \<leftarrow> descend_right name (ite_rchild e) tree s h;
          splay_loop name tree s h }) }"

text \<open>On entry the two holes are the callers' own variables.\<close>

definition ipc_splay_prim_lookup ::
  "u32 \<Rightarrow> ptr \<Rightarrow> ipc_splay_tree \<Rightarrow> ite_heap \<Rightarrow> (ptr \<times> ipc_splay_tree \<times> ite_heap) option" where
  "ipc_splay_prim_lookup name tree s h = do {
     oassert (tree \<noteq> ITE_NULL);
     splay_loop name tree (reset_treeps s) h }"

definition ipc_splay_prim_assemble ::
  "ptr \<Rightarrow> ipc_splay_tree \<Rightarrow> ite_heap \<Rightarrow> (ipc_splay_tree \<times> ite_heap) option" where
  "ipc_splay_prim_assemble tree s h = do {
     oassert (tree \<noteq> ITE_NULL);
     e \<leftarrow> ite_get h tree;
     (s, h) \<leftarrow> ltreep_write (ite_lchild e) s h;
     e \<leftarrow> ite_get h tree;
     (s, h) \<leftarrow> rtreep_write (ite_rchild e) s h;
     h \<leftarrow> set_lchild tree (ist_ltree s) h;
     h \<leftarrow> set_rchild tree (ist_rtree s) h;
     Some (s, h) }"

section \<open>Operations on the splay tree\<close>

definition ipc_splay_tree_init :: "ipc_splay_tree \<Rightarrow> ipc_splay_tree" where
  "ipc_splay_tree_init s = s\<lparr>ist_root := ITE_NULL\<rparr>"

text \<open>\<open>Some None\<close> is the return value \<^verbatim>\<open>FALSE\<close>.\<close>

definition ipc_splay_tree_pick :: "ipc_splay_tree \<Rightarrow> ite_heap \<Rightarrow> (u32 \<times> ptr) option option" where
  "ipc_splay_tree_pick s h =
     (if ist_root s \<noteq> ITE_NULL
      then do { e \<leftarrow> ite_get h (ist_root s); Some (Some (ite_name e, ist_root s)) }
      else Some None)"

text \<open>The sequence \<^verbatim>\<open>if (splay->ist_name != name) { assemble; lookup }\<close> that five of the
  operations begin with. It returns the middle tree's root.\<close>

definition resplay ::
  "u32 \<Rightarrow> ipc_splay_tree \<Rightarrow> ite_heap \<Rightarrow> (ptr \<times> ipc_splay_tree \<times> ite_heap) option" where
  "resplay name s h =
     (if ist_name s \<noteq> name
      then do {
        (s, h) \<leftarrow> ipc_splay_prim_assemble (ist_root s) s h;
        ipc_splay_prim_lookup name (ist_root s) s h }
      else Some (ist_root s, s, h))"

definition ipc_splay_tree_lookup ::
  "u32 \<Rightarrow> ipc_splay_tree \<Rightarrow> ite_heap \<Rightarrow> (ptr \<times> ipc_splay_tree \<times> ite_heap) option" where
  "ipc_splay_tree_lookup name s h =
     (if ist_root s = ITE_NULL then Some (ITE_NULL, s, h)
      else do {
        (root, s, h) \<leftarrow> resplay name s h;
        let s = s\<lparr>ist_name := name, ist_root := root\<rparr>;
        e \<leftarrow> ite_get h root;
        Some (if name \<noteq> ite_name e then ITE_NULL else root, s, h) })"

definition ipc_splay_tree_insert ::
  "u32 \<Rightarrow> ptr \<Rightarrow> ipc_splay_tree \<Rightarrow> ite_heap \<Rightarrow> (ipc_splay_tree \<times> ite_heap) option" where
  "ipc_splay_tree_insert name entry s h = do {
     oassert (entry \<noteq> ITE_NULL);
     (s, h) \<leftarrow> (if ist_root s = ITE_NULL then do {
          h \<leftarrow> set_lchild entry ITE_NULL h;
          h \<leftarrow> set_rchild entry ITE_NULL h;
          Some (s, h) }
        else do {
          (root, s, h) \<leftarrow> resplay name s h;
          e \<leftarrow> ite_get h root;
          oassert (ite_name e \<noteq> name);
          (s, h) \<leftarrow> (if name < ite_name e then do {
               oassert (ite_lchild e = ITE_NULL);
               (s, h) \<leftarrow> ltreep_write ITE_NULL s h;
               rtreep_write root s h }
             else do {
               oassert (ite_rchild e = ITE_NULL);
               (s, h) \<leftarrow> ltreep_write root s h;
               rtreep_write ITE_NULL s h });
          h \<leftarrow> set_lchild entry (ist_ltree s) h;
          h \<leftarrow> set_rchild entry (ist_rtree s) h;
          Some (s, h) });
     h \<leftarrow> set_name entry name h;
     Some (reset_treeps (s\<lparr>ist_root := entry, ist_name := name\<rparr>), h) }"

text \<open>Common tail of delete, split, join and traverse-finish: the new root, if any, becomes an
  assembled tree.\<close>

definition install_root :: "ptr \<Rightarrow> ipc_splay_tree \<Rightarrow> ite_heap \<Rightarrow> ipc_splay_tree option" where
  "install_root root s h =
     (if root = ITE_NULL then Some (s\<lparr>ist_root := root\<rparr>)
      else do {
        e \<leftarrow> ite_get h root;
        Some (reset_treeps (s\<lparr>ist_root := root, ist_name := ite_name e\<rparr>)) })"

definition ipc_splay_tree_delete ::
  "u32 \<Rightarrow> ptr \<Rightarrow> ipc_splay_tree \<Rightarrow> ite_heap \<Rightarrow> (ipc_splay_tree \<times> ite_heap) option" where
  "ipc_splay_tree_delete name entry s h = do {
     oassert (ist_root s \<noteq> ITE_NULL);
     (root, s, h) \<leftarrow> resplay name s h;
     e \<leftarrow> ite_get h root;
     oassert (ite_name e = name);
     oassert (root = entry);
     (s, h) \<leftarrow> ltreep_write (ite_lchild e) s h;
     e \<leftarrow> ite_get h root;
     (s, h) \<leftarrow> rtreep_write (ite_rchild e) s h;
     h \<leftarrow> ite_free root h;
     let root = ist_ltree s;
     let saved = ist_rtree s;
     (root, s, h) \<leftarrow>
       (if root = ITE_NULL then Some (saved, s, h)
        else if saved \<noteq> ITE_NULL then do {
          (root, s, h) \<leftarrow> ipc_splay_prim_lookup MACH_PORT_LARGEST root s h;
          (s, h) \<leftarrow> ipc_splay_prim_assemble root s h;
          e \<leftarrow> ite_get h root;
          oassert (ite_rchild e = ITE_NULL);
          h \<leftarrow> set_rchild root saved h;
          Some (root, s, h) }
        else Some (root, s, h));
     s \<leftarrow> install_root root s h;
     Some (s, h) }"

definition ipc_splay_tree_split ::
  "u32 \<Rightarrow> ipc_splay_tree \<Rightarrow> ipc_splay_tree \<Rightarrow> ite_heap \<Rightarrow>
   (ipc_splay_tree \<times> ipc_splay_tree \<times> ite_heap) option" where
  "ipc_splay_tree_split name s small h = do {
     let small = ipc_splay_tree_init small;
     if ist_root s = ITE_NULL then Some (s, small, h)
     else do {
       (root, s, h) \<leftarrow> resplay name s h;
       e \<leftarrow> ite_get h root;
       if ite_name e < name then do {
         (s, h) \<leftarrow> ltreep_write (ite_lchild e) s h;
         (s, h) \<leftarrow> rtreep_write ITE_NULL s h;
         h \<leftarrow> set_lchild root (ist_ltree s) h;
         e \<leftarrow> ite_get h root;
         oassert (ite_rchild e = ITE_NULL);
         small \<leftarrow> install_root root small h;
         s \<leftarrow> install_root (ist_rtree s) s h;
         Some (s, small, h) }
       else do {
         (s, h) \<leftarrow> ltreep_write (ite_lchild e) s h;
         h \<leftarrow> set_lchild root ITE_NULL h;
         let s = s\<lparr>ist_root := root, ist_name := name, ist_ltreep := Self\<rparr>;
         small \<leftarrow> install_root (ist_ltree s) small h;
         Some (s, small, h) } } }"

definition ipc_splay_tree_join ::
  "ipc_splay_tree \<Rightarrow> ipc_splay_tree \<Rightarrow> ite_heap \<Rightarrow>
   (ipc_splay_tree \<times> ipc_splay_tree \<times> ite_heap) option" where
  "ipc_splay_tree_join s small h = do {
     let sroot = ist_root small;
     (small, h) \<leftarrow>
       (if sroot \<noteq> ITE_NULL then do {
          (small, h) \<leftarrow> ipc_splay_prim_assemble sroot small h;
          Some (small\<lparr>ist_root := ITE_NULL\<rparr>, h) }
        else Some (small, h));
     if sroot = ITE_NULL then Some (s, small, h)
     else do {
       (root, s, h) \<leftarrow>
         (if ist_root s = ITE_NULL then Some (sroot, s, h)
          else do {
            (root, s, h) \<leftarrow> resplay MACH_PORT_SMALLEST s h;
            (s, h) \<leftarrow> ipc_splay_prim_assemble root s h;
            e \<leftarrow> ite_get h root;
            oassert (ite_lchild e = ITE_NULL);
            se \<leftarrow> ite_get h sroot;
            oassert (ite_name se < ite_name e);
            h \<leftarrow> set_lchild root sroot h;
            Some (root, s, h) });
       s \<leftarrow> install_root root s h;
       Some (s, small, h) } }"

text \<open>\<^verbatim>\<open>ipc_splay_tree_bounds\<close> turns the hole pointers back into entry pointers to read
  the neighbouring names.\<close>

definition ipc_splay_tree_bounds ::
  "u32 \<Rightarrow> ipc_splay_tree \<Rightarrow> ite_heap \<Rightarrow> (u32 \<times> u32 \<times> ipc_splay_tree \<times> ite_heap) option" where
  "ipc_splay_tree_bounds name s h =
     (if ist_root s = ITE_NULL then Some (MACH_PORT_LARGEST, MACH_PORT_SMALLEST, s, h)
      else do {
        (root, s, h) \<leftarrow> resplay name s h;
        let s = s\<lparr>ist_name := name, ist_root := root\<rparr>;
        e \<leftarrow> ite_get h root;
        let rname = ite_name e;
        lower \<leftarrow>
          (if rname \<le> name then Some rname
           else (case ist_ltreep s of
               Self \<Rightarrow> Some MACH_PORT_LARGEST
             | Child p \<Rightarrow> map_option ite_name (ite_get h p)));
        upper \<leftarrow>
          (if rname \<ge> name then Some rname
           else (case ist_rtreep s of
               Self \<Rightarrow> Some MACH_PORT_SMALLEST
             | Child p \<Rightarrow> map_option ite_name (ite_get h p)));
        Some (lower, upper, s, h) })"

section \<open>Symmetric-order traversal by pointer inversion\<close>

text \<open>
  While a traversal is under way, \<open>ist_ltree\<close> holds the current entry and \<open>ist_rtree\<close>
  its parent, and the child field through which each ancestor was left points back to that
  ancestor's own parent.
\<close>

partial_function (option) traverse_start_loop ::
  "ptr \<Rightarrow> ptr \<Rightarrow> ite_heap \<Rightarrow> (ptr \<times> ptr \<times> ite_heap) option" where
  "traverse_start_loop current parent h = do {
     e \<leftarrow> ite_get h current;
     if ite_lchild e \<noteq> ITE_NULL then do {
       h \<leftarrow> set_lchild current parent h;
       traverse_start_loop (ite_lchild e) current h }
     else Some (current, parent, h) }"

definition ipc_splay_traverse_start ::
  "ipc_splay_tree \<Rightarrow> ite_heap \<Rightarrow> (ptr \<times> ipc_splay_tree \<times> ite_heap) option" where
  "ipc_splay_traverse_start s h =
     (if ist_root s = ITE_NULL then Some (ITE_NULL, s, h)
      else do {
        (s, h) \<leftarrow> ipc_splay_prim_assemble (ist_root s) s h;
        (current, parent, h) \<leftarrow> traverse_start_loop (ist_root s) ITE_NULL h;
        Some (current, s\<lparr>ist_ltree := current, ist_rtree := parent\<rparr>, h) })"

text \<open>The labels of \<^verbatim>\<open>ipc_splay_traverse_next\<close>, and the jumps between them.\<close>

datatype traverse_label = Traverse_left | Traverse_entry | Traverse_right | Traverse_back

partial_function (option) traverse_goto ::
  "traverse_label \<Rightarrow> ptr \<Rightarrow> ptr \<Rightarrow> ipc_splay_tree \<Rightarrow> ite_heap \<Rightarrow>
   (ptr \<times> ipc_splay_tree \<times> ite_heap) option" where
  "traverse_goto lbl current parent s h = (case lbl of
      Traverse_left \<Rightarrow> do {
        e \<leftarrow> ite_get h current;
        if ite_lchild e \<noteq> ITE_NULL then do {
          h \<leftarrow> set_lchild current parent h;
          traverse_goto Traverse_left (ite_lchild e) current s h }
        else traverse_goto Traverse_entry current parent s h }
    | Traverse_entry \<Rightarrow>
        Some (current, s\<lparr>ist_ltree := current, ist_rtree := parent\<rparr>, h)
    | Traverse_right \<Rightarrow> do {
        e \<leftarrow> ite_get h current;
        if ite_rchild e \<noteq> ITE_NULL then do {
          h \<leftarrow> set_rchild current parent h;
          traverse_goto Traverse_left (ite_rchild e) current s h }
        else traverse_goto Traverse_back current parent s h }
    | Traverse_back \<Rightarrow>
        if parent = ITE_NULL then Some (ITE_NULL, s\<lparr>ist_root := current\<rparr>, h)
        else do {
          e \<leftarrow> ite_get h current;
          pe \<leftarrow> ite_get h parent;
          if ite_name e < ite_name pe then do {
            h \<leftarrow> set_lchild parent current h;
            traverse_goto Traverse_entry parent (ite_lchild pe) s h }
          else do {
            h \<leftarrow> set_rchild parent current h;
            traverse_goto Traverse_back parent (ite_rchild pe) s h } })"

text \<open>Removal of the current entry, the part of \<^verbatim>\<open>ipc_splay_traverse_next\<close> before the
  labels; it ends in a jump to one of them, or returns when the tree has become empty. The
  structure passed to the primitives stands for the local variables \<^verbatim>\<open>ltree\<close>,
  \<^verbatim>\<open>ltreep\<close>, \<^verbatim>\<open>rtree\<close>, \<^verbatim>\<open>rtreep\<close>.\<close>

definition traverse_delete ::
  "ptr \<Rightarrow> ptr \<Rightarrow> ipc_splay_tree \<Rightarrow> ite_heap \<Rightarrow> (ptr \<times> ipc_splay_tree \<times> ite_heap) option" where
  "traverse_delete current parent s h = do {
     e \<leftarrow> ite_get h current;
     if ite_lchild e = ITE_NULL then
       (if ite_rchild e = ITE_NULL then
          (if parent = ITE_NULL then do {
             h \<leftarrow> ite_free current h;
             Some (ITE_NULL, s\<lparr>ist_root := ITE_NULL\<rparr>, h) }
           else do {
             pe \<leftarrow> ite_get h parent;
             h \<leftarrow> ite_free current h;
             if ite_name e < ite_name pe then do {
               h \<leftarrow> set_lchild parent ITE_NULL h;
               traverse_goto Traverse_entry parent (ite_lchild pe) s h }
             else do {
               h \<leftarrow> set_rchild parent ITE_NULL h;
               traverse_goto Traverse_back parent (ite_rchild pe) s h } })
        else do {
          h \<leftarrow> ite_free current h;
          traverse_goto Traverse_left (ite_rchild e) parent s h })
     else
       (if ite_rchild e = ITE_NULL then do {
          h \<leftarrow> ite_free current h;
          traverse_goto Traverse_back (ite_lchild e) parent s h }
        else do {
          (root, loc, h) \<leftarrow> ipc_splay_prim_lookup MACH_PORT_LARGEST (ite_lchild e) s h;
          (loc, h) \<leftarrow> ipc_splay_prim_assemble root loc h;
          c \<leftarrow> ite_get h root;
          oassert (ite_rchild c = ITE_NULL);
          e \<leftarrow> ite_get h current;
          h \<leftarrow> set_rchild root (ite_rchild e) h;
          h \<leftarrow> ite_free current h;
          traverse_goto Traverse_right root parent s h }) }"

definition ipc_splay_traverse_next ::
  "bool \<Rightarrow> ipc_splay_tree \<Rightarrow> ite_heap \<Rightarrow> (ptr \<times> ipc_splay_tree \<times> ite_heap) option" where
  "ipc_splay_traverse_next del s h = do {
     oassert (ist_ltree s \<noteq> ITE_NULL);
     if \<not> del then traverse_goto Traverse_right (ist_ltree s) (ist_rtree s) s h
     else traverse_delete (ist_ltree s) (ist_rtree s) s h }"

definition ipc_splay_traverse_finish ::
  "ipc_splay_tree \<Rightarrow> ite_heap \<Rightarrow> ipc_splay_tree option" where
  "ipc_splay_traverse_finish s h = install_root (ist_root s) s h"

end
