(* ===== verification/Splay_Rep.thy ===== *)
theory Splay_Rep
  imports Splay
begin

text \<open>
  What a splay structure on the heap represents. \<open>tr h p t\<close>: pointer \<open>p\<close> is the root of a
  proper tree on the heap whose shape and addresses are \<open>t\<close>. \<open>lspine\<close> and \<open>rspine\<close>
  describe the left and right trees with their holes, as the list of the entries on the path to
  the hole (nearest the hole first), each with its closed subtree. \<open>zipped\<close> puts the three
  together. \<open>links_only X h h'\<close> is the frame condition of all operations: only child fields of
  entries in \<open>X\<close> may differ.
\<close>

section \<open>Trees on the heap\<close>

fun tr :: "ite_heap \<Rightarrow> ptr \<Rightarrow> ptr tree \<Rightarrow> bool" where
  "tr h p Leaf \<longleftrightarrow> p = ITE_NULL"
| "tr h p (Node l a r) \<longleftrightarrow> p = a \<and> a \<noteq> ITE_NULL \<and>
     (\<exists>e. h a = Some e \<and> tr h (ite_lchild e) l \<and> tr h (ite_rchild e) r)"

type_synonym spine = "(ptr \<times> ptr tree) list"

fun hole :: "spine \<Rightarrow> treep" where
  "hole [] = Self"
| "hole ((a, _) # _) = Child a"

fun lspine :: "ite_heap \<Rightarrow> ptr \<Rightarrow> spine \<Rightarrow> bool" where
  "lspine h lt [] = True"
| "lspine h lt ((a, l) # L) \<longleftrightarrow>
     a \<noteq> ITE_NULL \<and> (\<exists>e. h a = Some e \<and> tr h (ite_lchild e) l) \<and>
     (case L of [] \<Rightarrow> lt = a | (b, _) # _ \<Rightarrow> \<exists>e. h b = Some e \<and> ite_rchild e = a) \<and>
     lspine h lt L"

fun rspine :: "ite_heap \<Rightarrow> ptr \<Rightarrow> spine \<Rightarrow> bool" where
  "rspine h rt [] = True"
| "rspine h rt ((a, r) # R) \<longleftrightarrow>
     a \<noteq> ITE_NULL \<and> (\<exists>e. h a = Some e \<and> tr h (ite_rchild e) r) \<and>
     (case R of [] \<Rightarrow> rt = a | (b, _) # _ \<Rightarrow> \<exists>e. h b = Some e \<and> ite_lchild e = a) \<and>
     rspine h rt R"

text \<open>The symmetric order of the entries of a spine.\<close>

fun linord :: "spine \<Rightarrow> ptr list" where
  "linord [] = []"
| "linord ((a, l) # L) = linord L @ inorder l @ [a]"

fun rinord :: "spine \<Rightarrow> ptr list" where
  "rinord [] = []"
| "rinord ((a, r) # R) = a # inorder r @ rinord R"

text \<open>The trees that filling a hole with the tree \<open>m\<close> gives.\<close>

fun lplug :: "spine \<Rightarrow> ptr tree \<Rightarrow> ptr tree" where
  "lplug [] m = m"
| "lplug ((a, l) # L) m = lplug L (Node l a m)"

fun rplug :: "spine \<Rightarrow> ptr tree \<Rightarrow> ptr tree" where
  "rplug [] m = m"
| "rplug ((a, r) # R) m = rplug R (Node m a r)"

definition zipped :: "ite_heap \<Rightarrow> ptr \<Rightarrow> ipc_splay_tree \<Rightarrow> ptr tree \<Rightarrow> spine \<Rightarrow> spine \<Rightarrow> bool" where
  "zipped h p s t L R \<longleftrightarrow>
     t \<noteq> Leaf \<and> tr h p t \<and>
     lspine h (ist_ltree s) L \<and> ist_ltreep s = hole L \<and>
     rspine h (ist_rtree s) R \<and> ist_rtreep s = hole R \<and>
     distinct (linord L @ inorder t @ rinord R)"

section \<open>Frame conditions\<close>

definition strip :: "ipc_tree_entry \<Rightarrow> ipc_tree_entry" where
  "strip e = e\<lparr>ite_lchild := ITE_NULL, ite_rchild := ITE_NULL\<rparr>"

definition links_only :: "ptr set \<Rightarrow> ite_heap \<Rightarrow> ite_heap \<Rightarrow> bool" where
  "links_only X h h' \<longleftrightarrow>
     (\<forall>a. a \<notin> X \<longrightarrow> h' a = h a) \<and> (\<forall>a. map_option strip (h' a) = map_option strip (h a))"

definition nm :: "ite_heap \<Rightarrow> ptr \<Rightarrow> u32" where
  "nm h a = ite_name (the (h a))"

lemma strip_upd [simp]:
  "strip (e\<lparr>ite_lchild := v\<rparr>) = strip e" "strip (e\<lparr>ite_rchild := v\<rparr>) = strip e"
  by (simp_all add: strip_def)

lemma strip_fields:
  assumes "strip e = strip f"
  shows "ite_name e = ite_name f" "ite_bits e = ite_bits f" "ite_object e = ite_object f"
    "ite_request e = ite_request f" "ite_next e = ite_next f" "ite_space e = ite_space f"
  using assms by (simp_all add: strip_def) (cases e; cases f; simp)+

lemma links_only_refl [simp, intro]: "links_only X h h"
  by (simp add: links_only_def)

lemma links_only_trans [trans]:
  "links_only X h h' \<Longrightarrow> links_only X h' h'' \<Longrightarrow> links_only X h h''"
  by (auto simp: links_only_def)

lemma links_only_mono: "links_only X h h' \<Longrightarrow> X \<subseteq> Y \<Longrightarrow> links_only Y h h'"
  by (auto simp: links_only_def)

lemma links_only_out: "links_only X h h' \<Longrightarrow> a \<notin> X \<Longrightarrow> h' a = h a"
  by (simp add: links_only_def)

lemma links_only_dom: "links_only X h h' \<Longrightarrow> dom h' = dom h"
proof -
  assume "links_only X h h'"
  then have "h' a = None \<longleftrightarrow> h a = None" for a
    by (metis links_only_def map_option_is_None)
  then show ?thesis by (auto simp: dom_def)
qed

lemma links_only_strip:
  "links_only X h h' \<Longrightarrow> h a = Some e \<Longrightarrow> \<exists>e'. h' a = Some e' \<and> strip e' = strip e"
  unfolding links_only_def by (metis map_option_eq_Some)

lemma nm_links_only: "links_only X h h' \<Longrightarrow> nm h' a = nm h a"
proof -
  assume "links_only X h h'"
  then have "map_option strip (h' a) = map_option strip (h a)"
    by (simp add: links_only_def)
  then show ?thesis
    by (cases "h a"; cases "h' a") (auto simp: nm_def dest: strip_fields)
qed

lemma links_only_upd:
  "h a = Some e \<Longrightarrow> strip e' = strip e \<Longrightarrow> a \<in> X \<Longrightarrow> links_only X h (h(a \<mapsto> e'))"
  by (auto simp: links_only_def)

text \<open>Structures do not see changes elsewhere.\<close>

lemma tr_frame: "(\<And>a. a \<in> set_tree t \<Longrightarrow> h' a = h a) \<Longrightarrow> tr h' p t = tr h p t"
  by (induction t arbitrary: p) auto

lemma set_linord: "set (linord L) = fst ` set L \<union> (\<Union>(a, l) \<in> set L. set_tree l)"
  by (induction L rule: linord.induct) auto

lemma set_rinord: "set (rinord R) = fst ` set R \<union> (\<Union>(a, r) \<in> set R. set_tree r)"
  by (induction R rule: rinord.induct) auto

lemma lspine_frame: "(\<And>a. a \<in> set (linord L) \<Longrightarrow> h' a = h a) \<Longrightarrow> lspine h' lt L = lspine h lt L"
proof (induction L rule: linord.induct)
  case (2 a l L)
  have t: "tr h' q l = tr h q l" for q
    by (rule tr_frame) (simp add: 2)
  show ?case using 2 by (auto simp: t split: list.splits)
qed simp

lemma rspine_frame: "(\<And>a. a \<in> set (rinord R) \<Longrightarrow> h' a = h a) \<Longrightarrow> rspine h' rt R = rspine h rt R"
proof (induction R rule: rinord.induct)
  case (2 a r R)
  have t: "tr h' q r = tr h q r" for q
    by (rule tr_frame) (simp add: 2)
  show ?case using 2 by (auto simp: t split: list.splits)
qed simp

lemma tr_upd [simp]: "a \<notin> set_tree t \<Longrightarrow> tr (h(a := v)) p t = tr h p t"
  by (rule tr_frame) auto

lemma lspine_upd [simp]: "a \<notin> set (linord L) \<Longrightarrow> lspine (h(a := v)) lt L = lspine h lt L"
  by (rule lspine_frame) auto

lemma rspine_upd [simp]: "a \<notin> set (rinord R) \<Longrightarrow> rspine (h(a := v)) rt R = rspine h rt R"
  by (rule rspine_frame) auto

lemma tr_dom: "tr h p t \<Longrightarrow> set_tree t \<subseteq> dom h \<and> ITE_NULL \<notin> set_tree t"
  by (induction t arbitrary: p) (auto; blast)+

lemma tr_root: "tr h p t \<Longrightarrow> p = ITE_NULL \<longleftrightarrow> t = Leaf"
  by (cases t) auto

lemma tr_NodeE:
  assumes "tr h p t" "p \<noteq> ITE_NULL"
  obtains l r e where "t = Node l p r" "h p = Some e" "tr h (ite_lchild e) l" "tr h (ite_rchild e) r"
  using assms by (cases t) auto

lemma ite_get_simps [simp]:
  "p \<noteq> ITE_NULL \<Longrightarrow> ite_get h p = h p"
  by (simp add: ite_get_def)

section \<open>Filling a hole\<close>

lemma inorder_lplug: "inorder (lplug L m) = linord L @ inorder m"
  by (induction L arbitrary: m rule: linord.induct) auto

lemma inorder_rplug: "inorder (rplug R m) = inorder m @ rinord R"
  by (induction R arbitrary: m rule: rinord.induct) auto

lemma set_lplug [simp]: "set_tree (lplug L m) = set (linord L) \<union> set_tree m"
  by (induction L arbitrary: m rule: linord.induct) auto

lemma set_rplug [simp]: "set_tree (rplug R m) = set_tree m \<union> set (rinord R)"
  by (induction R arbitrary: m rule: rinord.induct) auto

lemma lplug_tr:
  "lspine h lt ((a, l) # L) \<Longrightarrow> tr h a (Node l a m) \<Longrightarrow> tr h lt (lplug ((a, l) # L) m)"
proof (induction L arbitrary: a l m)
  case (Cons b L)
  obtain b1 bl where b: "b = (b1, bl)" by (cases b)
  from Cons.prems have "tr h b1 (Node bl b1 (Node l a m))"
    by (auto simp: b)
  moreover have "lspine h lt ((b1, bl) # L)"
    using Cons.prems by (auto simp: b)
  ultimately have "tr h lt (lplug ((b1, bl) # L) (Node l a m))"
    by (rule Cons.IH [rotated])
  then show ?case by (simp add: b)
qed auto

lemma rplug_tr:
  "rspine h rt ((a, r) # R) \<Longrightarrow> tr h a (Node m a r) \<Longrightarrow> tr h rt (rplug ((a, r) # R) m)"
proof (induction R arbitrary: a r m)
  case (Cons b R)
  obtain b1 br where b: "b = (b1, br)" by (cases b)
  from Cons.prems have "tr h b1 (Node (Node m a r) b1 br)"
    by (auto simp: b)
  moreover have "rspine h rt ((b1, br) # R)"
    using Cons.prems by (auto simp: b)
  ultimately have "tr h rt (rplug ((b1, br) # R) (Node m a r))"
    by (rule Cons.IH [rotated])
  then show ?case by (simp add: b)
qed auto

text \<open>Writing through the hole pointer: only the entry that owns the hole changes.\<close>

definition hole_adr :: "spine \<Rightarrow> ptr set" where
  "hole_adr L = (case L of [] \<Rightarrow> {} | (a, _) # _ \<Rightarrow> {a})"

lemma hole_adr_sub: "hole_adr L \<subseteq> set (linord L)" "hole_adr L \<subseteq> set (rinord L)"
  by (auto simp: hole_adr_def split: list.splits)

lemma ltreep_write_ok:
  assumes "lspine h (ist_ltree s) L" "ist_ltreep s = hole L" "distinct (linord L)"
    and "tr h v m" "set_tree m \<inter> set (linord L) = {}"
  obtains s' h' where "ltreep_write v s h = Some (s', h')"
    "tr h' (ist_ltree s') (lplug L m)" "links_only (hole_adr L) h h'"
    "ist_rtree s' = ist_rtree s" "ist_rtreep s' = ist_rtreep s" "ist_root s' = ist_root s"
    "ist_name s' = ist_name s" "ist_ltreep s' = hole L"
    "L = [] \<Longrightarrow> h' = h" "L \<noteq> [] \<Longrightarrow> s' = s"
proof (cases L)
  case Nil
  with assms show ?thesis
    by (intro that [of "s\<lparr>ist_ltree := v\<rparr>" h]) (simp_all add: ltreep_write_def)
next
  case (Cons al L')
  obtain a l where al: "al = (a, l)" by (cases al)
  from assms Cons al obtain e where e: "h a = Some e" "tr h (ite_lchild e) l" and a: "a \<noteq> 0"
    by auto
  let ?h = "h(a \<mapsto> e\<lparr>ite_rchild := v\<rparr>)"
  have w: "ltreep_write v s h = Some (s, ?h)"
    using assms Cons al e a by (simp add: ltreep_write_def set_rchild_def)
  have dl: "a \<notin> set_tree l" "a \<notin> set (linord L')" "a \<notin> set_tree m"
    using assms Cons al by auto
  have sp: "lspine ?h (ist_ltree s) ((a, l) # L')"
    using assms(1) dl e Cons al by (auto split: list.splits)
  have "tr ?h a (Node l a m)"
    using dl e a assms(4) by simp
  with sp have "tr ?h (ist_ltree s) (lplug ((a, l) # L') m)"
    by (rule lplug_tr)
  moreover have "links_only (hole_adr L) h ?h"
    using e Cons al by (intro links_only_upd) (auto simp: hole_adr_def)
  ultimately show ?thesis
    using w Cons al assms by (intro that [of s ?h]) auto
qed

lemma rtreep_write_ok:
  assumes "rspine h (ist_rtree s) R" "ist_rtreep s = hole R" "distinct (rinord R)"
    and "tr h v m" "set_tree m \<inter> set (rinord R) = {}"
  obtains s' h' where "rtreep_write v s h = Some (s', h')"
    "tr h' (ist_rtree s') (rplug R m)" "links_only (hole_adr R) h h'"
    "ist_ltree s' = ist_ltree s" "ist_ltreep s' = ist_ltreep s" "ist_root s' = ist_root s"
    "ist_name s' = ist_name s" "ist_rtreep s' = hole R"
    "R = [] \<Longrightarrow> h' = h" "R \<noteq> [] \<Longrightarrow> s' = s"
proof (cases R)
  case Nil
  with assms show ?thesis
    by (intro that [of "s\<lparr>ist_rtree := v\<rparr>" h]) (simp_all add: rtreep_write_def)
next
  case (Cons ar R')
  obtain a r where ar: "ar = (a, r)" by (cases ar)
  from assms Cons ar obtain e where e: "h a = Some e" "tr h (ite_rchild e) r" and a: "a \<noteq> 0"
    by auto
  let ?h = "h(a \<mapsto> e\<lparr>ite_lchild := v\<rparr>)"
  have w: "rtreep_write v s h = Some (s, ?h)"
    using assms Cons ar e a by (simp add: rtreep_write_def set_lchild_def)
  have dl: "a \<notin> set_tree r" "a \<notin> set (rinord R')" "a \<notin> set_tree m"
    using assms Cons ar by auto
  have sp: "rspine ?h (ist_rtree s) ((a, r) # R')"
    using assms(1) dl e Cons ar by (auto split: list.splits)
  have "tr ?h a (Node m a r)"
    using dl e a assms(4) by simp
  with sp have "tr ?h (ist_rtree s) (rplug ((a, r) # R') m)"
    by (rule rplug_tr)
  moreover have "links_only (hole_adr R) h ?h"
    using e Cons ar by (intro links_only_upd) (auto simp: hole_adr_def)
  ultimately show ?thesis
    using w Cons ar assms by (intro that [of s ?h]) auto
qed

end
