(* ===== verification/Splay_Loop.thy ===== *)
theory Splay_Loop
  imports Splay_Rep
begin

text \<open>
  Correctness of top-down splaying: each link and each rotation keeps the structure and the
  symmetric order, and the loop of \<^verbatim>\<open>ipc_splay_prim_lookup\<close> ends, without a fault, with
  the wanted name (or the last entry on its search path) at the root of the middle tree.
\<close>

lemma link_left_ok:
  assumes "zipped h p s (Node l p r) L R" and "r \<noteq> Leaf"
  obtains p' s' h' where "link_left p s h = Some (p', s', h')"
    "zipped h' p' s' r ((p, l) # L) R" "links_only (hole_adr L) h h'"
    "ist_root s' = ist_root s" "ist_name s' = ist_name s"
proof -
  from assms(1) obtain e where e: "h p = Some e" "p \<noteq> 0" "tr h (ite_lchild e) l" "tr h (ite_rchild e) r"
    by (auto simp: zipped_def)
  note z = assms(1) [unfolded zipped_def]
  show ?thesis
  proof (cases L)
    case Nil
    with z e assms(2) show ?thesis
      by (intro that [of "ite_rchild e" "s\<lparr>ist_ltree := p, ist_ltreep := Child p\<rparr>" h])
        (auto simp: link_left_def ltreep_write_def zipped_def)
  next
    case (Cons b L')
    obtain b1 bl where b: "b = (b1, bl)" by (cases b)
    with z Cons obtain f where f: "h b1 = Some f" "b1 \<noteq> 0" "tr h (ite_lchild f) bl" by auto
    have nb: "b1 \<noteq> p" "b1 \<notin> set_tree l" "b1 \<notin> set_tree r" "b1 \<notin> set_tree bl"
      "b1 \<notin> set (linord L')" "b1 \<notin> set (rinord R)"
      using z Cons b by auto
    let ?h = "h(b1 \<mapsto> f\<lparr>ite_rchild := p\<rparr>)"
    have "zipped ?h (ite_rchild e) (s\<lparr>ist_ltreep := Child p\<rparr>) r ((p, l) # L) R"
      using z e f nb assms(2) Cons b by (auto simp: zipped_def split: list.splits)
    moreover have "links_only (hole_adr L) h ?h"
      using f Cons b by (intro links_only_upd) (auto simp: hole_adr_def)
    moreover have "link_left p s h = Some (ite_rchild e, s\<lparr>ist_ltreep := Child p\<rparr>, ?h)"
      using z e f nb Cons b by (simp add: link_left_def ltreep_write_def set_rchild_def)
    ultimately show ?thesis using that by fastforce
  qed
qed

lemma link_right_ok:
  assumes "zipped h p s (Node l p r) L R" and "l \<noteq> Leaf"
  obtains p' s' h' where "link_right p s h = Some (p', s', h')"
    "zipped h' p' s' l L ((p, r) # R)" "links_only (hole_adr R) h h'"
    "ist_root s' = ist_root s" "ist_name s' = ist_name s"
proof -
  from assms(1) obtain e where e: "h p = Some e" "p \<noteq> 0" "tr h (ite_lchild e) l" "tr h (ite_rchild e) r"
    by (auto simp: zipped_def)
  note z = assms(1) [unfolded zipped_def]
  show ?thesis
  proof (cases R)
    case Nil
    with z e assms(2) show ?thesis
      by (intro that [of "ite_lchild e" "s\<lparr>ist_rtree := p, ist_rtreep := Child p\<rparr>" h])
        (auto simp: link_right_def rtreep_write_def zipped_def)
  next
    case (Cons b R')
    obtain b1 br where b: "b = (b1, br)" by (cases b)
    with z Cons obtain f where f: "h b1 = Some f" "b1 \<noteq> 0" "tr h (ite_rchild f) br" by auto
    have nb: "b1 \<noteq> p" "b1 \<notin> set_tree l" "b1 \<notin> set_tree r" "b1 \<notin> set_tree br"
      "b1 \<notin> set (rinord R')" "b1 \<notin> set (linord L)"
      using z Cons b by auto
    let ?h = "h(b1 \<mapsto> f\<lparr>ite_lchild := p\<rparr>)"
    have "zipped ?h (ite_lchild e) (s\<lparr>ist_rtreep := Child p\<rparr>) l L ((p, r) # R)"
      using z e f nb assms(2) Cons b by (auto simp: zipped_def split: list.splits)
    moreover have "links_only (hole_adr R) h ?h"
      using f Cons b by (intro links_only_upd) (auto simp: hole_adr_def)
    moreover have "link_right p s h = Some (ite_lchild e, s\<lparr>ist_rtreep := Child p\<rparr>, ?h)"
      using z e f nb Cons b by (simp add: link_right_def rtreep_write_def set_lchild_def)
    ultimately show ?thesis using that by fastforce
  qed
qed

lemma rotate_right_ok:
  assumes "zipped h p s (Node (Node a x b) p r) L R"
  obtains h' where "rotate_right p h = Some (x, h')"
    "zipped h' x s (Node a x (Node b p r)) L R" "links_only {x, p} h h'"
proof -
  note z = assms [unfolded zipped_def]
  from z obtain e where e: "h p = Some e" "p \<noteq> 0" "ite_lchild e = x" "tr h (ite_rchild e) r"
    by auto
  from z e obtain c where c: "h x = Some c" "x \<noteq> 0" "tr h (ite_lchild c) a" "tr h (ite_rchild c) b"
    by auto
  have xp: "x \<noteq> p" using z by auto
  let ?h = "h(p \<mapsto> e\<lparr>ite_lchild := ite_rchild c\<rparr>, x \<mapsto> c\<lparr>ite_rchild := p\<rparr>)"
  have eq: "rotate_right p h = Some (x, ?h)"
    using e c xp by (simp add: rotate_right_def set_lchild_def set_rchild_def)
  have fr: "p \<notin> set (linord L)" "p \<notin> set (rinord R)" "x \<notin> set (linord L)" "x \<notin> set (rinord R)"
    "p \<notin> set_tree a" "p \<notin> set_tree b" "p \<notin> set_tree r"
    "x \<notin> set_tree a" "x \<notin> set_tree b" "x \<notin> set_tree r"
    using z by auto
  have "zipped ?h x s (Node a x (Node b p r)) L R"
    using z e c xp fr by (auto simp: zipped_def)
  moreover have "links_only {x, p} h ?h"
    using e c xp by (auto simp: links_only_def)
  ultimately show ?thesis using eq that by blast
qed

lemma rotate_left_ok:
  assumes "zipped h p s (Node l p (Node a x b)) L R"
  obtains h' where "rotate_left p h = Some (x, h')"
    "zipped h' x s (Node (Node l p a) x b) L R" "links_only {x, p} h h'"
proof -
  note z = assms [unfolded zipped_def]
  from z obtain e where e: "h p = Some e" "p \<noteq> 0" "ite_rchild e = x" "tr h (ite_lchild e) l"
    by auto
  from z e obtain c where c: "h x = Some c" "x \<noteq> 0" "tr h (ite_lchild c) a" "tr h (ite_rchild c) b"
    by auto
  have xp: "x \<noteq> p" using z by auto
  let ?h = "h(p \<mapsto> e\<lparr>ite_rchild := ite_lchild c\<rparr>, x \<mapsto> c\<lparr>ite_lchild := p\<rparr>)"
  have eq: "rotate_left p h = Some (x, ?h)"
    using e c xp by (simp add: rotate_left_def set_lchild_def set_rchild_def)
  have fr: "p \<notin> set (linord L)" "p \<notin> set (rinord R)" "x \<notin> set (linord L)" "x \<notin> set (rinord R)"
    "p \<notin> set_tree a" "p \<notin> set_tree b" "p \<notin> set_tree l"
    "x \<notin> set_tree a" "x \<notin> set_tree b" "x \<notin> set_tree l"
    using z by auto
  have "zipped ?h x s (Node (Node l p a) x b) L R"
    using z e c xp fr by (auto simp: zipped_def)
  moreover have "links_only {x, p} h ?h"
    using e c xp by (auto simp: links_only_def)
  ultimately show ?thesis using eq that by blast
qed

text \<open>All entries of a splay structure, in symmetric order.\<close>

definition ents :: "spine \<Rightarrow> ptr tree \<Rightarrow> spine \<Rightarrow> ptr list" where
  "ents L t R = linord L @ inorder t @ rinord R"

abbreviation bysorted :: "ite_heap \<Rightarrow> ptr list \<Rightarrow> bool" where
  "bysorted h xs \<equiv> sorted_wrt (\<lambda>a b. nm h a < nm h b) xs"

text \<open>Everything in the left tree is below \<open>n\<close>, everything in the right tree above.\<close>

definition parted :: "ite_heap \<Rightarrow> u32 \<Rightarrow> spine \<Rightarrow> spine \<Rightarrow> bool" where
  "parted h n L R \<longleftrightarrow> (\<forall>a \<in> set (linord L). nm h a < n) \<and> (\<forall>a \<in> set (rinord R). n < nm h a)"

text \<open>One round of the loop: the middle tree shrinks.\<close>

definition round_ok where
  "round_ok n h t L R h' p' s' t' L' R' \<longleftrightarrow>
     zipped h' p' s' t' L' R' \<and> ents L' t' R' = ents L t R \<and>
     links_only (set (ents L t R)) h h' \<and> size t' < size t \<and>
     (bysorted h (ents L t R) \<and> parted h n L R \<longrightarrow> parted h' n L' R')"

lemma zipped_root:
  assumes "zipped h p s (Node l q r) L R"
  obtains e where "p = q" "q \<noteq> 0" "h q = Some e" "ite_name e = nm h q"
    "tr h (ite_lchild e) l" "tr h (ite_rchild e) r"
    "ite_lchild e = 0 \<longleftrightarrow> l = Leaf" "ite_rchild e = 0 \<longleftrightarrow> r = Leaf"
  using assms by (auto simp: zipped_def nm_def dest: tr_root)

lemma zipped_nonnull: "zipped h p s t L R \<Longrightarrow> p \<noteq> 0"
  by (auto simp: zipped_def dest: tr_root)

lemma ents_simps [simp]:
  "ents L (Node l a r) R = linord L @ inorder l @ a # inorder r @ rinord R"
  "set (ents L t R) = set (linord L) \<union> set_tree t \<union> set (rinord R)"
  by (simp_all add: ents_def Un_assoc)

lemma descend_left_ok:
  assumes z: "zipped h p s (Node (Node a x b) p r) L R" and n: "n < nm h p"
  obtains p' s' h' t' L' R' where "descend_left n x p s h = Some (p', s', h')"
    "round_ok n h (Node (Node a x b) p r) L R h' p' s' t' L' R'"
    "ist_root s' = ist_root s" "ist_name s' = ist_name s"
proof -
  from z obtain c where c: "x \<noteq> 0" "h x = Some c" "ite_name c = nm h x"
      "ite_lchild c = 0 \<longleftrightarrow> a = Leaf" "ite_rchild c = 0 \<longleftrightarrow> b = Leaf"
    by (auto simp: zipped_def nm_def dest: tr_root)
  let ?t = "Node (Node a x b) p r"
  have hs: "hole_adr R \<subseteq> set (ents L ?t R)" "hole_adr L \<subseteq> set (ents L ?t R)"
    using hole_adr_sub by auto
  show ?thesis
  proof (cases "n < nm h x \<and> a \<noteq> Leaf")
    case True
    from z obtain h1 where h1: "rotate_right p h = Some (x, h1)"
      "zipped h1 x s (Node a x (Node b p r)) L R" "links_only {x, p} h h1"
      by (rule rotate_right_ok)
    from h1(2) conjunct2 [OF True] obtain p2 s2 h2 where h2: "link_right x s h1 = Some (p2, s2, h2)"
      "zipped h2 p2 s2 a L ((x, Node b p r) # R)" "links_only (hole_adr R) h1 h2"
      "ist_root s2 = ist_root s" "ist_name s2 = ist_name s"
      by (rule link_right_ok)
    have "links_only (set (ents L ?t R)) h h1" "links_only (set (ents L ?t R)) h1 h2"
      using links_only_mono [OF h1(3)] links_only_mono [OF h2(3)] hs by auto
    then have lo: "links_only (set (ents L ?t R)) h h2" by (rule links_only_trans)
    from lo c obtain c2 where c2: "h2 x = Some c2" by (meson links_only_strip)
    have "p2 \<noteq> 0" using h2(2) by (rule zipped_nonnull)
    then have "descend_left n x p s h = Some (p2, s2, h2)"
      using c h1(1) h2(1) c2 conjunct1 [OF True] conjunct2 [OF True] less_not_sym [OF conjunct1 [OF True]]
      by (simp add: descend_left_def)
    moreover have "round_ok n h ?t L R h2 p2 s2 a L ((x, Node b p r) # R)"
      using h2(2) lo True n
      by (auto simp: round_ok_def parted_def ents_def sorted_wrt_append nm_links_only [OF lo] intro: less_trans)
    ultimately show ?thesis using h2 that by blast
  next
    case False
    from z obtain p1 s1 h1 where h1: "link_right p s h = Some (p1, s1, h1)"
      "zipped h1 p1 s1 (Node a x b) L ((p, r) # R)" "links_only (hole_adr R) h h1"
      "ist_root s1 = ist_root s" "ist_name s1 = ist_name s"
      by (rule link_right_ok) auto
    have lo1: "links_only (set (ents L ?t R)) h h1"
      using links_only_mono [OF h1(3)] hs by auto
    from h1(2) obtain d where d: "p1 = x" "h1 x = Some d" "ite_rchild d = 0 \<longleftrightarrow> b = Leaf"
      by (rule zipped_root)
    show ?thesis
    proof (cases "nm h x < n \<and> b \<noteq> Leaf")
      case True
      from h1(2) have "zipped h1 x s1 (Node a x b) L ((p, r) # R)" using d by simp
      then obtain p2 s2 h2 where h2: "link_left x s1 h1 = Some (p2, s2, h2)"
        "zipped h2 p2 s2 b ((x, a) # L) ((p, r) # R)" "links_only (hole_adr L) h1 h2"
        "ist_root s2 = ist_root s1" "ist_name s2 = ist_name s1"
        using conjunct2 [OF True] by (rule link_left_ok)
      have lo2: "links_only (set (ents L ?t R)) h1 h2"
        using links_only_mono [OF h2(3)] hs by auto
      from lo1 lo2 have lo: "links_only (set (ents L ?t R)) h h2" by (rule links_only_trans)
      have "p2 \<noteq> 0" using h2(2) by (rule zipped_nonnull)
      then have "descend_left n x p s h = Some (p2, s2, h2)"
        using c h1(1) h2(1) d conjunct1 [OF True] conjunct2 [OF True] less_not_sym [OF conjunct1 [OF True]]
        by (simp add: descend_left_def)
      moreover have "round_ok n h ?t L R h2 p2 s2 b ((x, a) # L) ((p, r) # R)"
        using h2(2) lo True n
        by (auto simp: round_ok_def parted_def ents_def sorted_wrt_append nm_links_only [OF lo] intro: less_trans)
      ultimately show ?thesis using h1 h2 that by metis
    next
      case False2: False
      have "descend_left n x p s h = Some (x, s1, h1)"
        using False False2 c h1(1) d by (auto simp: descend_left_def Let_def)
      moreover have "round_ok n h ?t L R h1 x s1 (Node a x b) L ((p, r) # R)"
        using h1(2) lo1 n d
        by (auto simp: round_ok_def parted_def ents_def sorted_wrt_append nm_links_only [OF lo1] intro: less_trans)
      ultimately show ?thesis using h1 that by blast
    qed
  qed
qed

lemma descend_right_ok:
  assumes z: "zipped h p s (Node l p (Node a x b)) L R" and n: "nm h p < n"
  obtains p' s' h' t' L' R' where "descend_right n x p s h = Some (p', s', h')"
    "round_ok n h (Node l p (Node a x b)) L R h' p' s' t' L' R'"
    "ist_root s' = ist_root s" "ist_name s' = ist_name s"
proof -
  from z obtain c where c: "x \<noteq> 0" "h x = Some c" "ite_name c = nm h x"
      "ite_lchild c = 0 \<longleftrightarrow> a = Leaf" "ite_rchild c = 0 \<longleftrightarrow> b = Leaf"
    by (auto simp: zipped_def nm_def dest: tr_root)
  let ?t = "Node l p (Node a x b)"
  have hs: "hole_adr R \<subseteq> set (ents L ?t R)" "hole_adr L \<subseteq> set (ents L ?t R)"
    using hole_adr_sub by auto
  show ?thesis
  proof (cases "nm h x < n \<and> b \<noteq> Leaf")
    case True
    from z obtain h1 where h1: "rotate_left p h = Some (x, h1)"
      "zipped h1 x s (Node (Node l p a) x b) L R" "links_only {x, p} h h1"
      by (rule rotate_left_ok)
    from h1(2) conjunct2 [OF True] obtain p2 s2 h2 where h2: "link_left x s h1 = Some (p2, s2, h2)"
      "zipped h2 p2 s2 b ((x, Node l p a) # L) R" "links_only (hole_adr L) h1 h2"
      "ist_root s2 = ist_root s" "ist_name s2 = ist_name s"
      by (rule link_left_ok)
    have "links_only (set (ents L ?t R)) h h1" "links_only (set (ents L ?t R)) h1 h2"
      using links_only_mono [OF h1(3)] links_only_mono [OF h2(3)] hs by auto
    then have lo: "links_only (set (ents L ?t R)) h h2" by (rule links_only_trans)
    from lo c obtain c2 where c2: "h2 x = Some c2" by (meson links_only_strip)
    have "p2 \<noteq> 0" using h2(2) by (rule zipped_nonnull)
    then have "descend_right n x p s h = Some (p2, s2, h2)"
      using c h1(1) h2(1) c2 conjunct1 [OF True] conjunct2 [OF True] less_not_sym [OF conjunct1 [OF True]]
      by (simp add: descend_right_def)
    moreover have "round_ok n h ?t L R h2 p2 s2 b ((x, Node l p a) # L) R"
      using h2(2) lo True n
      by (auto simp: round_ok_def parted_def ents_def sorted_wrt_append nm_links_only [OF lo] intro: less_trans)
    ultimately show ?thesis using h2 that by blast
  next
    case False
    from z obtain p1 s1 h1 where h1: "link_left p s h = Some (p1, s1, h1)"
      "zipped h1 p1 s1 (Node a x b) ((p, l) # L) R" "links_only (hole_adr L) h h1"
      "ist_root s1 = ist_root s" "ist_name s1 = ist_name s"
      by (rule link_left_ok) auto
    have lo1: "links_only (set (ents L ?t R)) h h1"
      using links_only_mono [OF h1(3)] hs by auto
    from h1(2) obtain d where d: "p1 = x" "h1 x = Some d" "ite_lchild d = 0 \<longleftrightarrow> a = Leaf"
      by (rule zipped_root)
    show ?thesis
    proof (cases "n < nm h x \<and> a \<noteq> Leaf")
      case True
      from h1(2) have "zipped h1 x s1 (Node a x b) ((p, l) # L) R" using d by simp
      then obtain p2 s2 h2 where h2: "link_right x s1 h1 = Some (p2, s2, h2)"
        "zipped h2 p2 s2 a ((p, l) # L) ((x, b) # R)" "links_only (hole_adr R) h1 h2"
        "ist_root s2 = ist_root s1" "ist_name s2 = ist_name s1"
        using conjunct2 [OF True] by (rule link_right_ok)
      have lo2: "links_only (set (ents L ?t R)) h1 h2"
        using links_only_mono [OF h2(3)] hs by auto
      from lo1 lo2 have lo: "links_only (set (ents L ?t R)) h h2" by (rule links_only_trans)
      have "p2 \<noteq> 0" using h2(2) by (rule zipped_nonnull)
      then have "descend_right n x p s h = Some (p2, s2, h2)"
        using c h1(1) h2(1) d conjunct1 [OF True] conjunct2 [OF True] less_not_sym [OF conjunct1 [OF True]]
        by (simp add: descend_right_def)
      moreover have "round_ok n h ?t L R h2 p2 s2 a ((p, l) # L) ((x, b) # R)"
        using h2(2) lo True n
        by (auto simp: round_ok_def parted_def ents_def sorted_wrt_append nm_links_only [OF lo] intro: less_trans)
      ultimately show ?thesis using h1 h2 that by metis
    next
      case False2: False
      have "descend_right n x p s h = Some (x, s1, h1)"
        using False False2 c h1(1) d by (auto simp: descend_right_def Let_def)
      moreover have "round_ok n h ?t L R h1 x s1 (Node a x b) ((p, l) # L) R"
        using h1(2) lo1 n d
        by (auto simp: round_ok_def parted_def ents_def sorted_wrt_append nm_links_only [OF lo1] intro: less_trans)
      ultimately show ?thesis using h1 that by blast
    qed
  qed
qed

text \<open>Where the search for \<open>n\<close> stops: at the name itself, or where it would have to go on
  into an empty subtree.\<close>

fun stops_at :: "ite_heap \<Rightarrow> u32 \<Rightarrow> ptr tree \<Rightarrow> bool" where
  "stops_at h n Leaf = False"
| "stops_at h n (Node l a r) \<longleftrightarrow>
     n = nm h a \<or> (n < nm h a \<and> l = Leaf) \<or> (nm h a < n \<and> r = Leaf)"

lemma stops_at_links_only: "links_only X h h' \<Longrightarrow> stops_at h' n t = stops_at h n t"
  by (cases t) (auto simp: nm_links_only)

lemma splay_loop_ok:
  assumes "zipped h p s t L R"
  obtains p' s' h' t' L' R' where "splay_loop n p s h = Some (p', s', h')"
    "zipped h' p' s' t' L' R'" "ents L' t' R' = ents L t R" "links_only (set (ents L t R)) h h'"
    "stops_at h' n t'" "bysorted h (ents L t R) \<and> parted h n L R \<longrightarrow> parted h' n L' R'"
    "ist_root s' = ist_root s" "ist_name s' = ist_name s"
  using assms
proof (induction "size t" arbitrary: h p s t L R thesis rule: less_induct)
  case less
  from less.prems(2) obtain l q r where t: "t = Node l q r"
    by (cases t) (auto simp: zipped_def)
  from less.prems(2)[unfolded t] obtain e where e: "p = q" "q \<noteq> 0" "h q = Some e" "ite_name e = nm h q"
    "ite_lchild e = 0 \<longleftrightarrow> l = Leaf" "ite_rchild e = 0 \<longleftrightarrow> r = Leaf"
    and el: "tr h (ite_lchild e) l" and er: "tr h (ite_rchild e) r"
    by (rule zipped_root)
  have go: thesis
    if r1: "round_ok n h t L R h1 p1 s1 t1 L1 R1" "ist_root s1 = ist_root s" "ist_name s1 = ist_name s"
      and eq: "splay_loop n p s h = splay_loop n p1 s1 h1" for h1 p1 s1 t1 L1 R1
  proof -
    from r1(1) have z1: "zipped h1 p1 s1 t1 L1 R1" and en: "ents L1 t1 R1 = ents L t R"
      and lo: "links_only (set (ents L t R)) h h1" and sz: "size t1 < size t"
      and pt: "bysorted h (ents L t R) \<and> parted h n L R \<longrightarrow> parted h1 n L1 R1"
      by (auto simp: round_ok_def)
    obtain p' s' h' t' L' R' where i: "splay_loop n p1 s1 h1 = Some (p', s', h')"
      "zipped h' p' s' t' L' R'" "ents L' t' R' = ents L1 t1 R1" "links_only (set (ents L1 t1 R1)) h1 h'"
      "stops_at h' n t'" "bysorted h1 (ents L1 t1 R1) \<and> parted h1 n L1 R1 \<longrightarrow> parted h' n L' R'"
      "ist_root s' = ist_root s1" "ist_name s' = ist_name s1"
      by (rule less.hyps [OF sz _ z1])
    show thesis
    proof (rule less.prems(1) [OF _ i(2) _ _ i(5)])
      show "splay_loop n p s h = Some (p', s', h')" using eq i(1) by simp
      show "ents L' t' R' = ents L t R" using i(3) en by simp
      show "links_only (set (ents L t R)) h h'" using lo i(4) unfolding en by (rule links_only_trans)
      show "ist_root s' = ist_root s" "ist_name s' = ist_name s" using i(7,8) r1(2,3) by auto
      show "bysorted h (ents L t R) \<and> parted h n L R \<longrightarrow> parted h' n L' R'"
        using pt i(6) by (simp add: en nm_links_only [OF lo])
    qed
  qed
  consider "n = nm h q \<or> (n < nm h q \<and> l = Leaf) \<or> (nm h q < n \<and> r = Leaf)"
    | "n < nm h q" "l \<noteq> Leaf" | "nm h q < n" "r \<noteq> Leaf"
    by fastforce
  then show thesis
  proof cases
    case 1
    then have "splay_loop n p s h = Some (p, s, h)"
      using e by (subst splay_loop.simps) auto
    with 1 show ?thesis using less.prems t by auto
  next
    case 2
    then obtain a x b where l: "l = Node a x b" by (cases l) auto
    with el have x: "ite_lchild e = x" by simp
    from less.prems(2) 2(1) obtain p1 s1 h1 t1 L1 R1 where
      d: "descend_left n x p s h = Some (p1, s1, h1)"
      "round_ok n h (Node (Node a x b) p r) L R h1 p1 s1 t1 L1 R1"
      "ist_root s1 = ist_root s" "ist_name s1 = ist_name s"
      unfolding t l e(1) by (rule descend_left_ok)
    have "splay_loop n p s h = splay_loop n p1 s1 h1"
      using 2 e d(1) x by (subst splay_loop.simps) auto
    with d show ?thesis using go t l e(1) by simp
  next
    case 3
    then obtain a x b where rr: "r = Node a x b" by (cases r) auto
    with er have x: "ite_rchild e = x" by simp
    from less.prems(2) 3(1) obtain p1 s1 h1 t1 L1 R1 where
      d: "descend_right n x p s h = Some (p1, s1, h1)"
      "round_ok n h (Node l p (Node a x b)) L R h1 p1 s1 t1 L1 R1"
      "ist_root s1 = ist_root s" "ist_name s1 = ist_name s"
      unfolding t rr e(1) by (rule descend_right_ok)
    have "splay_loop n p s h = splay_loop n p1 s1 h1"
      using 3 e d(1) x by (subst splay_loop.simps) auto
    with d show ?thesis using go t rr e(1) by simp
  qed
qed

end
