(* ===== verification/Splay_Correct.thy ===== *)
theory Splay_Correct
  imports Splay_Loop
begin

text \<open>
  Every operation of \<^verbatim>\<open>ipc_splay.c\<close> against the list of entries in symmetric order.
  \<open>splay_rep h s xs\<close>: the structure \<open>s\<close> on heap \<open>h\<close> holds exactly the entries
  \<open>xs\<close>, in increasing order of their names, and its unassembled form agrees with
  \<open>ist_name\<close> as the comment at the head of the source file demands.
\<close>

section \<open>The representation relation\<close>

definition splay_rep :: "ite_heap \<Rightarrow> ipc_splay_tree \<Rightarrow> ptr list \<Rightarrow> bool" where
  "splay_rep h s xs \<longleftrightarrow> bysorted h xs \<and>
     (if ist_root s = ITE_NULL then xs = []
      else \<exists>t L R. zipped h (ist_root s) s t L R \<and> xs = ents L t R \<and>
             parted h (ist_name s) L R \<and> stops_at h (ist_name s) t)"

lemma bysorted_distinct: "bysorted h xs \<Longrightarrow> distinct xs"
  by (induction xs) auto

lemma bysorted_links_only: "links_only X h h' \<Longrightarrow> bysorted h' xs = bysorted h xs"
  by (simp add: nm_links_only [of X h h'])

lemma parted_links_only: "links_only X h h' \<Longrightarrow> parted h' n L R = parted h n L R"
  by (simp add: parted_def nm_links_only [of X h h'])

lemmas links_only_congs = nm_links_only bysorted_links_only parted_links_only stops_at_links_only

lemma tr_lo: "links_only X h h' \<Longrightarrow> X \<inter> set_tree t = {} \<Longrightarrow> tr h' p t = tr h p t"
  by (rule tr_frame) (auto simp: links_only_def)

lemma lspine_lo: "links_only X h h' \<Longrightarrow> X \<inter> set (linord L) = {} \<Longrightarrow> lspine h' q L = lspine h q L"
  by (rule lspine_frame) (auto simp: links_only_def)

lemma rspine_lo: "links_only X h h' \<Longrightarrow> X \<inter> set (rinord R) = {} \<Longrightarrow> rspine h' q R = rspine h q R"
  by (rule rspine_frame) (auto simp: links_only_def)

lemma nm_frame: "h' a = h a \<Longrightarrow> nm h' a = nm h a"
  by (simp add: nm_def)

lemma bysorted_frame: "(\<And>a. a \<in> set xs \<Longrightarrow> h' a = h a) \<Longrightarrow> bysorted h' xs = bysorted h xs"
  by (induction xs) (auto simp: nm_frame [of h' _ h])

lemma zipped_frame:
  "(\<And>a. a \<in> set (ents L t R) \<Longrightarrow> h' a = h a) \<Longrightarrow> zipped h' p s t L R = zipped h p s t L R"
  using tr_frame [of t h' h p] lspine_frame [of L h' h] rspine_frame [of R h' h]
  by (auto simp: zipped_def)

lemma splay_rep_frame:
  assumes "\<And>a. a \<in> set xs \<Longrightarrow> h' a = h a"
  shows "splay_rep h' s xs = splay_rep h s xs"
proof -
  have P: "(zipped h' (ist_root s) s t L R \<and> xs = ents L t R \<and>
             parted h' (ist_name s) L R \<and> stops_at h' (ist_name s) t) =
           (zipped h (ist_root s) s t L R \<and> xs = ents L t R \<and>
             parted h (ist_name s) L R \<and> stops_at h (ist_name s) t)" for t L R
  proof (cases "xs = ents L t R")
    case True
    have eq: "h' a = h a" if "a \<in> set (ents L t R)" for a
      using that True assms by simp
    have "parted h' (ist_name s) L R = parted h (ist_name s) L R"
      using eq by (auto simp: parted_def nm_frame [of h' _ h])
    moreover have "stops_at h' (ist_name s) t = stops_at h (ist_name s) t"
      using eq by (cases t) (auto simp: nm_frame [of h' _ h])
    ultimately show ?thesis using zipped_frame [OF eq] by simp
  qed simp
  have bs: "bysorted h' xs = bysorted h xs"
    by (rule bysorted_frame) (rule assms)
  show ?thesis
    unfolding splay_rep_def P bs ..
qed

lemma zipped_dom: "zipped h p s t L R \<Longrightarrow> set (ents L t R) \<subseteq> dom h - {0}"
proof -
  have L: "lspine h q L \<Longrightarrow> set (linord L) \<subseteq> dom h - {0}" for q
    by (induction L rule: linord.induct) (auto dest: tr_dom)
  have R: "rspine h q R \<Longrightarrow> set (rinord R) \<subseteq> dom h - {0}" for q
    by (induction R rule: rinord.induct) (auto dest: tr_dom)
  assume "zipped h p s t L R"
  then show ?thesis
    using L [of "ist_ltree s"] R [of "ist_rtree s"] tr_dom [of h p t] by (auto simp: zipped_def)
qed

lemma splay_rep_dom: "splay_rep h s xs \<Longrightarrow> set xs \<subseteq> dom h - {0}"
  by (auto simp: splay_rep_def split: if_splits dest!: zipped_dom)

text \<open>A fully assembled tree at the root.\<close>

lemma zipped_assembled:
  "tr h p t \<Longrightarrow> p \<noteq> 0 \<Longrightarrow> distinct (inorder t) \<Longrightarrow> zipped h p (reset_treeps s) t [] []"
  by (auto simp: zipped_def reset_treeps_def)

lemma install_root_ok:
  assumes "tr h p t" "bysorted h (inorder t)"
  obtains s' where "install_root p s h = Some s'" "splay_rep h s' (inorder t)"
    "ist_root s' = p"
proof (cases "p = 0")
  case True
  with assms show ?thesis
    by (intro that [of "s\<lparr>ist_root := p\<rparr>"]) (auto simp: install_root_def splay_rep_def dest: tr_root)
next
  case False
  from assms False obtain l r e where t: "t = Node l p r" "h p = Some e"
    by (auto elim: tr_NodeE)
  let ?s = "reset_treeps (s\<lparr>ist_root := p, ist_name := ite_name e\<rparr>)"
  have "zipped h p ?s t [] []"
    using assms False by (intro zipped_assembled) (auto dest: bysorted_distinct)
  then have "splay_rep h ?s (inorder t)"
    using assms False t
    by (auto simp: splay_rep_def reset_treeps_def ents_def parted_def nm_def
        intro!: exI [of _ t] exI [of _ "[] :: spine"])
  with False t show ?thesis
    by (intro that [of ?s]) (auto simp: install_root_def reset_treeps_def)
qed

section \<open>Assembling and splaying\<close>

lemma assemble_ok:
  assumes z: "zipped h p s t L R"
  obtains s' h' T where "ipc_splay_prim_assemble p s h = Some (s', h')"
    "tr h' p T" "inorder T = ents L t R" "links_only (set (ents L t R)) h h'"
    "ist_root s' = ist_root s" "ist_name s' = ist_name s"
    "\<forall>l r. t = Node l p r \<longrightarrow> T = Node (lplug L l) p (rplug R r)"
proof -
  from z obtain l r where t: "t = Node l p r" by (cases t) (auto simp: zipped_def)
  from z [unfolded t] obtain e where e: "p \<noteq> 0" "h p = Some e" "tr h (ite_lchild e) l" "tr h (ite_rchild e) r"
    by (rule zipped_root) auto
  note zz = z [unfolded zipped_def t]
  obtain s1 h1 where w1: "ltreep_write (ite_lchild e) s h = Some (s1, h1)"
    "tr h1 (ist_ltree s1) (lplug L l)" "links_only (hole_adr L) h h1"
    "ist_rtree s1 = ist_rtree s" "ist_rtreep s1 = ist_rtreep s" "ist_root s1 = ist_root s"
    "ist_name s1 = ist_name s"
    by (rule ltreep_write_ok [of h s L "ite_lchild e" l]) (use zz e in auto)
  have pL: "p \<notin> hole_adr L" "hole_adr L \<inter> set_tree r = {}" "hole_adr L \<inter> set (rinord R) = {}"
    using zz hole_adr_sub(1) [of L] by auto
  have h1p: "h1 p = Some e" using links_only_out [OF w1(3) pL(1)] e by simp
  obtain s2 h2 where w2: "rtreep_write (ite_rchild e) s1 h1 = Some (s2, h2)"
    "tr h2 (ist_rtree s2) (rplug R r)" "links_only (hole_adr R) h1 h2"
    "ist_ltree s2 = ist_ltree s1" "ist_root s2 = ist_root s1" "ist_name s2 = ist_name s1"
    by (rule rtreep_write_ok [of h1 s1 R "ite_rchild e" r])
      (use zz e w1 pL tr_lo [OF w1(3) pL(2)] rspine_lo [OF w1(3) pL(3)] in auto)
  have pR: "p \<notin> hole_adr R" "hole_adr R \<inter> set_tree (lplug L l) = {}"
    using zz hole_adr_sub(2) [of R] by (auto simp flip: set_inorder simp: inorder_lplug)
  have h2p: "h2 p = Some e" using links_only_out [OF w2(3) pR(1)] h1p by simp
  let ?e = "e\<lparr>ite_lchild := ist_ltree s2, ite_rchild := ist_rtree s2\<rparr>"
  let ?h = "h2(p \<mapsto> ?e)"
  have np: "p \<notin> set_tree (lplug L l)" "p \<notin> set_tree (rplug R r)"
    using zz by (auto simp flip: set_inorder simp: inorder_lplug inorder_rplug)
  have T: "tr ?h p (Node (lplug L l) p (rplug R r))"
    using np w2 w1(2) tr_lo [OF w2(3) pR(2)] e(1) by simp
  have "links_only (set (ents L t R)) h h1"
    by (rule links_only_mono [OF w1(3)]) (use hole_adr_sub(1) [of L] in auto)
  moreover have "links_only (set (ents L t R)) h1 h2"
    by (rule links_only_mono [OF w2(3)]) (use hole_adr_sub(2) [of R] in auto)
  moreover have "links_only (set (ents L t R)) h2 ?h"
    using h2p by (intro links_only_upd) (auto simp: t)
  ultimately have lo: "links_only (set (ents L t R)) h ?h"
    using links_only_trans by blast
  have "ipc_splay_prim_assemble p s h = Some (s2, ?h)"
    using e w1 w2 h1p h2p by (simp add: ipc_splay_prim_assemble_def set_lchild_def set_rchild_def)
  with T lo show ?thesis
    using w1 w2 t by (intro that [of s2 ?h "Node (lplug L l) p (rplug R r)"]) (auto simp: inorder_lplug inorder_rplug ents_def)
qed

lemma prim_lookup_ok:
  assumes "tr h p t" "p \<noteq> 0" "bysorted h (inorder t)"
  obtains p' s' h' t' L R where "ipc_splay_prim_lookup n p s h = Some (p', s', h')"
    "zipped h' p' s' t' L R" "ents L t' R = inorder t" "links_only (set_tree t) h h'"
    "stops_at h' n t'" "parted h' n L R" "ist_root s' = ist_root s" "ist_name s' = ist_name s"
proof -
  have "zipped h p (reset_treeps s) t [] []"
    using assms by (intro zipped_assembled) (auto dest: bysorted_distinct)
  then obtain p' s' h' t' L R where i: "splay_loop n p (reset_treeps s) h = Some (p', s', h')"
    "zipped h' p' s' t' L R" "ents L t' R = ents [] t []" "links_only (set (ents [] t [])) h h'"
    "stops_at h' n t'" "bysorted h (ents [] t []) \<and> parted h n [] [] \<longrightarrow> parted h' n L R"
    "ist_root s' = ist_root (reset_treeps s)" "ist_name s' = ist_name (reset_treeps s)"
    by (rule splay_loop_ok)
  then show ?thesis
    using assms by (intro that [of p' s' h' t' L R]) (auto simp: ipc_splay_prim_lookup_def ents_def parted_def reset_treeps_def)
qed

lemma resplay_ok:
  assumes "splay_rep h s xs" "ist_root s \<noteq> 0"
  obtains p s' h' t L R where "resplay n s h = Some (p, s', h')"
    "zipped h' p s' t L R" "ents L t R = xs" "links_only (set xs) h h'"
    "stops_at h' n t" "parted h' n L R" "bysorted h' xs"
proof (cases "ist_name s = n")
  case True
  with assms show ?thesis
    by (auto simp: splay_rep_def resplay_def intro: that)
next
  case False
  from assms obtain t L R where z: "zipped h (ist_root s) s t L R" "xs = ents L t R" "bysorted h xs"
    by (auto simp: splay_rep_def)
  from z(1) obtain s1 h1 T where a: "ipc_splay_prim_assemble (ist_root s) s h = Some (s1, h1)"
    "tr h1 (ist_root s) T" "inorder T = ents L t R" "links_only (set (ents L t R)) h h1"
    "ist_root s1 = ist_root s" "ist_name s1 = ist_name s"
    by (rule assemble_ok)
  have lo1: "links_only (set xs) h h1" using a z by simp
  have st: "set_tree T = set xs" using a(3) z(2) by (metis set_inorder)
  have "bysorted h1 (inorder T)"
    using z a by (simp add: bysorted_links_only [OF lo1])
  with a(2) assms(2) obtain p2 s2 h2 t2 L2 R2 where
    b: "ipc_splay_prim_lookup n (ist_root s) s1 h1 = Some (p2, s2, h2)"
    "zipped h2 p2 s2 t2 L2 R2" "ents L2 t2 R2 = inorder T" "links_only (set_tree T) h1 h2"
    "stops_at h2 n t2" "parted h2 n L2 R2" "ist_root s2 = ist_root s1"
    by (rule prim_lookup_ok)
  from lo1 b(4) have lo: "links_only (set xs) h h2"
    unfolding st by (rule links_only_trans)
  show ?thesis
    using False a b lo z
    by (intro that [of p2 s2 h2 t2 L2 R2]) (auto simp: resplay_def bysorted_links_only [OF lo])
qed

section \<open>Lookup\<close>

lemma stops_found:
  assumes so: "bysorted h (ents L t R)" and pt: "parted h n L R" and st: "stops_at h n t"
    and z: "zipped h p s t L R"
  shows "nm h p = n \<or> n \<notin> nm h ` set (ents L t R)"
proof -
  from z obtain l r where t: "t = Node l p r" by (cases t) (auto simp: zipped_def)
  have "\<forall>a \<in> set_tree l. nm h a < nm h p" "\<forall>a \<in> set_tree r. nm h p < nm h a"
    using so by (auto simp: sorted_wrt_append t)
  then have "\<forall>a \<in> set (ents L t R). nm h p \<noteq> n \<longrightarrow> nm h a \<noteq> n"
    using pt st by (fastforce simp: t parted_def)
  then show ?thesis by blast
qed

lemma zipped_stop:
  "zipped h p s t L R \<Longrightarrow> zipped h p (s\<lparr>ist_name := n, ist_root := q\<rparr>) t L R"
  by (simp add: zipped_def)

lemma splay_tree_lookup_ok:
  assumes "splay_rep h s xs"
  obtains r s' h' where "ipc_splay_tree_lookup n s h = Some (r, s', h')"
    "splay_rep h' s' xs" "links_only (set xs) h h'"
    "r = 0 \<Longrightarrow> n \<notin> nm h ` set xs" "r \<noteq> 0 \<Longrightarrow> r \<in> set xs \<and> nm h r = n"
proof (cases "ist_root s = 0")
  case True
  with assms show ?thesis
    by (intro that [of 0 s h]) (auto simp: ipc_splay_tree_lookup_def splay_rep_def)
next
  case False
  from assms False obtain p s1 h1 t L R where r: "resplay n s h = Some (p, s1, h1)"
    "zipped h1 p s1 t L R" "ents L t R = xs" "links_only (set xs) h h1"
    "stops_at h1 n t" "parted h1 n L R" "bysorted h1 xs"
    by (rule resplay_ok)
  note lo = links_only_congs [OF r(4)]
  let ?s = "s1\<lparr>ist_name := n, ist_root := p\<rparr>"
  have p: "p \<noteq> 0" using r(2) by (rule zipped_nonnull)
  from r(2) obtain l rr where t: "t = Node l p rr" by (cases t) (auto simp: zipped_def)
  from r(2) [unfolded t] obtain e where e: "h1 p = Some e" "ite_name e = nm h1 p"
    by (rule zipped_root)
  have rep: "splay_rep h1 ?s xs"
    using p r zipped_stop [OF r(2), where n = n and q = p] by (auto simp: splay_rep_def)
  have fnd: "nm h p = n \<or> n \<notin> nm h ` set xs"
    using stops_found [of h1 L t R n p s1] r by (simp add: lo)
  have "p \<in> set xs" using r(3) t by auto
  with fnd rep p e r(1) show ?thesis
    by (intro that [of "if n \<noteq> ite_name e then 0 else p" ?s h1])
      (auto simp: ipc_splay_tree_lookup_def False lo r(4))
qed

section \<open>Insertion\<close>

text \<open>The place of a new name among the sorted entries.\<close>

definition ins_entry :: "ite_heap \<Rightarrow> u32 \<Rightarrow> ptr \<Rightarrow> ptr list \<Rightarrow> ptr list" where
  "ins_entry h n p xs = filter (\<lambda>a. nm h a < n) xs @ p # filter (\<lambda>a. n < nm h a) xs"

lemma filter_all: "(\<And>x. x \<in> set xs \<Longrightarrow> P x) \<Longrightarrow> filter P xs = xs"
  by (simp add: filter_id_conv)

lemma filter_none: "(\<And>x. x \<in> set xs \<Longrightarrow> \<not> P x) \<Longrightarrow> filter P xs = []"
  by (simp add: filter_empty_conv)

text \<open>Splitting the sorted entries around a name, from the shape the splay leaves.\<close>

lemma split_sorted:
  assumes "bysorted h (xs @ ys)" "\<forall>a \<in> set xs. nm h a < n" "\<forall>a \<in> set ys. n \<le> nm h a"
  shows "filter (\<lambda>a. nm h a < n) (xs @ ys) = xs" "filter (\<lambda>a. n \<le> nm h a) (xs @ ys) = ys"
proof -
  have "filter (\<lambda>a. nm h a < n) xs = xs" "filter (\<lambda>a. nm h a < n) ys = []"
    "filter (\<lambda>a. n \<le> nm h a) xs = []" "filter (\<lambda>a. n \<le> nm h a) ys = ys"
    using assms by (auto simp: filter_id_conv filter_empty_conv not_less not_le)
  then show "filter (\<lambda>a. nm h a < n) (xs @ ys) = xs" "filter (\<lambda>a. n \<le> nm h a) (xs @ ys) = ys"
    by auto
qed

text \<open>The two trees that remain when the middle tree is put on one side of the search name.\<close>

lemma split_shape:
  assumes z: "zipped h p s (Node l p r) L R" and st: "stops_at h n (Node l p r)"
    and pt: "parted h n L R" and so: "bysorted h (ents L (Node l p r) R)"
  shows "n < nm h p \<Longrightarrow> l = Leaf" "nm h p < n \<Longrightarrow> r = Leaf"
    "nm h p < n \<Longrightarrow> \<forall>a \<in> set (linord L @ inorder l @ [p]). nm h a < n"
    "n \<le> nm h p \<Longrightarrow> \<forall>a \<in> set (linord L @ inorder l). nm h a < n"
    "n \<le> nm h p \<Longrightarrow> \<forall>a \<in> set (p # inorder r @ rinord R). n \<le> nm h a"
proof -
  show l: "n < nm h p \<Longrightarrow> l = Leaf" using st by auto
  show r: "nm h p < n \<Longrightarrow> r = Leaf" using st by auto
  have so': "\<forall>a \<in> set_tree l. nm h a < nm h p" "\<forall>a \<in> set_tree r. nm h p < nm h a"
    using so by (auto simp: sorted_wrt_append)
  show "nm h p < n \<Longrightarrow> \<forall>a \<in> set (linord L @ inorder l @ [p]). nm h a < n"
    using pt so' by (auto simp: parted_def intro: less_trans)
  show "n \<le> nm h p \<Longrightarrow> \<forall>a \<in> set (linord L @ inorder l). nm h a < n"
    using pt so' l by (cases "n = nm h p") (auto simp: parted_def)
  show "n \<le> nm h p \<Longrightarrow> \<forall>a \<in> set (p # inorder r @ rinord R). n \<le> nm h a"
    using pt so' by (auto simp: parted_def intro: less_imp_le le_less_trans)
qed

end
