(* ===== verification/Splay_Ops.thy ===== *)
theory Splay_Ops
  imports Splay_Correct
begin

text \<open>
  Insertion, deletion, split, join and bounds of the splay tree against the list of entries in
  symmetric order.
\<close>

section \<open>Filling both holes\<close>

lemma two_plugs:
  assumes "lspine h (ist_ltree s) L" "ist_ltreep s = hole L"
    "rspine h (ist_rtree s) R" "ist_rtreep s = hole R" "tr h v m" "tr h w k"
    and d: "distinct (linord L @ inorder m @ inorder k @ rinord R)"
  obtains s1 h1 s2 h2 where "ltreep_write v s h = Some (s1, h1)" "rtreep_write w s1 h1 = Some (s2, h2)"
    "tr h2 (ist_ltree s2) (lplug L m)" "tr h2 (ist_rtree s2) (rplug R k)"
    "links_only (set (linord L)) h h1" "links_only (set (rinord R)) h1 h2"
    "links_only (set (linord L) \<union> set (rinord R)) h h2"
    "ist_root s2 = ist_root s" "ist_name s2 = ist_name s"
proof -
  obtain s1 h1 where w1: "ltreep_write v s h = Some (s1, h1)"
    "tr h1 (ist_ltree s1) (lplug L m)" "links_only (hole_adr L) h h1"
    "ist_rtree s1 = ist_rtree s" "ist_rtreep s1 = ist_rtreep s" "ist_root s1 = ist_root s"
    "ist_name s1 = ist_name s"
    by (rule ltreep_write_ok [of h s L v m]) (use assms in auto)
  have lo1: "links_only (set (linord L)) h h1"
    by (rule links_only_mono [OF w1(3)]) (rule hole_adr_sub)
  have dj: "set (linord L) \<inter> set_tree k = {}" "set (linord L) \<inter> set (rinord R) = {}"
    "set (rinord R) \<inter> set_tree (lplug L m) = {}"
    using d by (auto simp flip: set_inorder simp: inorder_lplug)
  obtain s2 h2 where w2: "rtreep_write w s1 h1 = Some (s2, h2)"
    "tr h2 (ist_rtree s2) (rplug R k)" "links_only (hole_adr R) h1 h2"
    "ist_ltree s2 = ist_ltree s1" "ist_root s2 = ist_root s1" "ist_name s2 = ist_name s1"
    by (rule rtreep_write_ok [of h1 s1 R w k])
      (use assms w1 tr_lo [OF lo1 dj(1)] rspine_lo [OF lo1 dj(2)] in auto)
  have lo2: "links_only (set (rinord R)) h1 h2"
    by (rule links_only_mono [OF w2(3)]) (rule hole_adr_sub)
  have "links_only (set (linord L) \<union> set (rinord R)) h h2"
    by (rule links_only_trans [of _ h h1]; rule links_only_mono) (use lo1 lo2 in auto)
  with w1 w2 lo1 lo2 tr_lo [OF lo2 dj(3)] show ?thesis
    by (intro that [of s1 h1 s2 h2]) auto
qed

text \<open>Above one new or old entry, the two filled trees form one tree.\<close>

lemma node_over:
  assumes "tr h p l" "tr h q r" "a \<noteq> 0" "a \<notin> set_tree l" "a \<notin> set_tree r"
    and "ite_lchild e = p" "ite_rchild e = q"
  shows "tr (h(a \<mapsto> e)) a (Node l a r)"
  using assms by simp

lemma splay_rep_assembled:
  assumes "tr h p t" "p \<noteq> 0" "bysorted h (inorder t)" "n = nm h p"
  shows "splay_rep h (reset_treeps (s\<lparr>ist_root := p, ist_name := n\<rparr>)) (inorder t)"
proof -
  from assms obtain l r where t: "t = Node l p r" by (auto elim: tr_NodeE)
  let ?s = "reset_treeps (s\<lparr>ist_root := p, ist_name := n\<rparr>)"
  have "zipped h p ?s t [] []"
    using assms by (intro zipped_assembled) (auto dest: bysorted_distinct)
  moreover have "inorder t = ents [] t []" "parted h n [] []" "stops_at h n t"
    using assms t by (auto simp: ents_def parted_def)
  ultimately show ?thesis
    using assms by (auto simp: splay_rep_def reset_treeps_def)
qed

section \<open>Insertion\<close>

lemma bysorted_filter: "bysorted h xs \<Longrightarrow> bysorted h (filter P xs)"
  by (rule sorted_wrt_filter)

lemma bysorted_ins:
  assumes "bysorted h xs" "nm h' p = n" "\<And>a. a \<in> set xs \<Longrightarrow> nm h' a = nm h a"
  shows "bysorted h' (ins_entry h n p xs)"
proof -
  have "bysorted h (filter P xs)" for P
    using assms(1) by (rule sorted_wrt_filter)
  then have "bysorted h' (filter P xs)" for P
    by (rule sorted_wrt_mono_rel [rotated]) (auto simp: assms(3))
  then show ?thesis
    using assms(2,3) by (auto simp: ins_entry_def sorted_wrt_append intro: less_trans)
qed

lemma ins_entry_split:
  assumes "bysorted h (xs @ ys)" "\<forall>a \<in> set xs. nm h a < n" "\<forall>a \<in> set ys. n < nm h a"
  shows "ins_entry h n p (xs @ ys) = xs @ p # ys"
proof -
  have "filter (\<lambda>a. nm h a < n) xs = xs" "filter (\<lambda>a. nm h a < n) ys = []"
    "filter (\<lambda>a. n < nm h a) xs = []" "filter (\<lambda>a. n < nm h a) ys = ys"
    using assms by (auto simp: filter_id_conv filter_empty_conv dest: less_not_sym)
  then show ?thesis by (simp add: ins_entry_def)
qed

lemma ins_entry_cong:
  "(\<And>a. a \<in> set xs \<Longrightarrow> nm h' a = nm h a) \<Longrightarrow> ins_entry h' n p xs = ins_entry h n p xs"
  unfolding ins_entry_def by (simp cong: filter_cong)

text \<open>The common end of both branches of insertion into a non-empty tree.\<close>

lemma insert_finish:
  assumes "tr h2 (ist_ltree s2) A" "tr h2 (ist_rtree s2) B" "h2 p = Some e" "p \<noteq> 0"
    and np: "p \<notin> set_tree A" "p \<notin> set_tree B"
    and so: "bysorted h2 (inorder A @ inorder B)"
    and lt: "\<forall>a \<in> set_tree A. nm h2 a < n" and gt: "\<forall>a \<in> set_tree B. n < nm h2 a"
  shows "splay_rep (h2(p \<mapsto> e\<lparr>ite_lchild := ist_ltree s2, ite_rchild := ist_rtree s2, ite_name := n\<rparr>))
    (reset_treeps (s2\<lparr>ist_root := p, ist_name := n\<rparr>)) (inorder A @ p # inorder B)"
proof -
  let ?e = "e\<lparr>ite_lchild := ist_ltree s2, ite_rchild := ist_rtree s2, ite_name := n\<rparr>"
  let ?h = "h2(p \<mapsto> ?e)"
  have nmh: "nm ?h p = n" "\<And>a. a \<noteq> p \<Longrightarrow> nm ?h a = nm h2 a" by (auto simp: nm_def)
  have T: "tr ?h p (Node A p B)"
    using assms(1,2,4) np by simp
  have AB: "bysorted ?h (inorder A) = bysorted h2 (inorder A)"
    "bysorted ?h (inorder B) = bysorted h2 (inorder B)"
    by (rule bysorted_frame; use np in auto)+
  have nb: "\<forall>a \<in> set_tree A. nm ?h a < n" "\<forall>a \<in> set_tree B. n < nm ?h a"
    using lt gt np nmh by metis+
  have so': "bysorted ?h (inorder (Node A p B))"
    using so nb less_trans unfolding inorder.simps sorted_wrt_append AB
    by (auto simp only: sorted_wrt.simps nmh(1) set_inorder AB append_Cons append_Nil list.set
        empty_iff insert_iff Un_iff) blast
  have "splay_rep ?h (reset_treeps (s2\<lparr>ist_root := p, ist_name := n\<rparr>)) (inorder (Node A p B))"
    by (rule splay_rep_assembled [OF T assms(4) so']) (simp add: nmh)
  then show ?thesis by simp
qed

lemma links_only_with:
  assumes "links_only X h h2" "p \<notin> X" "strip e' = strip e"
  shows "links_only (insert p X) (h(p \<mapsto> e)) (h2(p \<mapsto> e'))"
  using assms by (auto simp: links_only_def)

lemma splay_tree_insert_ok:
  assumes rep: "splay_rep h s xs" and p: "p \<noteq> 0" "h p = Some e" "p \<notin> set xs"
    and fresh: "n \<notin> nm h ` set xs"
  obtains s' h' where "ipc_splay_tree_insert n p s h = Some (s', h')"
    "splay_rep h' s' (ins_entry h n p xs)"
    "links_only (insert p (set xs)) (h(p \<mapsto> e\<lparr>ite_name := n\<rparr>)) h'"
proof (cases "ist_root s = 0")
  case True
  let ?e = "e\<lparr>ite_lchild := 0, ite_rchild := 0, ite_name := n\<rparr>"
  have xs: "xs = []" using rep True by (simp add: splay_rep_def)
  have "splay_rep (h(p \<mapsto> ?e)) (reset_treeps (s\<lparr>ist_root := p, ist_name := n\<rparr>)) (inorder (Node Leaf p Leaf))"
    by (rule splay_rep_assembled) (use p in \<open>auto simp: nm_def\<close>)
  moreover have "links_only (insert p {}) (h(p \<mapsto> e\<lparr>ite_name := n\<rparr>)) (h(p \<mapsto> ?e))"
    by (rule links_only_with) (auto simp: strip_def)
  ultimately show ?thesis
    using True p xs
    by (intro that [of "reset_treeps (s\<lparr>ist_root := p, ist_name := n\<rparr>)" "h(p \<mapsto> ?e)"])
      (auto simp: ipc_splay_tree_insert_def set_lchild_def set_rchild_def set_name_def ins_entry_def)
next
  case False
  from rep False obtain q s1 h1 t L R where r: "resplay n s h = Some (q, s1, h1)"
    "zipped h1 q s1 t L R" "ents L t R = xs" "links_only (set xs) h h1"
    "stops_at h1 n t" "parted h1 n L R" "bysorted h1 xs"
    by (rule resplay_ok)
  note lo = links_only_congs [OF r(4)]
  from r(2) obtain l rr where t: "t = Node l q rr" by (cases t) (auto simp: zipped_def)
  from r(2) [unfolded t] obtain f where f: "q \<noteq> 0" "h1 q = Some f" "ite_name f = nm h1 q"
    "ite_lchild f = 0 \<longleftrightarrow> l = Leaf" "ite_rchild f = 0 \<longleftrightarrow> rr = Leaf"
    by (rule zipped_root)
  note sh = split_shape [of h1 q s1 l rr L R n, folded t, OF r(2) r(5) r(6) r(7) [folded r(3)]]
  note z = r(2) [unfolded zipped_def]
  have qn: "nm h1 q \<noteq> n" using fresh r(3) t lo by auto
  note obt = that
  have fin: thesis if w: "ltreep_write v s1 h1 = Some (s2, h2)" "rtreep_write w s2 h2 = Some (s3, h3)"
      "tr h3 (ist_ltree s3) (lplug L m)" "tr h3 (ist_rtree s3) (rplug R k)"
      "links_only (set (linord L) \<union> set (rinord R)) h1 h3"
    and mk: "linord L @ inorder m @ inorder k @ rinord R = xs"
      "\<forall>a \<in> set_tree m. nm h1 a < n" "\<forall>a \<in> set_tree k. n < nm h1 a"
    and eq: "ipc_splay_tree_insert n p s h = do {
        (s, h) \<leftarrow> ltreep_write v s1 h1; (s, h) \<leftarrow> rtreep_write w s h;
        h \<leftarrow> set_lchild p (ist_ltree s) h; h \<leftarrow> set_rchild p (ist_rtree s) h;
        h \<leftarrow> set_name p n h;
        Some (reset_treeps (s\<lparr>ist_root := p, ist_name := n\<rparr>), h) }"
    for v w s2 h2 s3 h3 m k
  proof -
    have lo3: "links_only (set xs) h1 h3"
      by (rule links_only_mono [OF w(5)]) (use r(3) in auto)
    then have lo13: "links_only (set xs) h h3" using r(4) links_only_trans by blast
    have h3p: "h3 p = Some e" using links_only_out [OF lo13 p(3)] p by simp
    let ?A = "lplug L m" and ?B = "rplug R k"
    have in2: "inorder ?A @ inorder ?B = xs" using mk by (simp add: inorder_lplug inorder_rplug)
    have sA: "set_tree ?A \<subseteq> set xs" "set_tree ?B \<subseteq> set xs" using in2 by (metis set_inorder set_append Un_upper1 Un_upper2)+
    have A: "\<forall>a \<in> set_tree ?A. nm h3 a < n" "\<forall>a \<in> set_tree ?B. n < nm h3 a"
      using mk r(6) unfolding links_only_congs(1) [OF lo3]
      by (auto simp flip: set_inorder simp: inorder_lplug inorder_rplug parted_def)
    let ?h = "h3(p \<mapsto> e\<lparr>ite_lchild := ist_ltree s3, ite_rchild := ist_rtree s3, ite_name := n\<rparr>)"
    have "splay_rep ?h (reset_treeps (s3\<lparr>ist_root := p, ist_name := n\<rparr>)) (inorder ?A @ p # inorder ?B)"
      by (rule insert_finish [OF w(3,4) h3p p(1)])
        (use sA p A in2 r(7) bysorted_links_only [OF lo3] in auto)
    moreover have "inorder ?A @ p # inorder ?B = ins_entry h3 n p (inorder ?A @ inorder ?B)"
      by (rule ins_entry_split [symmetric])
        (use A in2 r(7) bysorted_links_only [OF lo3] in auto)
    moreover have "ins_entry h3 n p xs = ins_entry h n p xs"
      by (rule ins_entry_cong) (simp add: nm_links_only [OF lo13])
    moreover have "links_only (insert p (set xs)) (h(p \<mapsto> e\<lparr>ite_name := n\<rparr>)) ?h"
      by (rule links_only_with [OF lo13 p(3)]) (simp add: strip_def)
    moreover have "ipc_splay_tree_insert n p s h =
        Some (reset_treeps (s3\<lparr>ist_root := p, ist_name := n\<rparr>), ?h)"
      unfolding eq using w(1,2) h3p p(1) by (simp add: set_lchild_def set_rchild_def set_name_def)
    ultimately show thesis using obt in2 by simp
  qed
  have dx: "distinct xs" using bysorted_distinct r(7) by blast
  show ?thesis
  proof (cases "n < nm h1 q")
    case True
    have m: "tr h1 0 Leaf" by simp
    obtain s2 h2 s3 h3 where w: "ltreep_write 0 s1 h1 = Some (s2, h2)" "rtreep_write q s2 h2 = Some (s3, h3)"
      "tr h3 (ist_ltree s3) (lplug L Leaf)" "tr h3 (ist_rtree s3) (rplug R t)"
      "links_only (set (linord L) \<union> set (rinord R)) h1 h3"
      by (rule two_plugs [of h1 s1 L R 0 Leaf q t]) (use z in auto)
    show ?thesis
    proof (rule fin [OF w])
      show "linord L @ inorder Leaf @ inorder t @ rinord R = xs" using r(3) by (simp add: ents_def)
      show "\<forall>a \<in> set_tree Leaf. nm h1 a < n" by simp
      show "\<forall>a \<in> set_tree t. n < nm h1 a"
        using True sh(1) r(7) less_trans unfolding r(3) [symmetric] t by (fastforce simp: sorted_wrt_append)
      show "ipc_splay_tree_insert n p s h = do {
        (s, h) \<leftarrow> ltreep_write 0 s1 h1; (s, h) \<leftarrow> rtreep_write q s h;
        h \<leftarrow> set_lchild p (ist_ltree s) h; h \<leftarrow> set_rchild p (ist_rtree s) h;
        h \<leftarrow> set_name p n h;
        Some (reset_treeps (s\<lparr>ist_root := p, ist_name := n\<rparr>), h) }"
        using False True r(1) f p qn sh(1) w(1,2) by (simp add: ipc_splay_tree_insert_def)
    qed
  next
    case nlt: False
    then have lt: "nm h1 q < n" using qn by auto
    obtain s2 h2 s3 h3 where w: "ltreep_write q s1 h1 = Some (s2, h2)" "rtreep_write 0 s2 h2 = Some (s3, h3)"
      "tr h3 (ist_ltree s3) (lplug L t)" "tr h3 (ist_rtree s3) (rplug R Leaf)"
      "links_only (set (linord L) \<union> set (rinord R)) h1 h3"
      by (rule two_plugs [of h1 s1 L R q t 0 Leaf]) (use z in auto)
    show ?thesis
    proof (rule fin [OF w])
      show "linord L @ inorder t @ inorder Leaf @ rinord R = xs" using r(3) by (simp add: ents_def)
      show "\<forall>a \<in> set_tree Leaf. n < nm h1 a" by simp
      show "\<forall>a \<in> set_tree t. nm h1 a < n"
        using lt sh(2,3) unfolding t by auto
      show "ipc_splay_tree_insert n p s h = do {
        (s, h) \<leftarrow> ltreep_write q s1 h1; (s, h) \<leftarrow> rtreep_write 0 s h;
        h \<leftarrow> set_lchild p (ist_ltree s) h; h \<leftarrow> set_rchild p (ist_rtree s) h;
        h \<leftarrow> set_name p n h;
        Some (reset_treeps (s\<lparr>ist_root := p, ist_name := n\<rparr>), h) }"
        using False lt nlt r(1) f p qn sh(2) w(1,2) by (simp add: ipc_splay_tree_insert_def)
    qed
  qed
qed

section \<open>Deletion\<close>

lemma less_minus_one [simp]: "\<not> (- 1 :: u32) < x"
  by (simp add: not_less)

text \<open>Splaying for the largest possible name brings the last entry to the root.\<close>

lemma splay_max_ok:
  assumes "tr h p t" "p \<noteq> 0" "bysorted h (inorder t)"
  obtains q s1 h1 s2 h2 A e where "ipc_splay_prim_lookup MACH_PORT_LARGEST p s h = Some (q, s1, h1)"
    "ipc_splay_prim_assemble q s1 h1 = Some (s2, h2)" "tr h2 q (Node A q Leaf)"
    "inorder A @ [q] = inorder t" "h2 q = Some e" "ite_rchild e = 0" "links_only (set_tree t) h h2"
proof -
  from assms obtain q s1 h1 t1 L R where a: "ipc_splay_prim_lookup MACH_PORT_LARGEST p s h = Some (q, s1, h1)"
    "zipped h1 q s1 t1 L R" "ents L t1 R = inorder t" "links_only (set_tree t) h h1"
    "stops_at h1 MACH_PORT_LARGEST t1" "parted h1 MACH_PORT_LARGEST L R"
    by (rule prim_lookup_ok)
  from a(2) obtain s2 h2 T where b: "ipc_splay_prim_assemble q s1 h1 = Some (s2, h2)"
    "tr h2 q T" "inorder T = ents L t1 R" "links_only (set (ents L t1 R)) h1 h2"
    "\<forall>l r. t1 = Node l q r \<longrightarrow> T = Node (lplug L l) q (rplug R r)"
    by (rule assemble_ok)
  from a(2) obtain l r where t1: "t1 = Node l q r" by (cases t1) (auto simp: zipped_def)
  have R: "R = []" using a(6) by (cases R rule: rinord.cases) (auto simp: parted_def)
  have "bysorted h1 (ents L t1 R)"
    using assms(3) a(3) by (simp add: bysorted_links_only [OF a(4)])
  then have "\<forall>a \<in> set_tree r. nm h1 q < nm h1 a" by (auto simp: t1 sorted_wrt_append)
  then have r: "r = Leaf" using a(5) t1 by (cases r) (auto, metis less_minus_one)
  have T: "T = Node (lplug L l) q Leaf" using b(5) t1 R r by simp
  have "links_only (set_tree t) h1 h2" using b(4) a(3) by simp
  then have "links_only (set_tree t) h h2" using a(4) links_only_trans by blast
  moreover obtain e where "h2 q = Some e" "ite_rchild e = 0" using b(2) T by auto
  ultimately show ?thesis
    using a b T by (intro that [of q s1 h1 s2 h2 "lplug L l" e]) auto
qed

text \<open>The end of deletion: the two remaining trees become one.\<close>

lemma delete_tail:
  assumes A: "tr h (ist_ltree s) A" and B: "tr h (ist_rtree s) B"
    and so: "bysorted h (inorder A @ inorder B)"
  obtains root s' h' U where
    "(if ist_ltree s = ITE_NULL then Some (ist_rtree s, s, h)
        else if ist_rtree s \<noteq> ITE_NULL then do {
          (root, s', h) \<leftarrow> ipc_splay_prim_lookup MACH_PORT_LARGEST (ist_ltree s) s h;
          (s', h) \<leftarrow> ipc_splay_prim_assemble root s' h;
          e \<leftarrow> ite_get h root;
          oassert (ite_rchild e = ITE_NULL);
          h \<leftarrow> set_rchild root (ist_rtree s) h;
          Some (root, s', h) }
        else Some (ist_ltree s, s, h)) = Some (root, s', h')"
    "tr h' root U" "inorder U = inorder A @ inorder B" "links_only (set_tree A) h h'"
proof -
  consider "ist_ltree s = 0" | "ist_ltree s \<noteq> 0" "ist_rtree s = 0" | "ist_ltree s \<noteq> 0" "ist_rtree s \<noteq> 0"
    by blast
  then show ?thesis
  proof cases
    case 1
    then show ?thesis using A B tr_root [OF A] by (intro that [of "ist_rtree s" s h B]) auto
  next
    case 2
    then show ?thesis using A B tr_root [OF B] by (intro that [of "ist_ltree s" s h A]) auto
  next
    case 3
    have soA: "bysorted h (inorder A)" using so by (simp add: sorted_wrt_append)
    from A 3(1) soA obtain q s1 h1 s2 h2 A' e where
      m: "ipc_splay_prim_lookup MACH_PORT_LARGEST (ist_ltree s) s h = Some (q, s1, h1)"
      "ipc_splay_prim_assemble q s1 h1 = Some (s2, h2)" "tr h2 q (Node A' q Leaf)"
      "inorder A' @ [q] = inorder A" "h2 q = Some e" "ite_rchild e = 0" "links_only (set_tree A) h h2"
      by (rule splay_max_ok)
    have dAB: "set_tree A \<inter> set_tree B = {}" and dA: "distinct (inorder A)"
      using bysorted_distinct [OF so] by auto
    have q: "q \<in> set_tree A" "q \<notin> set_tree A'" "q \<notin> set_tree B" "q \<noteq> 0"
      using m(3) arg_cong [OF m(4), of set] arg_cong [OF m(4), of distinct] dA dAB by auto
    let ?h = "h2(q \<mapsto> e\<lparr>ite_rchild := ist_rtree s\<rparr>)"
    have "tr ?h q (Node A' q B)"
      using m(3,5) q tr_lo [OF m(7) dAB] B by simp
    moreover have "links_only (set_tree A) h2 ?h"
      using m(5) q by (intro links_only_upd) auto
    then have "links_only (set_tree A) h ?h" using m(7) links_only_trans by blast
    moreover have "inorder (Node A' q B) = inorder A @ inorder B"
      using m(4) [symmetric] by simp
    ultimately show ?thesis
      using 3 m q by (intro that [of q s2 ?h "Node A' q B"]) (auto simp: set_rchild_def)
  qed
qed

lemma bysorted_inj: "bysorted h xs \<Longrightarrow> a \<in> set xs \<Longrightarrow> b \<in> set xs \<Longrightarrow> nm h a = nm h b \<Longrightarrow> a = b"
proof (induction xs)
  case (Cons x xs)
  then show ?case by (metis less_irrefl set_ConsD sorted_wrt.simps(2))
qed simp

lemma splay_tree_delete_ok:
  assumes rep: "splay_rep h s xs" and p: "p \<in> set xs" "nm h p = n"
  obtains s' h' where "ipc_splay_tree_delete n p s h = Some (s', h')"
    "splay_rep h' s' (remove1 p xs)" "links_only (set xs - {p}) (h(p := None)) h'"
proof -
  have root: "ist_root s \<noteq> 0" using rep p by (auto simp: splay_rep_def)
  from rep root obtain q s1 h1 t L R where r: "resplay n s h = Some (q, s1, h1)"
    "zipped h1 q s1 t L R" "ents L t R = xs" "links_only (set xs) h h1"
    "stops_at h1 n t" "parted h1 n L R" "bysorted h1 xs"
    by (rule resplay_ok)
  note lo = links_only_congs [OF r(4)]
  note z = r(2) [unfolded zipped_def]
  from r(2) obtain l rr where t: "t = Node l q rr" by (cases t) (auto simp: zipped_def)
  from r(2) [unfolded t] obtain f where f: "q \<noteq> 0" "h1 q = Some f" "ite_name f = nm h1 q"
    "tr h1 (ite_lchild f) l" "tr h1 (ite_rchild f) rr"
    by (rule zipped_root)
  have "nm h1 q = n"
    using stops_found [of h1 L t R n q s1] r p lo by auto
  then have q: "q = p"
    using bysorted_inj [OF r(7), of q p] p r(3) t lo by auto
  obtain s2 h2 s3 h3 where w: "ltreep_write (ite_lchild f) s1 h1 = Some (s2, h2)"
    "rtreep_write (ite_rchild f) s2 h2 = Some (s3, h3)"
    "tr h3 (ist_ltree s3) (lplug L l)" "tr h3 (ist_rtree s3) (rplug R rr)"
    "links_only (set (linord L)) h1 h2" "links_only (set (rinord R)) h2 h3"
    "links_only (set (linord L) \<union> set (rinord R)) h1 h3"
    by (rule two_plugs [of h1 s1 L R "ite_lchild f" l "ite_rchild f" rr]) (use z f t in auto)
  have pn: "p \<notin> set (linord L)" "p \<notin> set (rinord R)" using z t q by auto
  have hp: "h2 p = Some f" "h3 p = Some f"
    using links_only_out [OF w(5) pn(1)] links_only_out [OF w(6) pn(2)] f q by auto
  let ?A = "lplug L l" and ?B = "rplug R rr" and ?g = "h3(p := None)"
  have xs: "xs = inorder ?A @ p # inorder ?B"
    using r(3) t q by (simp add: inorder_lplug inorder_rplug)
  have dx: "distinct xs" using bysorted_distinct [OF r(7)] .
  have nA: "p \<notin> set_tree ?A" "p \<notin> set_tree ?B" using z t q by auto
  have lo3: "links_only (set xs) h h3"
    by (rule links_only_trans [OF r(4)], rule links_only_mono [OF w(7)]) (use r(3) in auto)
  have rem: "remove1 p xs = inorder ?A @ inorder ?B"
    using nA by (simp add: xs remove1_append)
  have so: "bysorted ?g (inorder ?A @ inorder ?B)"
  proof -
    have "bysorted h3 xs" using r(7) by (simp add: bysorted_links_only [OF lo3] lo)
    then have "bysorted h3 (inorder ?A @ inorder ?B)"
      by (auto simp: xs sorted_wrt_append)
    moreover have "bysorted ?g (inorder ?A @ inorder ?B) = bysorted h3 (inorder ?A @ inorder ?B)"
      by (rule bysorted_frame) (use nA in auto)
    ultimately show ?thesis by simp
  qed
  have AB: "tr ?g (ist_ltree s3) ?A" "tr ?g (ist_rtree s3) ?B" using w(3,4) nA by simp_all
  obtain root' s4 h4 U where d:
    "(if ist_ltree s3 = ITE_NULL then Some (ist_rtree s3, s3, ?g)
        else if ist_rtree s3 \<noteq> ITE_NULL then do {
          (root, s', h) \<leftarrow> ipc_splay_prim_lookup MACH_PORT_LARGEST (ist_ltree s3) s3 ?g;
          (s', h) \<leftarrow> ipc_splay_prim_assemble root s' h;
          e \<leftarrow> ite_get h root;
          oassert (ite_rchild e = ITE_NULL);
          h \<leftarrow> set_rchild root (ist_rtree s3) h;
          Some (root, s', h) }
        else Some (ist_ltree s3, s3, ?g)) = Some (root', s4, h4)"
    "tr h4 root' U" "inorder U = inorder ?A @ inorder ?B" "links_only (set_tree ?A) ?g h4"
    using AB so by (rule delete_tail)
  have "bysorted h4 (inorder U)" using so d(3) by (simp add: bysorted_links_only [OF d(4)])
  with d(2) obtain s5 where s5: "install_root root' s4 h4 = Some s5" "splay_rep h4 s5 (inorder U)"
    by (rule install_root_ok)
  have "ipc_splay_tree_delete n p s h = Some (s5, h4)"
    using root r(1) f hp q \<open>nm h1 q = n\<close> w(1,2) d(1) s5(1)
    by (simp add: ipc_splay_tree_delete_def ite_free_def)
  moreover have "links_only (set xs - {p}) (h(p := None)) h4"
  proof (rule links_only_trans)
    show "links_only (set xs - {p}) (h(p := None)) ?g"
      using lo3 by (auto simp: links_only_def)
    show "links_only (set xs - {p}) ?g h4"
      by (rule links_only_mono [OF d(4)]) (use nA in \<open>auto simp: xs inorder_lplug\<close>)
  qed
  ultimately show ?thesis using s5 d(3) rem that by simp
qed

end
