(* ===== verification/Splay_Split.thy ===== *)
theory Splay_Split
  imports Splay_Ops
begin

text \<open>Splitting, joining and bounding names in the splay tree.\<close>

section \<open>Split\<close>

lemma splay_rep_Nil: "ist_root s = 0 \<Longrightarrow> splay_rep h s xs \<longleftrightarrow> xs = []"
  by (auto simp: splay_rep_def)

lemma splay_repI:
  assumes "zipped h (ist_root s) s t L R" "ents L t R = xs" "parted h (ist_name s) L R"
    "stops_at h (ist_name s) t" "bysorted h xs"
  shows "splay_rep h s xs"
  using assms zipped_nonnull [OF assms(1)] unfolding splay_rep_def by auto

text \<open>The root goes to the tree of the smaller names.\<close>

lemma split_small_case:
  assumes z: "zipped h q s (Node l q r) L R" and st: "stops_at h n (Node l q r)"
    and pt: "parted h n L R" and so: "bysorted h (ents L (Node l q r) R)" and lt: "nm h q < n"
    and f: "h q = Some f"
  obtains s' small' h' where
    "do { (s, h) \<leftarrow> ltreep_write (ite_lchild f) s h;
          (s, h) \<leftarrow> rtreep_write ITE_NULL s h;
          h \<leftarrow> set_lchild q (ist_ltree s) h;
          e \<leftarrow> ite_get h q;
          oassert (ite_rchild e = ITE_NULL);
          small \<leftarrow> install_root q small h;
          s \<leftarrow> install_root (ist_rtree s) s h;
          Some (s, small, h) } = Some (s', small', h')"
    "splay_rep h' s' (rinord R)" "splay_rep h' small' (linord L @ inorder l @ [q])"
    "links_only (set (ents L (Node l q r) R)) h h'"
proof -
  note zz = z [unfolded zipped_def]
  have r: "r = Leaf" using split_shape(2) [OF z st pt so lt] .
  from zz f have fq: "q \<noteq> 0" "tr h (ite_lchild f) l" "ite_rchild f = 0" by (auto simp: r)
  obtain s2 h2 s3 h3 where w: "ltreep_write (ite_lchild f) s h = Some (s2, h2)"
    "rtreep_write 0 s2 h2 = Some (s3, h3)"
    "tr h3 (ist_ltree s3) (lplug L l)" "tr h3 (ist_rtree s3) (rplug R Leaf)"
    "links_only (set (linord L) \<union> set (rinord R)) h h3"
    by (rule two_plugs [of h s L R "ite_lchild f" l 0 Leaf]) (use zz fq in auto)
  have qn: "q \<notin> set (linord L)" "q \<notin> set_tree l" "q \<notin> set (rinord R)" using zz by auto
  have h3q: "h3 q = Some f" using links_only_out [OF w(5)] qn f by auto
  let ?h = "h3(q \<mapsto> f\<lparr>ite_lchild := ist_ltree s3\<rparr>)"
  have T: "tr ?h q (Node (lplug L l) q Leaf)" "tr ?h (ist_rtree s3) (rplug R Leaf)"
    using w(3,4) fq qn by auto
  have "links_only (set (ents L (Node l q r) R)) h h3" by (rule links_only_mono [OF w(5)]) auto
  moreover have "links_only (set (ents L (Node l q r) R)) h3 ?h"
    using h3q by (intro links_only_upd) auto
  ultimately have lo: "links_only (set (ents L (Node l q r) R)) h ?h" by (rule links_only_trans)
  have so': "bysorted ?h (linord L @ inorder l @ q # inorder r @ rinord R)"
    using so by (simp add: bysorted_links_only [OF lo])
  have b1: "bysorted ?h (inorder (Node (lplug L l) q Leaf))"
    using so' by (auto simp: inorder_lplug r sorted_wrt_append)
  have b2: "bysorted ?h (inorder (rplug R Leaf))"
    using so' by (auto simp: inorder_rplug r sorted_wrt_append)
  obtain small' where sm: "install_root q small ?h = Some small'"
    "splay_rep ?h small' (inorder (Node (lplug L l) q Leaf))"
    using T(1) b1 by (rule install_root_ok)
  obtain s' where s': "install_root (ist_rtree s3) s3 ?h = Some s'"
    "splay_rep ?h s' (inorder (rplug R Leaf))"
    using T(2) b2 by (rule install_root_ok)
  show ?thesis
    using w(1,2) fq h3q sm s' lo
    by (intro that [of s' small' ?h]) (auto simp: set_lchild_def inorder_lplug inorder_rplug)
qed

text \<open>The root stays.\<close>

lemma split_large_case:
  assumes z: "zipped h q s (Node l q r) L R" and st: "stops_at h n (Node l q r)"
    and pt: "parted h n L R" and so: "bysorted h (ents L (Node l q r) R)" and le: "n \<le> nm h q"
    and f: "h q = Some f"
  obtains s' small' h' where
    "do { (s, h) \<leftarrow> ltreep_write (ite_lchild f) s h;
          h \<leftarrow> set_lchild q ITE_NULL h;
          let s = s\<lparr>ist_root := q, ist_name := n, ist_ltreep := Self\<rparr>;
          small \<leftarrow> install_root (ist_ltree s) small h;
          Some (s, small, h) } = Some (s', small', h')"
    "splay_rep h' s' (q # inorder r @ rinord R)" "splay_rep h' small' (linord L @ inorder l)"
    "links_only (set (ents L (Node l q r) R)) h h'"
proof -
  note zz = z [unfolded zipped_def]
  from zz f have fq: "q \<noteq> 0" "tr h (ite_lchild f) l" "tr h (ite_rchild f) r" by auto
  obtain s2 h2 where w: "ltreep_write (ite_lchild f) s h = Some (s2, h2)"
    "tr h2 (ist_ltree s2) (lplug L l)" "links_only (hole_adr L) h h2"
    "ist_rtree s2 = ist_rtree s" "ist_rtreep s2 = ist_rtreep s"
    by (rule ltreep_write_ok [of h s L "ite_lchild f" l]) (use zz fq in auto)
  have lo2: "links_only (set (linord L)) h h2"
    by (rule links_only_mono [OF w(3)]) (rule hole_adr_sub)
  have qn: "q \<notin> set (linord L)" "q \<notin> set_tree l" "q \<notin> set (rinord R)" "q \<notin> set_tree r"
    "set (linord L) \<inter> set_tree r = {}" "set (linord L) \<inter> set (rinord R) = {}" using zz by auto
  have h2q: "h2 q = Some f" using links_only_out [OF lo2 qn(1)] f by simp
  let ?h = "h2(q \<mapsto> f\<lparr>ite_lchild := 0\<rparr>)"
  let ?s = "s2\<lparr>ist_root := q, ist_name := n, ist_ltreep := Self\<rparr>"
  have "links_only (set (ents L (Node l q r) R)) h h2" by (rule links_only_mono [OF lo2]) auto
  moreover have "links_only (set (ents L (Node l q r) R)) h2 ?h"
    using h2q by (intro links_only_upd) auto
  ultimately have lo: "links_only (set (ents L (Node l q r) R)) h ?h" by (rule links_only_trans)
  have so': "bysorted ?h (linord L @ inorder l @ q # inorder r @ rinord R)"
    using so by (simp add: bysorted_links_only [OF lo])
  have "tr ?h (ite_rchild f) r" "rspine ?h (ist_rtree s2) R"
    using tr_lo [OF lo2 qn(5)] rspine_lo [OF lo2 qn(6)] fq zz qn w(4) by auto
  then have "zipped ?h q ?s (Node Leaf q r) [] R"
    using zz fq w(5) by (auto simp: zipped_def)
  moreover have "parted ?h n [] R"
    using pt by (simp add: parted_def nm_links_only [OF lo])
  moreover have "stops_at ?h n (Node Leaf q r)"
    using le by (auto simp: nm_links_only [OF lo])
  moreover have "bysorted ?h (q # inorder r @ rinord R)"
    using so' by (simp add: sorted_wrt_append)
  ultimately have rep: "splay_rep ?h ?s (q # inorder r @ rinord R)"
    by (intro splay_repI [of _ _ "Node Leaf q r" "[]" R]) auto
  have T: "tr ?h (ist_ltree s2) (lplug L l)" using w(2) qn by simp
  have "bysorted ?h (inorder (lplug L l))"
    using so' by (auto simp: inorder_lplug sorted_wrt_append)
  with T obtain small' where sm: "install_root (ist_ltree s2) small ?h = Some small'"
    "splay_rep ?h small' (inorder (lplug L l))"
    by (rule install_root_ok)
  show ?thesis
    using w(1) fq h2q sm rep lo
    by (intro that [of ?s small' ?h]) (auto simp: set_lchild_def inorder_lplug)
qed

lemma splay_tree_split_ok:
  assumes rep: "splay_rep h s xs"
  obtains s' small' h' where "ipc_splay_tree_split n s small h = Some (s', small', h')"
    "splay_rep h' s' (filter (\<lambda>a. n \<le> nm h a) xs)"
    "splay_rep h' small' (filter (\<lambda>a. nm h a < n) xs)" "links_only (set xs) h h'"
proof (cases "ist_root s = 0")
  case True
  with rep show ?thesis
    by (intro that [of s "ipc_splay_tree_init small" h])
      (auto simp: ipc_splay_tree_split_def ipc_splay_tree_init_def splay_rep_Nil)
next
  case False
  from rep False obtain q s1 h1 t L R where r: "resplay n s h = Some (q, s1, h1)"
    "zipped h1 q s1 t L R" "ents L t R = xs" "links_only (set xs) h h1"
    "stops_at h1 n t" "parted h1 n L R" "bysorted h1 xs"
    by (rule resplay_ok)
  from r(2) obtain l rr where t: "t = Node l q rr" by (cases t) (auto simp: zipped_def)
  from r(2) [unfolded t] obtain f where f: "q \<noteq> 0" "h1 q = Some f" "ite_name f = nm h1 q"
    by (rule zipped_root)
  note args = r(2) [unfolded t] r(5) [unfolded t] r(6) r(7) [folded r(3), unfolded t]
  note sh = split_shape [OF args]
  note nm1 = nm_links_only [OF r(4)]
  have xs: "xs = linord L @ inorder l @ q # inorder rr @ rinord R" using r(3) t by simp
  show ?thesis
  proof (cases "nm h1 q < n")
    case True
    obtain s' small' h' where w:
      "do { (s, h) \<leftarrow> ltreep_write (ite_lchild f) s1 h1;
          (s, h) \<leftarrow> rtreep_write ITE_NULL s h;
          h \<leftarrow> set_lchild q (ist_ltree s) h;
          e \<leftarrow> ite_get h q;
          oassert (ite_rchild e = ITE_NULL);
          small \<leftarrow> install_root q (ipc_splay_tree_init small) h;
          s \<leftarrow> install_root (ist_rtree s) s h;
          Some (s, small, h) } = Some (s', small', h')"
      "splay_rep h' s' (rinord R)" "splay_rep h' small' (linord L @ inorder l @ [q])"
      "links_only (set (ents L (Node l q rr) R)) h1 h'"
      using split_small_case [OF args True f(2)] .
    have lo: "links_only (set xs) h1 h'" using w(4) by (simp only: t [symmetric] r(3))
    have "filter (\<lambda>a. nm h1 a < n) ((linord L @ inorder l @ [q]) @ rinord R) = linord L @ inorder l @ [q]"
      "filter (\<lambda>a. n \<le> nm h1 a) ((linord L @ inorder l @ [q]) @ rinord R) = rinord R"
      by (rule split_sorted; use r(6,7) sh(2,3) True xs in \<open>auto simp: parted_def\<close>)+
    then have fl: "filter (\<lambda>a. nm h a < n) xs = linord L @ inorder l @ [q]"
      "filter (\<lambda>a. n \<le> nm h a) xs = rinord R"
      using sh(2) True by (simp_all add: xs nm1)
    have "ipc_splay_tree_split n s small h = Some (s', small', h')"
      using False r(1) f True w(1) by (simp add: ipc_splay_tree_split_def)
    with w fl links_only_trans [OF r(4) lo] show ?thesis by (intro that) auto
  next
    case nlt: False
    then have le: "n \<le> nm h1 q" by simp
    obtain s' small' h' where w:
      "do { (s, h) \<leftarrow> ltreep_write (ite_lchild f) s1 h1;
          h \<leftarrow> set_lchild q ITE_NULL h;
          let s = s\<lparr>ist_root := q, ist_name := n, ist_ltreep := Self\<rparr>;
          small \<leftarrow> install_root (ist_ltree s) (ipc_splay_tree_init small) h;
          Some (s, small, h) } = Some (s', small', h')"
      "splay_rep h' s' (q # inorder rr @ rinord R)" "splay_rep h' small' (linord L @ inorder l)"
      "links_only (set (ents L (Node l q rr) R)) h1 h'"
      using split_large_case [OF args le f(2)] .
    have lo: "links_only (set xs) h1 h'" using w(4) by (simp only: t [symmetric] r(3))
    have "filter (\<lambda>a. nm h1 a < n) ((linord L @ inorder l) @ q # inorder rr @ rinord R) = linord L @ inorder l"
      "filter (\<lambda>a. n \<le> nm h1 a) ((linord L @ inorder l) @ q # inorder rr @ rinord R) = q # inorder rr @ rinord R"
      by (rule split_sorted; use r(7) sh(4,5) le xs in auto)+
    then have fl: "filter (\<lambda>a. nm h a < n) xs = linord L @ inorder l"
      "filter (\<lambda>a. n \<le> nm h a) xs = q # inorder rr @ rinord R"
      by (simp_all add: xs nm1)
    have "ipc_splay_tree_split n s small h = Some (s', small', h')"
      using False r(1) f nlt w(1) by (simp add: ipc_splay_tree_split_def)
    with w fl links_only_trans [OF r(4) lo] show ?thesis by (intro that) auto
  qed
qed

section \<open>Join\<close>

text \<open>Splaying for the smallest possible name brings the first entry to the root.\<close>

lemma splay_min_ok:
  assumes "splay_rep h s xs" "ist_root s \<noteq> 0"
  obtains q s1 h1 s2 h2 B e where "resplay MACH_PORT_SMALLEST s h = Some (q, s1, h1)"
    "ipc_splay_prim_assemble q s1 h1 = Some (s2, h2)" "tr h2 q (Node Leaf q B)"
    "q # inorder B = xs" "h2 q = Some e" "ite_lchild e = 0" "links_only (set xs) h h2"
proof -
  from assms obtain q s1 h1 t L R where r: "resplay MACH_PORT_SMALLEST s h = Some (q, s1, h1)"
    "zipped h1 q s1 t L R" "ents L t R = xs" "links_only (set xs) h h1"
    "stops_at h1 MACH_PORT_SMALLEST t" "parted h1 MACH_PORT_SMALLEST L R" "bysorted h1 xs"
    by (rule resplay_ok)
  from r(2) obtain s2 h2 T where b: "ipc_splay_prim_assemble q s1 h1 = Some (s2, h2)"
    "tr h2 q T" "inorder T = ents L t R" "links_only (set (ents L t R)) h1 h2"
    "\<forall>l r. t = Node l q r \<longrightarrow> T = Node (lplug L l) q (rplug R r)"
    by (rule assemble_ok)
  from r(2) obtain l rr where t: "t = Node l q rr" by (cases t) (auto simp: zipped_def)
  have L: "L = []" using r(6) by (cases L rule: linord.cases) (auto simp: parted_def)
  have "\<forall>a \<in> set_tree l. nm h1 a < nm h1 q" using r(7) by (auto simp: r(3) [symmetric] t sorted_wrt_append)
  then have l: "l = Leaf" using r(5) t by (cases l) auto
  have T: "T = Node Leaf q (rplug R rr)" using b(5) t L l by simp
  have "links_only (set xs) h h2" using r(4) b(4) unfolding r(3) by (rule links_only_trans)
  moreover obtain e where "h2 q = Some e" "ite_lchild e = 0" using b(2) T by auto
  ultimately show ?thesis
    using r b T by (intro that [of q s1 h1 s2 h2 "rplug R rr" e]) auto
qed

lemma splay_tree_join_ok:
  assumes rep: "splay_rep h s xs" and srep: "splay_rep h small ys"
    and lt: "\<And>x y. x \<in> set xs \<Longrightarrow> y \<in> set ys \<Longrightarrow> nm h y < nm h x"
  obtains s' small' h' where "ipc_splay_tree_join s small h = Some (s', small', h')"
    "splay_rep h' s' (ys @ xs)" "splay_rep h' small' []" "links_only (set xs \<union> set ys) h h'"
proof (cases "ist_root small = 0")
  case True
  then have "ys = []" using srep by (simp add: splay_rep_Nil)
  with True rep srep show ?thesis
    by (intro that [of s small h]) (auto simp: ipc_splay_tree_join_def)
next
  case False
  let ?r = "ist_root small"
  from srep False obtain t L R where sz: "zipped h ?r small t L R" "ys = ents L t R" "bysorted h ys"
    by (auto simp: splay_rep_def)
  from sz(1) obtain sm1 h1 Y where a: "ipc_splay_prim_assemble ?r small h = Some (sm1, h1)"
    "tr h1 ?r Y" "inorder Y = ents L t R" "links_only (set (ents L t R)) h h1"
    by (rule assemble_ok)
  have lo1: "links_only (set ys) h h1" using a(4) sz(2) by simp
  have Y: "inorder Y = ys" "set_tree Y = set ys" using a(3) sz(2) by (simp, metis set_inorder)
  have dj: "set xs \<inter> set ys = {}" using lt less_irrefl by (metis disjoint_iff)
  have rep1: "splay_rep h1 s xs"
    using rep splay_rep_frame [of xs h1 h s] links_only_out [OF lo1] dj by blast
  have bxs: "bysorted h xs" using rep by (simp add: splay_rep_def)
  have small': "splay_rep g (sm1\<lparr>ist_root := 0\<rparr>) []" for g by (simp add: splay_rep_Nil)
  obtain root s2 h2 U where m:
    "(if ist_root s = ITE_NULL then Some (?r, s, h1)
          else do {
            (root, s, h) \<leftarrow> resplay MACH_PORT_SMALLEST s h1;
            (s, h) \<leftarrow> ipc_splay_prim_assemble root s h;
            e \<leftarrow> ite_get h root;
            oassert (ite_lchild e = ITE_NULL);
            se \<leftarrow> ite_get h ?r;
            oassert (ite_name se < ite_name e);
            h \<leftarrow> set_lchild root ?r h;
            Some (root, s, h) }) = Some (root, s2, h2)"
    "tr h2 root U" "inorder U = ys @ xs" "links_only (set xs) h1 h2"
  proof (cases "ist_root s = 0")
    case True
    then have "xs = []" using rep by (simp add: splay_rep_Nil)
    with True show ?thesis using a(2) Y by (intro that [of ?r s h1 Y]) auto
  next
    case nz: False
    from rep1 nz obtain q s1 h3 s3 h4 B e where
      b: "resplay MACH_PORT_SMALLEST s h1 = Some (q, s1, h3)"
      "ipc_splay_prim_assemble q s1 h3 = Some (s3, h4)" "tr h4 q (Node Leaf q B)"
      "q # inorder B = xs" "h4 q = Some e" "ite_lchild e = 0" "links_only (set xs) h1 h4"
      by (rule splay_min_ok)
    have dx: "distinct xs" using bysorted_distinct [OF bxs] .
    have q: "q \<in> set xs" "q \<noteq> 0" "q \<notin> set_tree B" "q \<notin> set_tree Y" "set xs \<inter> set_tree Y = {}"
      using b(3,4) dx dj Y by (auto simp: b(4) [symmetric])
    have trY: "tr h4 ?r Y" using tr_lo [OF b(7) q(5)] a(2) by simp
    from trY False obtain yl yr se where se': "Y = Node yl ?r yr" "h4 ?r = Some se"
      by (rule tr_NodeE)
    then have se: "h4 ?r = Some se" "?r \<in> set ys" using Y by auto
    have lo4: "links_only (set xs \<union> set ys) h h4"
      by (rule links_only_trans [OF links_only_mono [OF lo1] links_only_mono [OF b(7)]]) auto
    have "ite_name se < ite_name e"
      using lt [OF q(1) se(2)] nm_links_only [OF lo4, of ?r] nm_links_only [OF lo4, of q] se b(5)
      by (simp add: nm_def)
    let ?h = "h4(q \<mapsto> e\<lparr>ite_lchild := ?r\<rparr>)"
    have "tr ?h q (Node Y q B)" using b(3,5) q trY by auto
    moreover have "links_only (set xs) h4 ?h" using b(5) q by (intro links_only_upd) auto
    then have "links_only (set xs) h1 ?h" using b(7) links_only_trans by blast
    moreover have "inorder (Node Y q B) = ys @ xs" using Y b(4) by simp
    ultimately show ?thesis
      using nz b q se False \<open>ite_name se < ite_name e\<close>
      by (intro that [of q s3 ?h "Node Y q B"]) (auto simp: set_lchild_def)
  qed
  have lo2: "links_only (set xs \<union> set ys) h h2"
    by (rule links_only_trans [OF links_only_mono [OF lo1] links_only_mono [OF m(4)]]) auto
  have "bysorted h (ys @ xs)" using sz(3) bxs lt by (simp add: sorted_wrt_append)
  then have "bysorted h2 (inorder U)" using m(3) by (simp add: bysorted_links_only [OF lo2])
  with m(2) obtain s5 where s5: "install_root root s2 h2 = Some s5" "splay_rep h2 s5 (inorder U)"
    by (rule install_root_ok)
  have "ipc_splay_tree_join s small h = Some (s5, sm1\<lparr>ist_root := 0\<rparr>, h2)"
    using False a(1) m(1) s5(1) by (simp add: ipc_splay_tree_join_def)
  with s5 m(3) lo2 small' show ?thesis by (intro that) auto
qed

section \<open>Bounds\<close>

text \<open>What the comment of \<^verbatim>\<open>ipc_splay_tree_bounds\<close> promises: the largest name at most
  \<open>n\<close>, or \<^verbatim>\<open>~0\<close>; the smallest name at least \<open>n\<close>, or 0.\<close>

definition lower_bound :: "ite_heap \<Rightarrow> u32 \<Rightarrow> ptr list \<Rightarrow> u32" where
  "lower_bound h n xs = (let zs = filter (\<lambda>a. nm h a \<le> n) xs in
     if zs = [] then MACH_PORT_LARGEST else nm h (last zs))"

definition upper_bound :: "ite_heap \<Rightarrow> u32 \<Rightarrow> ptr list \<Rightarrow> u32" where
  "upper_bound h n xs = (let zs = filter (\<lambda>a. n \<le> nm h a) xs in
     if zs = [] then MACH_PORT_SMALLEST else nm h (hd zs))"

lemma lower_bound_eq:
  assumes "\<forall>a \<in> set ys. nm h a \<le> n" "\<forall>a \<in> set zs. n < nm h a"
  shows "lower_bound h n (ys @ zs) = (if ys = [] then MACH_PORT_LARGEST else nm h (last ys))"
proof -
  have "filter (\<lambda>a. nm h a \<le> n) ys = ys" "filter (\<lambda>a. nm h a \<le> n) zs = []"
    using assms by (auto simp: filter_id_conv filter_empty_conv not_le)
  then show ?thesis by (simp add: lower_bound_def)
qed

lemma upper_bound_eq:
  assumes "\<forall>a \<in> set ys. nm h a < n" "\<forall>a \<in> set zs. n \<le> nm h a"
  shows "upper_bound h n (ys @ zs) = (if zs = [] then MACH_PORT_SMALLEST else nm h (hd zs))"
proof -
  have "filter (\<lambda>a. n \<le> nm h a) zs = zs" "filter (\<lambda>a. n \<le> nm h a) ys = []"
    using assms by (auto simp: filter_id_conv filter_empty_conv not_le)
  then show ?thesis by (simp add: upper_bound_def)
qed

lemma bounds_links_only:
  assumes "links_only X h h'"
  shows "lower_bound h' n xs = lower_bound h n xs" "upper_bound h' n xs = upper_bound h n xs"
  by (simp_all add: lower_bound_def upper_bound_def Let_def nm_links_only [OF assms])

lemma split_shape_strict:
  assumes z: "zipped h p s (Node l p r) L R" and st: "stops_at h n (Node l p r)"
    and pt: "parted h n L R" and so: "bysorted h (ents L (Node l p r) R)"
  shows "nm h p \<le> n \<Longrightarrow> \<forall>a \<in> set (linord L @ inorder l @ [p]). nm h a \<le> n"
    "nm h p \<le> n \<Longrightarrow> \<forall>a \<in> set (inorder r @ rinord R). n < nm h a"
    "n < nm h p \<Longrightarrow> \<forall>a \<in> set (p # inorder r @ rinord R). n < nm h a"
proof -
  have so': "\<forall>a \<in> set_tree l. nm h a < nm h p" "\<forall>a \<in> set_tree r. nm h p < nm h a"
    using so by (auto simp: sorted_wrt_append)
  show "nm h p \<le> n \<Longrightarrow> \<forall>a \<in> set (linord L @ inorder l @ [p]). nm h a \<le> n"
    using pt so' by (auto simp: parted_def dest!: bspec intro: less_imp_le less_le_trans)
  show "n < nm h p \<Longrightarrow> \<forall>a \<in> set (p # inorder r @ rinord R). n < nm h a"
    using pt so' by (auto simp: parted_def dest!: bspec intro: less_trans)
  show "nm h p \<le> n \<Longrightarrow> \<forall>a \<in> set (inorder r @ rinord R). n < nm h a"
    using pt so' split_shape(2) [OF assms] by (cases "nm h p = n") (auto simp: parted_def)
qed

text \<open>The hole pointers lead to the neighbours of the middle tree.\<close>

lemma lower_via_hole:
  assumes "lspine h q L" "ist_ltreep s = hole L"
  shows "(case ist_ltreep s of Self \<Rightarrow> Some MACH_PORT_LARGEST
     | Child p \<Rightarrow> map_option ite_name (ite_get h p)) =
     Some (if linord L = [] then MACH_PORT_LARGEST else nm h (last (linord L)))"
  using assms by (cases L rule: linord.cases) (auto simp: nm_def)

lemma upper_via_hole:
  assumes "rspine h q R" "ist_rtreep s = hole R"
  shows "(case ist_rtreep s of Self \<Rightarrow> Some MACH_PORT_SMALLEST
     | Child p \<Rightarrow> map_option ite_name (ite_get h p)) =
     Some (if rinord R = [] then MACH_PORT_SMALLEST else nm h (hd (rinord R)))"
  using assms by (cases R rule: rinord.cases) (auto simp: nm_def)

lemma splay_tree_bounds_ok:
  assumes rep: "splay_rep h s xs"
  obtains s' h' where
    "ipc_splay_tree_bounds n s h = Some (lower_bound h n xs, upper_bound h n xs, s', h')"
    "splay_rep h' s' xs" "links_only (set xs) h h'"
proof (cases "ist_root s = 0")
  case True
  with rep show ?thesis
    by (intro that [of s h])
      (auto simp: ipc_splay_tree_bounds_def splay_rep_Nil lower_bound_def upper_bound_def)
next
  case False
  from rep False obtain q s1 h1 t L R where r: "resplay n s h = Some (q, s1, h1)"
    "zipped h1 q s1 t L R" "ents L t R = xs" "links_only (set xs) h h1"
    "stops_at h1 n t" "parted h1 n L R" "bysorted h1 xs"
    by (rule resplay_ok)
  note z = r(2) [unfolded zipped_def]
  from r(2) obtain l rr where t: "t = Node l q rr" by (cases t) (auto simp: zipped_def)
  from r(2) [unfolded t] obtain f where f: "q \<noteq> 0" "h1 q = Some f" "ite_name f = nm h1 q"
    by (rule zipped_root)
  note args = r(2) [unfolded t] r(5) [unfolded t] r(6) r(7) [folded r(3), unfolded t]
  note sh = split_shape [OF args] split_shape_strict [OF args]
  let ?s = "s1\<lparr>ist_name := n, ist_root := q\<rparr>"
  have xs: "linord L @ inorder l @ q # inorder rr @ rinord R = xs" using r(3) t by simp
  have rep': "splay_rep h1 ?s xs"
    by (rule splay_repI [of _ _ t L R]) (use r zipped_stop [OF r(2), where n = n and q = q] in auto)
  have low: "(if nm h1 q \<le> n then Some (nm h1 q)
        else (case ist_ltreep s1 of Self \<Rightarrow> Some MACH_PORT_LARGEST
             | Child p \<Rightarrow> map_option ite_name (ite_get h1 p))) = Some (lower_bound h1 n xs)"
  proof (cases "nm h1 q \<le> n")
    case True
    then show ?thesis
      using lower_bound_eq [OF sh(6) [OF True] sh(7) [OF True]] xs by simp
  next
    case gt: False
    then have "n < nm h1 q" by simp
    moreover have "\<forall>a \<in> set (linord L). nm h1 a \<le> n" using r(6) by (auto simp: parted_def)
    ultimately have "lower_bound h1 n xs = (if linord L = [] then MACH_PORT_LARGEST else nm h1 (last (linord L)))"
      using lower_bound_eq [OF _ sh(8), of "linord L"] sh(1) xs by auto
    then show ?thesis using gt lower_via_hole [of h1 "ist_ltree s1" L s1] z by simp
  qed
  have up: "(if n \<le> nm h1 q then Some (nm h1 q)
        else (case ist_rtreep s1 of Self \<Rightarrow> Some MACH_PORT_SMALLEST
             | Child p \<Rightarrow> map_option ite_name (ite_get h1 p))) = Some (upper_bound h1 n xs)"
  proof (cases "n \<le> nm h1 q")
    case True
    then show ?thesis
      using upper_bound_eq [OF sh(4) [OF True] sh(5) [OF True]] xs by simp
  next
    case lt: False
    then have "nm h1 q < n" by simp
    moreover have "\<forall>a \<in> set (rinord R). n \<le> nm h1 a" using r(6) by (auto simp: parted_def)
    ultimately have "upper_bound h1 n xs = (if rinord R = [] then MACH_PORT_SMALLEST else nm h1 (hd (rinord R)))"
      using upper_bound_eq [OF sh(3), of "rinord R"] sh(2) xs by auto
    then show ?thesis using lt upper_via_hole [of h1 "ist_rtree s1" R s1] z by simp
  qed
  have "ipc_splay_tree_bounds n s h = Some (lower_bound h1 n xs, upper_bound h1 n xs, ?s, h1)"
    using False r(1) f low up
    by (auto simp: ipc_splay_tree_bounds_def Let_def split: if_splits treep.splits)
  then show ?thesis
    using rep' r(4) unfolding bounds_links_only [OF r(4)] by (rule that)
qed

lemma splay_tree_pick_ok:
  assumes "splay_rep h s xs"
  shows "xs = [] \<Longrightarrow> ipc_splay_tree_pick s h = Some None"
    "xs \<noteq> [] \<Longrightarrow> \<exists>p \<in> set xs. ipc_splay_tree_pick s h = Some (Some (nm h p, p))"
proof -
  have nz: "ist_root s = 0 \<longleftrightarrow> xs = []"
    using assms by (auto simp: splay_rep_def zipped_def ents_def split: if_splits)
  show "xs = [] \<Longrightarrow> ipc_splay_tree_pick s h = Some None"
    using nz by (simp add: ipc_splay_tree_pick_def)
  assume "xs \<noteq> []"
  with nz assms obtain t L R where z: "zipped h (ist_root s) s t L R" "xs = ents L t R" "ist_root s \<noteq> 0"
    by (auto simp: splay_rep_def)
  from z(1) obtain l r where t: "t = Node l (ist_root s) r" by (cases t) (auto simp: zipped_def)
  with z obtain e where "h (ist_root s) = Some e" by (auto simp: zipped_def)
  then show "\<exists>p \<in> set xs. ipc_splay_tree_pick s h = Some (Some (nm h p, p))"
    using z t by (intro bexI [of _ "ist_root s"]) (auto simp: ipc_splay_tree_pick_def nm_def)
qed

end
