(* ===== verification/Splay_Traverse.thy ===== *)
theory Splay_Traverse
  imports Splay_Split
begin

text \<open>
  The traversal by pointer inversion: it visits the entries in increasing order of name, with or
  without removing them, and restores the tree.
\<close>

section \<open>Inverted paths\<close>

text \<open>One frame per ancestor of the current subtree: \<open>Went_left a r\<close> for an ancestor \<open>a\<close> left
  through its left child (right subtree \<open>r\<close> intact), \<open>Went_right a l\<close> for the mirror image.\<close>

datatype frame = Went_left ptr "ptr tree" | Went_right ptr "ptr tree"

fun path_rep :: "ite_heap \<Rightarrow> ptr \<Rightarrow> frame list \<Rightarrow> bool" where
  "path_rep h p [] \<longleftrightarrow> p = ITE_NULL"
| "path_rep h p (Went_left a r # P) \<longleftrightarrow> p = a \<and> a \<noteq> ITE_NULL \<and>
     (\<exists>e. h a = Some e \<and> tr h (ite_rchild e) r \<and> path_rep h (ite_lchild e) P)"
| "path_rep h p (Went_right a l # P) \<longleftrightarrow> p = a \<and> a \<noteq> ITE_NULL \<and>
     (\<exists>e. h a = Some e \<and> tr h (ite_lchild e) l \<and> path_rep h (ite_rchild e) P)"

text \<open>The entries of the path before and after the current subtree.\<close>

fun before :: "frame list \<Rightarrow> ptr list" where
  "before [] = []"
| "before (Went_left a r # P) = before P"
| "before (Went_right a l # P) = before P @ inorder l @ [a]"

fun behind :: "frame list \<Rightarrow> ptr list" where
  "behind [] = []"
| "behind (Went_left a r # P) = a # inorder r @ behind P"
| "behind (Went_right a l # P) = behind P"

definition all_of :: "ptr tree \<Rightarrow> frame list \<Rightarrow> ptr list" where
  "all_of t P = before P @ inorder t @ behind P"

lemma all_of_simps [simp]:
  "all_of t (Went_left a r # P) = all_of (Node t a r) P"
  "all_of t (Went_right a l # P) = all_of (Node l a t) P"
  by (simp_all add: all_of_def)

lemma set_all_of: "set (all_of t P) = set (before P) \<union> set_tree t \<union> set (behind P)"
  by (simp add: all_of_def Un_assoc)

lemma path_frame:
  "(\<And>a. a \<in> set (before P) \<union> set (behind P) \<Longrightarrow> h' a = h a) \<Longrightarrow> path_rep h' p P = path_rep h p P"
proof (induction h p P rule: path_rep.induct)
  case (2 h p a r P)
  have "tr h' q r = tr h q r" for q by (rule tr_frame) (simp add: 2)
  with 2 show ?case by auto
next
  case (3 h p a l P)
  have "tr h' q l = tr h q l" for q by (rule tr_frame) (simp add: 3)
  with 3 show ?case by auto
qed simp

lemma path_upd [simp]:
  "a \<notin> set (before P) \<Longrightarrow> a \<notin> set (behind P) \<Longrightarrow> path_rep (h(a := v)) p P = path_rep h p P"
  by (rule path_frame) auto

lemma path_lo:
  "links_only X h h' \<Longrightarrow> X \<inter> (set (before P) \<union> set (behind P)) = {} \<Longrightarrow> path_rep h' p P = path_rep h p P"
  by (rule path_frame) (auto simp: links_only_def)

section \<open>States of a traversal\<close>

text \<open>At an entry: \<open>ds\<close> are the entries already passed, \<open>c\<close> the current one, \<open>ts\<close>
  those to come.\<close>

definition trav_rep :: "ite_heap \<Rightarrow> ipc_splay_tree \<Rightarrow> ptr list \<Rightarrow> ptr \<Rightarrow> ptr list \<Rightarrow> bool" where
  "trav_rep h s ds c ts \<longleftrightarrow> ist_ltree s = c \<and> bysorted h (ds @ c # ts) \<and>
     (\<exists>l r P. tr h c (Node l c r) \<and> path_rep h (ist_rtree s) P \<and>
        ds = before P @ inorder l \<and> ts = inorder r @ behind P)"

text \<open>What a step of the traversal returns when the entries \<open>ts\<close> are left.\<close>

definition trav_out :: "ite_heap \<Rightarrow> ipc_splay_tree \<Rightarrow> ptr \<Rightarrow> ptr list \<Rightarrow> ptr list \<Rightarrow> bool" where
  "trav_out h s p ds ts \<longleftrightarrow>
     (case ts of
        [] \<Rightarrow> p = ITE_NULL \<and> bysorted h ds \<and> (\<exists>t. tr h (ist_root s) t \<and> inorder t = ds)
      | c # ts' \<Rightarrow> p = c \<and> trav_rep h s ds c ts')"

lemma goto_entry:
  "traverse_goto Traverse_entry c p s h = Some (c, s\<lparr>ist_ltree := c, ist_rtree := p\<rparr>, h)"
  by (subst traverse_goto.simps) simp

lemma entry_out:
  assumes "tr h c (Node l c r)" "path_rep h p P" "bysorted h (all_of (Node l c r) P)"
  shows "trav_out h (s\<lparr>ist_ltree := c, ist_rtree := p\<rparr>) c (before P @ inorder l) (c # inorder r @ behind P)"
  using assms by (auto simp: trav_out_def trav_rep_def all_of_def)

lemma goto_left:
  assumes "tr h c t" "c \<noteq> 0" "path_rep h p P" "bysorted h (all_of t P)"
  obtains c' s' h' where "traverse_goto Traverse_left c p s h = Some (c', s', h')"
    "trav_out h' s' c' (before P) (inorder t @ behind P)" "links_only (set_tree t) h h'"
  using assms
proof (induction t arbitrary: h c p P thesis)
  case (Node l a r)
  from Node.prems obtain e where e: "c = a" "a \<noteq> 0" "h a = Some e" "tr h (ite_lchild e) l" "tr h (ite_rchild e) r"
    by auto
  have di: "distinct (all_of (Node l a r) P)" using Node.prems(5) by (rule bysorted_distinct)
  show ?case
  proof (cases "ite_lchild e = 0")
    case True
    then have l: "l = Leaf" using tr_root [OF e(4)] by simp
    have "traverse_goto Traverse_left c p s h = Some (c, s\<lparr>ist_ltree := c, ist_rtree := p\<rparr>, h)"
      using e True by (subst traverse_goto.simps) (simp add: goto_entry)
    moreover have "trav_out h (s\<lparr>ist_ltree := c, ist_rtree := p\<rparr>) c (before P @ inorder l) (c # inorder r @ behind P)"
      using Node.prems e by (intro entry_out) auto
    ultimately show ?thesis using l e
      by (intro Node.prems(1) [of c "s\<lparr>ist_ltree := c, ist_rtree := p\<rparr>" h]) auto
  next
    case False
    let ?h = "h(a \<mapsto> e\<lparr>ite_lchild := p\<rparr>)" and ?P = "Went_left a r # P"
    have na: "a \<notin> set_tree l" "a \<notin> set_tree r" "a \<notin> set (before P)" "a \<notin> set (behind P)"
      using di by (auto simp: all_of_def)
    have lo: "links_only {a} h ?h" using e by (intro links_only_upd) auto
    have "tr ?h (ite_lchild e) l" using e na by simp
    moreover have "path_rep ?h a ?P" using e na Node.prems(4) by simp
    moreover have "bysorted ?h (all_of l ?P)"
      using Node.prems(5) by (simp add: bysorted_links_only [OF lo])
    ultimately obtain c' s' h' where i: "traverse_goto Traverse_left (ite_lchild e) a s ?h = Some (c', s', h')"
      "trav_out h' s' c' (before ?P) (inorder l @ behind ?P)" "links_only (set_tree l) ?h h'"
      using Node.IH(1) False by blast
    have "traverse_goto Traverse_left c p s h = Some (c', s', h')"
      using e False i(1) by (subst traverse_goto.simps) (simp add: set_lchild_def)
    moreover have "links_only (set_tree (Node l a r)) h h'"
      by (rule links_only_trans [OF links_only_mono [OF lo] links_only_mono [OF i(3)]]) auto
    ultimately show ?thesis using i by (intro Node.prems(1) [of c' s' h']) auto
  qed
qed simp

lemma goto_back:
  assumes "tr h c t" "c \<noteq> 0" "path_rep h p P" "bysorted h (all_of t P)"
  obtains c' s' h' where "traverse_goto Traverse_back c p s h = Some (c', s', h')"
    "trav_out h' s' c' (before P @ inorder t) (behind P)"
    "links_only (set (before P) \<union> set (behind P)) h h'"
  using assms
proof (induction P arbitrary: h c p t thesis)
  case Nil
  then have "traverse_goto Traverse_back c p s h = Some (0, s\<lparr>ist_root := c\<rparr>, h)"
    by (subst traverse_goto.simps) simp
  then show ?case using Nil by (intro Nil.prems(1)) (auto simp: trav_out_def all_of_def)
next
  case (Cons f P)
  have di: "distinct (all_of t (f # P))" using Cons.prems(5) by (rule bysorted_distinct)
  from Cons.prems(2,3) obtain e l0 r0 where e: "h c = Some e" "t = Node l0 c r0"
    by (auto elim: tr_NodeE)
  have ne: "ite_name e = nm h c" using e by (simp add: nm_def)
  show ?case
  proof (cases f)
    case (Went_left a r)
    from Cons.prems(4) Went_left obtain g where g: "p = a" "a \<noteq> 0" "h a = Some g" "tr h (ite_rchild g) r"
      "path_rep h (ite_lchild g) P" by auto
    have na: "a \<notin> set_tree t" "a \<notin> set_tree r" "a \<notin> set (before P)" "a \<notin> set (behind P)"
      using di Went_left by (auto simp: all_of_def)
    have "nm h c < nm h a" using Cons.prems(5) Went_left e by (auto simp: all_of_def sorted_wrt_append)
    then have lt: "ite_name e < ite_name g" using ne g by (simp add: nm_def)
    let ?h = "h(a \<mapsto> g\<lparr>ite_lchild := c\<rparr>)"
    let ?s = "s\<lparr>ist_ltree := a, ist_rtree := ite_lchild g\<rparr>"
    have lo: "links_only {a} h ?h" using g by (intro links_only_upd) auto
    have "trav_out ?h ?s a (before P @ inorder t) (a # inorder r @ behind P)"
      by (rule entry_out)
        (use Cons.prems g na Went_left in \<open>auto simp: bysorted_links_only [OF lo]\<close>)
    moreover have "traverse_goto Traverse_back c p s h = Some (a, ?s, ?h)"
      using g e lt Cons.prems(3) by (subst traverse_goto.simps) (simp add: set_lchild_def goto_entry)
    moreover have "links_only (set (before (f # P)) \<union> set (behind (f # P))) h ?h"
      by (rule links_only_mono [OF lo]) (use Went_left in auto)
    ultimately show ?thesis using Went_left
      by (intro Cons.prems(1) [of a ?s ?h]) (simp_all del: fun_upd_apply)
  next
    case (Went_right a l)
    from Cons.prems(4) Went_right obtain g where g: "p = a" "a \<noteq> 0" "h a = Some g" "tr h (ite_lchild g) l"
      "path_rep h (ite_rchild g) P" by auto
    have na: "a \<notin> set_tree t" "a \<notin> set_tree l" "a \<notin> set (before P)" "a \<notin> set (behind P)"
      using di Went_right by (auto simp: all_of_def)
    have "nm h a < nm h c" using Cons.prems(5) Went_right e by (auto simp: all_of_def sorted_wrt_append)
    then have lt: "\<not> ite_name e < ite_name g" using ne g by (simp add: nm_def)
    let ?h = "h(a \<mapsto> g\<lparr>ite_rchild := c\<rparr>)" and ?t = "Node l a t"
    have lo: "links_only {a} h ?h" using g by (intro links_only_upd) auto
    have "tr ?h a ?t" using g na Cons.prems(2) by simp
    moreover have "path_rep ?h (ite_rchild g) P" using g na by simp
    moreover have "bysorted ?h (all_of ?t P)"
      using Cons.prems(5) Went_right by (simp add: bysorted_links_only [OF lo])
    ultimately obtain c' s' h' where i: "traverse_goto Traverse_back a (ite_rchild g) s ?h = Some (c', s', h')"
      "trav_out h' s' c' (before P @ inorder ?t) (behind P)"
      "links_only (set (before P) \<union> set (behind P)) ?h h'"
      using Cons.IH g(2) by blast
    have "traverse_goto Traverse_back c p s h = Some (c', s', h')"
      using g e lt Cons.prems(3) i(1) by (subst traverse_goto.simps) (simp add: set_rchild_def)
    moreover have "links_only (set (before (f # P)) \<union> set (behind (f # P))) h h'"
      by (rule links_only_trans [OF links_only_mono [OF lo] links_only_mono [OF i(3)]])
        (use Went_right in auto)
    ultimately show ?thesis using i Went_right by (intro Cons.prems(1) [of c' s' h']) auto
  qed
qed

lemma goto_right:
  assumes "tr h c (Node l c r)" "path_rep h p P" "bysorted h (all_of (Node l c r) P)"
  obtains c' s' h' where "traverse_goto Traverse_right c p s h = Some (c', s', h')"
    "trav_out h' s' c' (before P @ inorder l @ [c]) (inorder r @ behind P)"
    "links_only (set (all_of (Node l c r) P)) h h'"
proof -
  from assms obtain e where e: "c \<noteq> 0" "h c = Some e" "tr h (ite_lchild e) l" "tr h (ite_rchild e) r" by auto
  have di: "distinct (all_of (Node l c r) P)" using assms(3) by (rule bysorted_distinct)
  show ?thesis
  proof (cases "ite_rchild e = 0")
    case True
    then have r: "r = Leaf" using tr_root [OF e(4)] by simp
    from assms e obtain c' s' h' where i: "traverse_goto Traverse_back c p s h = Some (c', s', h')"
      "trav_out h' s' c' (before P @ inorder (Node l c r)) (behind P)"
      "links_only (set (before P) \<union> set (behind P)) h h'"
      using goto_back [of h c "Node l c r" p P s] by blast
    have "traverse_goto Traverse_right c p s h = Some (c', s', h')"
      using e True i(1) by (subst traverse_goto.simps) simp
    moreover have "links_only (set (all_of (Node l c r) P)) h h'"
      by (rule links_only_mono [OF i(3)]) (auto simp: set_all_of)
    ultimately show ?thesis using i r by (intro that [of c' s' h']) auto
  next
    case False
    let ?h = "h(c \<mapsto> e\<lparr>ite_rchild := p\<rparr>)" and ?P = "Went_right c l # P"
    have na: "c \<notin> set_tree l" "c \<notin> set_tree r" "c \<notin> set (before P)" "c \<notin> set (behind P)"
      using di by (auto simp: all_of_def)
    have lo: "links_only {c} h ?h" using e by (intro links_only_upd) auto
    have "tr ?h (ite_rchild e) r" "path_rep ?h c ?P" "bysorted ?h (all_of r ?P)"
      using e na assms by (auto simp: bysorted_links_only [OF lo])
    then obtain c' s' h' where i: "traverse_goto Traverse_left (ite_rchild e) c s ?h = Some (c', s', h')"
      "trav_out h' s' c' (before ?P) (inorder r @ behind ?P)" "links_only (set_tree r) ?h h'"
      using goto_left [of ?h "ite_rchild e" r c ?P s] False by blast
    have "traverse_goto Traverse_right c p s h = Some (c', s', h')"
      using e False i(1) by (subst traverse_goto.simps) (simp add: set_rchild_def)
    moreover have "links_only (set (all_of (Node l c r) P)) h h'"
      by (rule links_only_trans [OF links_only_mono [OF lo] links_only_mono [OF i(3)]])
        (auto simp: set_all_of)
    ultimately show ?thesis using i by (intro that [of c' s' h']) auto
  qed
qed

section \<open>Removing the current entry\<close>

text \<open>Once the entry is gone the subtree \<open>t\<close> remains at \<open>q\<close>, and the traversal continues
  through one of the labels.\<close>

lemma trav_out_links: "trav_out h s p ds ts \<Longrightarrow> bysorted h (ds @ ts)"
  by (auto simp: trav_out_def trav_rep_def split: list.splits)

lemma delete_leaf:
  assumes c: "tr h c (Node Leaf c Leaf)" and P: "path_rep h p P" and so: "bysorted h (all_of (Node Leaf c Leaf) P)"
  obtains c' s' h' where "traverse_delete c p s h = Some (c', s', h')"
    "trav_out h' s' c' (before P) (behind P)"
    "links_only (set (before P) \<union> set (behind P)) (h(c := None)) h'"
proof -
  let ?h = "h(c := None)"
  from c obtain e where e: "c \<noteq> 0" "h c = Some e" "ite_lchild e = 0" "ite_rchild e = 0" by auto
  have nc: "c \<notin> set (before P)" "c \<notin> set (behind P)"
    using bysorted_distinct [OF so] by (auto simp: all_of_def)
  have so': "bysorted ?h (all_of Leaf P)"
    using so nc by (subst bysorted_frame [of _ _ h]) (auto simp: all_of_def sorted_wrt_append)
  have P': "path_rep ?h p P" using P nc by simp
  show ?thesis
  proof (cases P)
    case Nil
    then show ?thesis using e P
      by (intro that [of 0 "s\<lparr>ist_root := 0\<rparr>" ?h]) (auto simp: traverse_delete_def ite_free_def trav_out_def)
  next
    case (Cons f Q)
    show ?thesis
    proof (cases f)
      case (Went_left a r)
      from P' Cons Went_left obtain g where g: "p = a" "a \<noteq> 0" "?h a = Some g" "tr ?h (ite_rchild g) r"
        "path_rep ?h (ite_lchild g) Q" by auto
      have na: "a \<noteq> c" "a \<notin> set_tree r" "a \<notin> set (before Q)" "a \<notin> set (behind Q)"
        using bysorted_distinct [OF so'] nc Cons Went_left by (auto simp: all_of_def)
      have "nm h c < nm h a" using so Cons Went_left by (auto simp: all_of_def sorted_wrt_append)
      then have lt: "ite_name e < ite_name g" using e g na by (simp add: nm_def)
      let ?k = "?h(a \<mapsto> g\<lparr>ite_lchild := 0\<rparr>)" and ?s = "s\<lparr>ist_ltree := a, ist_rtree := ite_lchild g\<rparr>"
      have lo: "links_only {a} ?h ?k" using g by (intro links_only_upd) auto
      have "trav_out ?k ?s a (before Q @ inorder Leaf) (a # inorder r @ behind Q)"
        by (rule entry_out [where l = Leaf])
          (use g na so' Cons Went_left in \<open>auto simp: bysorted_links_only [OF lo] fun_upd_same simp del: fun_upd_apply\<close>)
      moreover have "traverse_delete c p s h = Some (a, ?s, ?k)"
        using e g na lt by (simp add: traverse_delete_def ite_free_def set_lchild_def goto_entry)
      moreover have "links_only (set (before P) \<union> set (behind P)) ?h ?k"
        by (rule links_only_mono [OF lo]) (use Cons Went_left in auto)
      ultimately show ?thesis using Cons Went_left
        by (intro that [of a ?s ?k]) (simp_all del: fun_upd_apply)
    next
      case (Went_right a l)
      from P' Cons Went_right obtain g where g: "p = a" "a \<noteq> 0" "?h a = Some g" "tr ?h (ite_lchild g) l"
        "path_rep ?h (ite_rchild g) Q" by auto
      have na: "a \<noteq> c" "a \<notin> set_tree l" "a \<notin> set (before Q)" "a \<notin> set (behind Q)"
        using bysorted_distinct [OF so'] nc Cons Went_right by (auto simp: all_of_def)
      have "nm h a < nm h c" using so Cons Went_right by (auto simp: all_of_def sorted_wrt_append)
      then have lt: "\<not> ite_name e < ite_name g" using e g na by (simp add: nm_def)
      let ?k = "?h(a \<mapsto> g\<lparr>ite_rchild := 0\<rparr>)"
      have lo: "links_only {a} ?h ?k" using g by (intro links_only_upd) auto
      have "tr ?k a (Node l a Leaf)" "path_rep ?k (ite_rchild g) Q" "bysorted ?k (all_of (Node l a Leaf) Q)"
        using g na so' Cons Went_right by (auto simp: bysorted_links_only [OF lo] fun_upd_same simp del: fun_upd_apply)
      then obtain c' s' h' where i: "traverse_goto Traverse_back a (ite_rchild g) s ?k = Some (c', s', h')"
        "trav_out h' s' c' (before Q @ inorder (Node l a Leaf)) (behind Q)"
        "links_only (set (before Q) \<union> set (behind Q)) ?k h'"
        using goto_back [of ?k a "Node l a Leaf" _ Q] g(2) by blast
      have "traverse_delete c p s h = Some (c', s', h')"
        using e g na lt i(1) by (simp add: traverse_delete_def ite_free_def set_rchild_def)
      moreover have "links_only (set (before P) \<union> set (behind P)) ?h h'"
        by (rule links_only_trans [OF links_only_mono [OF lo] links_only_mono [OF i(3)]])
          (use Cons Went_right in auto)
      ultimately show ?thesis using i Cons Went_right by (intro that [of c' s' h']) auto
    qed
  qed
qed

lemma delete_both:
  assumes c: "tr h c (Node l c r)" and P: "path_rep h p P" and so: "bysorted h (all_of (Node l c r) P)"
    and lr: "l \<noteq> Leaf" "r \<noteq> Leaf"
  obtains c' s' h' where "traverse_delete c p s h = Some (c', s', h')"
    "trav_out h' s' c' (before P @ inorder l) (inorder r @ behind P)"
    "links_only (set (before P @ inorder l @ inorder r @ behind P)) (h(c := None)) h'"
proof -
  from c obtain e where e: "c \<noteq> 0" "h c = Some e" "tr h (ite_lchild e) l" "tr h (ite_rchild e) r" by auto
  have z: "ite_lchild e \<noteq> 0" "ite_rchild e \<noteq> 0" using tr_root e lr by auto
  have di: "distinct (all_of (Node l c r) P)" using so by (rule bysorted_distinct)
  have "bysorted h (inorder l)" using so by (simp add: all_of_def sorted_wrt_append)
  with e(3) z(1) obtain q s1 h1 s2 h2 A g where m:
    "ipc_splay_prim_lookup MACH_PORT_LARGEST (ite_lchild e) s h = Some (q, s1, h1)"
    "ipc_splay_prim_assemble q s1 h1 = Some (s2, h2)" "tr h2 q (Node A q Leaf)"
    "inorder A @ [q] = inorder l" "h2 q = Some g" "ite_rchild g = 0" "links_only (set_tree l) h h2"
    by (rule splay_max_ok)
  have sl: "set_tree l = insert q (set_tree A)" using arg_cong [OF m(4), of set] by auto
  have qA: "q \<notin> set_tree A" "q \<noteq> c" "q \<notin> set_tree r" "q \<notin> set (before P)" "q \<notin> set (behind P)"
    using arg_cong [OF m(4), of distinct] di sl by (auto simp: all_of_def)
  have nc: "c \<notin> set_tree A" "c \<notin> set_tree r" "c \<notin> set (before P)" "c \<notin> set (behind P)" "c \<notin> set_tree l"
    using di sl by (auto simp: all_of_def)
  have hc: "h2 c = Some e" using links_only_out [OF m(7) nc(5)] e by simp
  let ?k = "(h2(q \<mapsto> g\<lparr>ite_rchild := ite_rchild e\<rparr>))(c := None)" and ?t = "Node A q r"
  have hq: "map_option strip (h q) = Some (strip g)"
    using m(5,7) unfolding links_only_def by (metis option.map(2))
  have lo: "links_only (set_tree l) (h(c := None)) ?k"
    using m(5,7) nc(5) sl hq unfolding links_only_def by auto
  have r2: "tr h2 x r = tr h x r" for x by (rule tr_lo [OF m(7)]) (use di in \<open>auto simp: all_of_def\<close>)
  have P2: "path_rep h2 x P = path_rep h x P" for x by (rule path_lo [OF m(7)]) (use di in \<open>auto simp: all_of_def\<close>)
  have "tr ?k q ?t" using m(3,5) qA nc r2 e(4) by simp
  moreover have "path_rep ?k p P" using P P2 qA nc by simp
  moreover have "bysorted (h(c := None)) (all_of ?t P)"
    using so nc sl m(4) [symmetric]
    by (subst bysorted_frame [of _ _ h]) (auto simp: all_of_def sorted_wrt_append)
  then have "bysorted ?k (all_of ?t P)" by (simp add: bysorted_links_only [OF lo])
  ultimately obtain c' s' h' where i: "traverse_goto Traverse_right q p s ?k = Some (c', s', h')"
    "trav_out h' s' c' (before P @ inorder A @ [q]) (inorder r @ behind P)"
    "links_only (set (all_of ?t P)) ?k h'"
    by (rule goto_right)
  have "traverse_delete c p s h = Some (c', s', h')"
    using e z m hc qA i(1) by (simp add: traverse_delete_def ite_free_def set_rchild_def)
  moreover have "links_only (set (before P @ inorder l @ inorder r @ behind P)) (h(c := None)) h'"
    by (rule links_only_trans [OF links_only_mono [OF lo] links_only_mono [OF i(3)]])
      (auto simp: set_all_of sl)
  ultimately show ?thesis using i(2) m(4) by (intro that [of c' s' h']) auto
qed

lemma delete_one:
  assumes c: "tr h c (Node l c r)" and P: "path_rep h p P" and so: "bysorted h (all_of (Node l c r) P)"
    and lr: "(l = Leaf) \<noteq> (r = Leaf)"
  obtains c' s' h' where "traverse_delete c p s h = Some (c', s', h')"
    "trav_out h' s' c' (before P @ inorder l) (inorder r @ behind P)"
    "links_only (set (before P @ inorder l @ inorder r @ behind P)) (h(c := None)) h'"
proof -
  let ?h = "h(c := None)"
  from c obtain e where e: "c \<noteq> 0" "h c = Some e" "tr h (ite_lchild e) l" "tr h (ite_rchild e) r" by auto
  have nc: "c \<notin> set_tree l" "c \<notin> set_tree r" "c \<notin> set (before P)" "c \<notin> set (behind P)"
    using bysorted_distinct [OF so] by (auto simp: all_of_def)
  have P': "path_rep ?h p P" using P nc by simp
  show ?thesis
  proof (cases "l = Leaf")
    case True
    have z: "ite_lchild e = 0" "ite_rchild e \<noteq> 0" using tr_root [OF e(3)] tr_root [OF e(4)] lr True by auto
    have "bysorted ?h (all_of r P)"
      using so nc by (subst bysorted_frame [of _ _ h]) (auto simp: all_of_def sorted_wrt_append)
    with P' e(4) nc(2) z(2) obtain c' s' h' where i: "traverse_goto Traverse_left (ite_rchild e) p s ?h = Some (c', s', h')"
      "trav_out h' s' c' (before P) (inorder r @ behind P)" "links_only (set_tree r) ?h h'"
      using goto_left [of ?h "ite_rchild e" r p P s] by (metis tr_upd)
    then show ?thesis using True e z
      by (intro that [of c' s' h'])
        (auto simp: traverse_delete_def ite_free_def intro: links_only_mono [OF i(3)])
  next
    case False
    then have r: "r = Leaf" using lr by blast
    have z: "ite_lchild e \<noteq> 0" "ite_rchild e = 0" using tr_root [OF e(3)] tr_root [OF e(4)] lr False by auto
    have "bysorted ?h (all_of l P)"
      using so nc by (subst bysorted_frame [of _ _ h]) (auto simp: all_of_def sorted_wrt_append)
    with P' e(3) nc(1) z(1) obtain c' s' h' where i: "traverse_goto Traverse_back (ite_lchild e) p s ?h = Some (c', s', h')"
      "trav_out h' s' c' (before P @ inorder l) (behind P)" "links_only (set (before P) \<union> set (behind P)) ?h h'"
      using goto_back [of ?h "ite_lchild e" l p P s] by (metis tr_upd)
    then show ?thesis using r e z
      by (intro that [of c' s' h'])
        (auto simp: traverse_delete_def ite_free_def intro: links_only_mono [OF i(3)])
  qed
qed

section \<open>The operations\<close>

lemma traverse_next_keep:
  assumes "trav_rep h s ds c ts"
  obtains c' s' h' where "ipc_splay_traverse_next False s h = Some (c', s', h')"
    "trav_out h' s' c' (ds @ [c]) ts" "links_only (set (ds @ c # ts)) h h'"
proof -
  from assms obtain l r P where a: "ist_ltree s = c" "tr h c (Node l c r)" "path_rep h (ist_rtree s) P"
    "ds = before P @ inorder l" "ts = inorder r @ behind P" "bysorted h (all_of (Node l c r) P)"
    by (auto simp: trav_rep_def all_of_def)
  from a(2,3,6) obtain c' s' h' where "traverse_goto Traverse_right c (ist_rtree s) s h = Some (c', s', h')"
    "trav_out h' s' c' (before P @ inorder l @ [c]) (inorder r @ behind P)"
    "links_only (set (all_of (Node l c r) P)) h h'"
    by (rule goto_right)
  with a show ?thesis
    by (intro that [of c' s' h']) (auto simp: ipc_splay_traverse_next_def all_of_def)
qed

lemma traverse_next_delete:
  assumes "trav_rep h s ds c ts"
  obtains c' s' h' where "ipc_splay_traverse_next True s h = Some (c', s', h')"
    "trav_out h' s' c' ds ts" "links_only (set (ds @ ts)) (h(c := None)) h'"
proof -
  from assms obtain l r P where a: "ist_ltree s = c" "tr h c (Node l c r)" "path_rep h (ist_rtree s) P"
    "ds = before P @ inorder l" "ts = inorder r @ behind P" "bysorted h (all_of (Node l c r) P)"
    by (auto simp: trav_rep_def all_of_def)
  obtain c' s' h' where "traverse_delete c (ist_rtree s) s h = Some (c', s', h')"
    "trav_out h' s' c' (before P @ inorder l) (inorder r @ behind P)"
    "links_only (set (before P @ inorder l @ inorder r @ behind P)) (h(c := None)) h'"
  proof (cases "l = Leaf \<and> r = Leaf")
    case True
    with a obtain c' s' h' where "traverse_delete c (ist_rtree s) s h = Some (c', s', h')"
      "trav_out h' s' c' (before P) (behind P)"
      "links_only (set (before P) \<union> set (behind P)) (h(c := None)) h'"
      by (metis delete_leaf)
    with True show ?thesis by (intro that [of c' s' h']) auto
  next
    case False
    with a that show ?thesis by (cases "l \<noteq> Leaf \<and> r \<noteq> Leaf") (metis delete_both, metis delete_one)
  qed
  with a show ?thesis
    by (intro that [of c' s' h']) (auto simp: ipc_splay_traverse_next_def Un_assoc)
qed

lemma start_loop_goto:
  assumes "tr h c t" "c \<noteq> 0" "distinct (inorder t)"
  shows "traverse_goto Traverse_left c p s h =
    map_option (\<lambda>(c, p, h). (c, s\<lparr>ist_ltree := c, ist_rtree := p\<rparr>, h)) (traverse_start_loop c p h)"
  using assms
proof (induction t arbitrary: h c p)
  case (Node l a r)
  from Node.prems obtain e where e: "c = a" "a \<noteq> 0" "h a = Some e" "tr h (ite_lchild e) l" by auto
  show ?case
  proof (cases "ite_lchild e = 0")
    case True
    then show ?thesis using e
      by (subst traverse_goto.simps, subst traverse_start_loop.simps) (simp add: goto_entry)
  next
    case False
    let ?h = "h(a \<mapsto> e\<lparr>ite_lchild := p\<rparr>)"
    have "tr ?h (ite_lchild e) l" using e Node.prems(3) by simp
    from Node.IH(1) [OF this False, of a] e Node.prems(3) False show ?thesis
      by (subst traverse_goto.simps, subst traverse_start_loop.simps)
        (simp add: set_lchild_def del: fun_upd_apply)
  qed
qed simp

lemma traverse_start_ok:
  assumes rep: "splay_rep h s xs"
  obtains c s' h' where "ipc_splay_traverse_start s h = Some (c, s', h')"
    "trav_out h' s' c [] xs" "links_only (set xs) h h'"
proof (cases "ist_root s = 0")
  case True
  with rep show ?thesis
    by (intro that [of 0 s h])
      (auto simp: ipc_splay_traverse_start_def splay_rep_Nil trav_out_def intro: exI [of _ Leaf])
next
  case False
  let ?p = "ist_root s"
  from rep False obtain t L R where z: "zipped h ?p s t L R" "xs = ents L t R" "bysorted h xs"
    by (auto simp: splay_rep_def)
  from z(1) obtain s1 h1 T where a: "ipc_splay_prim_assemble ?p s h = Some (s1, h1)"
    "tr h1 ?p T" "inorder T = ents L t R" "links_only (set (ents L t R)) h h1" "ist_root s1 = ?p"
    by (rule assemble_ok)
  have lo: "links_only (set xs) h h1" using a(4) z(2) by simp
  have so: "bysorted h1 (inorder T)" using z(2,3) a(3) by (simp add: bysorted_links_only [OF lo])
  have "path_rep h1 0 []" "bysorted h1 (all_of T [])" using so by (simp_all add: all_of_def)
  with a(2) False obtain c s' h' where i: "traverse_goto Traverse_left ?p 0 s1 h1 = Some (c, s', h')"
    "trav_out h' s' c (before []) (inorder T @ behind [])" "links_only (set_tree T) h1 h'"
    by (rule goto_left [where P = "[]"])
  have xs: "inorder T = xs" "set_tree T = set xs" using a(3) z(2) by (simp, metis set_inorder)
  have "ipc_splay_traverse_start s h = Some (c, s', h')"
    using i(1) False a(1,5) start_loop_goto [OF a(2) False bysorted_distinct [OF so], of 0 s1]
    by (auto simp: ipc_splay_traverse_start_def)
  then show ?thesis
    using i(2,3) xs lo by (intro that [of c s' h']) (auto intro: links_only_trans)
qed

lemma traverse_finish_ok:
  assumes "trav_out h s p ds []"
  obtains s' where "ipc_splay_traverse_finish s h = Some s'" "splay_rep h s' ds"
proof -
  from assms obtain t where "tr h (ist_root s) t" "inorder t = ds" "bysorted h ds"
    by (auto simp: trav_out_def)
  then show ?thesis
    using that install_root_ok [of h "ist_root s" t s] by (metis ipc_splay_traverse_finish_def)
qed

section \<open>Whole traversals\<close>

text \<open>The loop in which callers use the three routines: visit the entries until
  \<^verbatim>\<open>ITE_NULL\<close> is returned, removing those for which \<open>del\<close> answers true, then finish.\<close>

partial_function (option) traverse_from ::
  "(ptr \<Rightarrow> bool) \<Rightarrow> ptr \<Rightarrow> ipc_splay_tree \<Rightarrow> ite_heap \<Rightarrow> (ptr list \<times> ipc_splay_tree \<times> ite_heap) option"
  where
  "traverse_from del entry s h =
     (if entry = ITE_NULL then Some ([], s, h)
      else do {
        (entry', s, h) \<leftarrow> ipc_splay_traverse_next (del entry) s h;
        (vs, s, h) \<leftarrow> traverse_from del entry' s h;
        Some (entry # vs, s, h) })"

definition traverse_all ::
  "(ptr \<Rightarrow> bool) \<Rightarrow> ipc_splay_tree \<Rightarrow> ite_heap \<Rightarrow> (ptr list \<times> ipc_splay_tree \<times> ite_heap) option" where
  "traverse_all del s h = do {
     (entry, s, h) \<leftarrow> ipc_splay_traverse_start s h;
     (vs, s, h) \<leftarrow> traverse_from del entry s h;
     s \<leftarrow> ipc_splay_traverse_finish s h;
     Some (vs, s, h) }"

definition drop_entries :: "(ptr \<Rightarrow> bool) \<Rightarrow> ptr list \<Rightarrow> ite_heap \<Rightarrow> ite_heap" where
  "drop_entries del ts h = (\<lambda>a. if a \<in> set ts \<and> del a then None else h a)"

lemma links_only_drop:
  "links_only X h h' \<Longrightarrow> links_only X (drop_entries del ts h) (drop_entries del ts h')"
  by (auto simp: links_only_def drop_entries_def)

lemma traverse_from_ok:
  assumes "trav_out h s p ds ts"
  obtains q s' h' where "traverse_from del p s h = Some (ts, s', h')"
    "trav_out h' s' q (ds @ filter (\<lambda>a. \<not> del a) ts) []"
    "links_only (set (ds @ ts)) (drop_entries del ts h) h'"
  using assms
proof (induction ts arbitrary: h s p ds thesis)
  case Nil
  have "p = 0" using Nil(2) by (simp add: trav_out_def)
  then have "traverse_from del p s h = Some ([], s, h)" by (simp add: traverse_from.simps)
  then show ?case using Nil(2) by (intro Nil(1)) (auto simp: drop_entries_def)
next
  case (Cons c ts)
  from Cons.prems(2) have p: "p = c" and t: "trav_rep h s ds c ts" by (auto simp: trav_out_def)
  have c0: "c \<noteq> 0" using t by (auto simp: trav_rep_def)
  have cs: "c \<notin> set ds" "c \<notin> set ts"
    using t by (auto simp: trav_rep_def dest!: bysorted_distinct)
  define ds' where "ds' = ds @ filter (\<lambda>a. \<not> del a) [c]"
  obtain d s1 h1 where n: "ipc_splay_traverse_next (del c) s h = Some (d, s1, h1)"
    "trav_out h1 s1 d ds' ts"
    "links_only (set (ds @ c # ts)) (if del c then h(c := None) else h) h1"
  proof (cases "del c")
    case True
    from t obtain d s1 h1 where "ipc_splay_traverse_next True s h = Some (d, s1, h1)"
      "trav_out h1 s1 d ds ts" and lo: "links_only (set (ds @ ts)) (h(c := None)) h1"
      by (rule traverse_next_delete)
    then show ?thesis using True
      by (intro that [of d s1 h1]) (auto simp: ds'_def intro: links_only_mono [OF lo])
  next
    case False
    from t obtain d s1 h1 where "ipc_splay_traverse_next False s h = Some (d, s1, h1)"
      "trav_out h1 s1 d (ds @ [c]) ts" "links_only (set (ds @ c # ts)) h h1"
      by (rule traverse_next_keep)
    then show ?thesis using False by (intro that [of d s1 h1]) (auto simp: ds'_def)
  qed
  from Cons.IH [OF _ n(2)] obtain q s' h' where i: "traverse_from del d s1 h1 = Some (ts, s', h')"
    "trav_out h' s' q (ds' @ filter (\<lambda>a. \<not> del a) ts) []"
    "links_only (set (ds' @ ts)) (drop_entries del ts h1) h'" by blast
  have "traverse_from del p s h = Some (c # ts, s', h')"
    using n(1) i(1) c0 p by (subst traverse_from.simps) simp
  moreover have "drop_entries del ts (if del c then h(c := None) else h) = drop_entries del (c # ts) h"
    by (auto simp: drop_entries_def)
  then have "links_only (set (ds @ c # ts)) (drop_entries del (c # ts) h) (drop_entries del ts h1)"
    using links_only_drop [OF n(3), of del ts] by simp
  then have "links_only (set (ds @ c # ts)) (drop_entries del (c # ts) h) h'"
    by (rule links_only_trans) (rule links_only_mono [OF i(3)], auto simp: ds'_def)
  ultimately show ?case using i(2) by (intro Cons.prems(1)) (auto simp: ds'_def)
qed

lemma traverse_all_ok:
  assumes "splay_rep h s xs"
  obtains s' h' where "traverse_all del s h = Some (xs, s', h')"
    "splay_rep h' s' (filter (\<lambda>a. \<not> del a) xs)"
    "links_only (set xs) (drop_entries del xs h) h'"
proof -
  from assms obtain c s1 h1 where a: "ipc_splay_traverse_start s h = Some (c, s1, h1)"
    "trav_out h1 s1 c [] xs" "links_only (set xs) h h1" by (rule traverse_start_ok)
  from a(2) obtain q s2 h2 where b: "traverse_from del c s1 h1 = Some (xs, s2, h2)"
    "trav_out h2 s2 q ([] @ filter (\<lambda>a. \<not> del a) xs) []"
    "links_only (set ([] @ xs)) (drop_entries del xs h1) h2" by (rule traverse_from_ok)
  from b(2) obtain s' where f: "ipc_splay_traverse_finish s2 h2 = Some s'"
    "splay_rep h2 s' ([] @ filter (\<lambda>a. \<not> del a) xs)" by (rule traverse_finish_ok)
  have "links_only (set xs) (drop_entries del xs h) h2"
    using links_only_trans [OF links_only_drop [OF a(3)]] b(3) by simp
  with a(1) b(1) f show ?thesis by (intro that [of s' h2]) (auto simp: traverse_all_def)
qed

end
