(* ===== verification/Splay_Contract.thy ===== *)
theory Splay_Contract
  imports Splay_Traverse
begin

text \<open>
  What the splay tree promises its callers. The locale \<open>name_tree\<close> is the interface that
  \<^verbatim>\<open>ipc_entry.c\<close> relies on: a set of entries with distinct names, and lookup, insert,
  delete and bounds on it. The client lemmas (an inserted entry is found, a deleted one is not,
  other names are not disturbed, the bounds decide whether a block of names is in use) are proved
  once from its laws; the interpretation discharges the laws for the operations of
  \<^verbatim>\<open>ipc_splay.c\<close>.
\<close>

section \<open>The interface\<close>

locale name_tree =
  fixes live :: "'h \<Rightarrow> ptr \<Rightarrow> bool" and key :: "'h \<Rightarrow> ptr \<Rightarrow> u32"
    and holds :: "'h \<Rightarrow> 's \<Rightarrow> ptr set \<Rightarrow> bool"
    and look :: "u32 \<Rightarrow> 's \<Rightarrow> 'h \<Rightarrow> (ptr \<times> 's \<times> 'h) option"
    and ins :: "u32 \<Rightarrow> ptr \<Rightarrow> 's \<Rightarrow> 'h \<Rightarrow> ('s \<times> 'h) option"
    and del :: "u32 \<Rightarrow> ptr \<Rightarrow> 's \<Rightarrow> 'h \<Rightarrow> ('s \<times> 'h) option"
    and bnds :: "u32 \<Rightarrow> 's \<Rightarrow> 'h \<Rightarrow> (u32 \<times> u32 \<times> 's \<times> 'h) option"
  assumes holds_inj: "holds h s X \<Longrightarrow> finite X \<and> 0 \<notin> X \<and> inj_on (key h) X"
    and look_law: "holds h s X \<Longrightarrow> \<exists>p s' h'. look n s h = Some (p, s', h') \<and> holds h' s' X \<and>
          key h' = key h \<and> (if p = 0 then n \<notin> key h ` X else p \<in> X \<and> key h p = n)"
    and ins_law: "holds h s X \<Longrightarrow> live h p \<Longrightarrow> p \<notin> X \<Longrightarrow> n \<notin> key h ` X \<Longrightarrow>
          \<exists>s' h'. ins n p s h = Some (s', h') \<and> holds h' s' (insert p X) \<and> key h' = (key h)(p := n)"
    and del_law: "holds h s X \<Longrightarrow> p \<in> X \<Longrightarrow> key h p = n \<Longrightarrow>
          \<exists>s' h'. del n p s h = Some (s', h') \<and> holds h' s' (X - {p}) \<and>
            (\<forall>a \<in> X - {p}. key h' a = key h a)"
    and bnds_law: "holds h s X \<Longrightarrow> \<exists>lo up s' h'. bnds n s h = Some (lo, up, s', h') \<and> holds h' s' X \<and>
          key h' = key h \<and>
          (if \<exists>a \<in> X. key h a \<le> n then is_arg_max id (\<lambda>k. k \<in> key h ` X \<and> k \<le> n) lo else lo = - 1) \<and>
          (if \<exists>a \<in> X. n \<le> key h a then is_arg_min id (\<lambda>k. k \<in> key h ` X \<and> n \<le> k) up else up = 0)"
begin

lemma look_the:
  assumes "holds h s X" "p \<in> X"
  shows "\<exists>s' h'. look (key h p) s h = Some (p, s', h') \<and> holds h' s' X"
proof -
  from look_law [OF assms(1), of "key h p"] obtain q s' h' where
    q: "look (key h p) s h = Some (q, s', h')" "holds h' s' X"
    "if q = 0 then key h p \<notin> key h ` X else q \<in> X \<and> key h q = key h p" by blast
  then have "q \<in> X" "key h q = key h p" using assms(2) by (auto split: if_splits)
  then have "q = p" using holds_inj [OF assms(1)] assms(2) by (auto dest: inj_onD)
  with q show ?thesis by blast
qed

lemma ins_look:
  assumes "holds h s X" "live h p" "p \<notin> X" "n \<notin> key h ` X"
  shows "\<exists>s1 h1 s2 h2. ins n p s h = Some (s1, h1) \<and> look n s1 h1 = Some (p, s2, h2) \<and>
    holds h2 s2 (insert p X)"
proof -
  from ins_law [OF assms] obtain s1 h1 where
    i: "ins n p s h = Some (s1, h1)" "holds h1 s1 (insert p X)" "key h1 = (key h)(p := n)" by blast
  from look_the [OF i(2), of p] i show ?thesis by auto
qed

lemma ins_look_other:
  assumes "holds h s X" "live h p" "p \<notin> X" "n \<notin> key h ` X" "m \<noteq> n"
  shows "\<exists>s1 h1 q s2 h2 s3 h3. ins n p s h = Some (s1, h1) \<and>
    look m s1 h1 = Some (q, s2, h2) \<and> look m s h = Some (q, s3, h3)"
proof -
  from ins_law [OF assms(1-4)] obtain s1 h1 where
    i: "ins n p s h = Some (s1, h1)" "holds h1 s1 (insert p X)" "key h1 = (key h)(p := n)" by blast
  from look_law [OF i(2), of m] obtain q s2 h2 where q: "look m s1 h1 = Some (q, s2, h2)"
    "if q = 0 then m \<notin> key h1 ` insert p X else q \<in> insert p X \<and> key h1 q = m" by blast
  from look_law [OF assms(1), of m] obtain r s3 h3 where r: "look m s h = Some (r, s3, h3)"
    "if r = 0 then m \<notin> key h ` X else r \<in> X \<and> key h r = m" by blast
  have z: "0 \<notin> X" and inj: "inj_on (key h) X" using holds_inj [OF assms(1)] by auto
  have "q = 0 \<longleftrightarrow> m \<notin> key h ` X"
    using q(2) assms(3,5) i(3) holds_inj [OF i(2)] by (auto split: if_splits)
  moreover have "q \<noteq> 0 \<Longrightarrow> q \<in> X \<and> key h q = m"
    using q(2) assms(5) i(3) by (auto split: if_splits)
  ultimately have "q = r" using r(2) z inj by (auto split: if_splits dest: inj_onD)
  with i q r show ?thesis by blast
qed

lemma del_look:
  assumes "holds h s X" "p \<in> X" "key h p = n"
  shows "\<exists>s1 h1 s2 h2. del n p s h = Some (s1, h1) \<and> look n s1 h1 = Some (0, s2, h2) \<and>
    holds h2 s2 (X - {p})"
proof -
  from del_law [OF assms] obtain s1 h1 where d: "del n p s h = Some (s1, h1)"
    "holds h1 s1 (X - {p})" "\<forall>a \<in> X - {p}. key h1 a = key h a" by blast
  from look_law [OF d(2), of n] obtain q s2 h2 where q: "look n s1 h1 = Some (q, s2, h2)"
    "holds h2 s2 (X - {p})" "if q = 0 then n \<notin> key h1 ` (X - {p}) else q \<in> X - {p} \<and> key h1 q = n"
    by blast
  have "q = 0" using q(3) d(3) assms(2,3) holds_inj [OF assms(1)]
    by (metis Diff_iff inj_onD insertI1)
  with d q show ?thesis by blast
qed

text \<open>The bounds decide whether any name of a convex class of names is in the tree: the nearest
  names on both sides are enough.\<close>

lemma bnds_class:
  assumes "holds h s X"
    and convex: "\<And>a b. C a \<Longrightarrow> C n \<Longrightarrow> (a \<le> b \<and> b \<le> n) \<or> (n \<le> b \<and> b \<le> a) \<Longrightarrow> C b"
    and "C n" and valid: "0 \<notin> key h ` X" "- 1 \<notin> key h ` X"
  shows "\<exists>lo up s' h'. bnds n s h = Some (lo, up, s', h') \<and> holds h' s' X \<and> key h' = key h \<and>
    ((\<exists>a \<in> X. C (key h a)) \<longleftrightarrow>
       (lo \<noteq> - 1 \<and> C lo) \<or> (up \<noteq> 0 \<and> C up))"
proof -
  from bnds_law [OF assms(1), of n] obtain lo up s' h' where
    b: "bnds n s h = Some (lo, up, s', h')" "holds h' s' X" "key h' = key h"
    and lo: "if \<exists>a \<in> X. key h a \<le> n then is_arg_max id (\<lambda>k. k \<in> key h ` X \<and> k \<le> n) lo else lo = - 1"
    and up: "if \<exists>a \<in> X. n \<le> key h a then is_arg_min id (\<lambda>k. k \<in> key h ` X \<and> n \<le> k) up else up = 0"
    by blast
  have L: "lo \<in> key h ` X \<and> lo \<le> n \<and> (\<forall>a \<in> X. key h a \<le> n \<longrightarrow> key h a \<le> lo)"
    if "\<exists>a \<in> X. key h a \<le> n" using lo that by (auto simp: is_arg_max_def not_less)
  have U: "up \<in> key h ` X \<and> n \<le> up \<and> (\<forall>a \<in> X. n \<le> key h a \<longrightarrow> up \<le> key h a)"
    if "\<exists>a \<in> X. n \<le> key h a" using up that by (auto simp: is_arg_min_def not_less)
  have "lo \<noteq> - 1 \<and> C lo \<or> up \<noteq> 0 \<and> C up" if "a \<in> X" "C (key h a)" for a
  proof (cases "key h a \<le> n")
    case True
    then have l: "lo \<in> key h ` X" "lo \<le> n" "key h a \<le> lo" using L that by blast+
    then have "C lo" using convex [of "key h a" lo] that assms(3) by blast
    then show ?thesis using l(1) valid by metis
  next
    case False
    then have u: "up \<in> key h ` X" "n \<le> up" "up \<le> key h a" using U that by (meson linear)+
    then have "C up" using convex [of "key h a" up] that assms(3) by blast
    then show ?thesis using u(1) valid by metis
  qed
  moreover have "\<exists>a \<in> X. C (key h a)" if "lo \<noteq> - 1 \<and> C lo \<or> up \<noteq> 0 \<and> C up"
    using that lo up L U by (metis (no_types, lifting) imageE)
  ultimately show ?thesis using b by (intro exI [of _ lo] exI [of _ up] exI [of _ s'] exI [of _ h']) blast
qed

end

section \<open>The splay tree provides the interface\<close>

definition tree_holds :: "ite_heap \<Rightarrow> ipc_splay_tree \<Rightarrow> ptr set \<Rightarrow> bool" where
  "tree_holds h s X \<longleftrightarrow> (\<exists>xs. splay_rep h s xs \<and> set xs = X)"

definition ite_live :: "ite_heap \<Rightarrow> ptr \<Rightarrow> bool" where
  "ite_live h p \<longleftrightarrow> p \<noteq> ITE_NULL \<and> h p \<noteq> None"

lemma bysorted_inj_on: "bysorted h xs \<Longrightarrow> inj_on (nm h) (set xs)"
  by (auto intro: inj_onI dest: bysorted_inj)

lemma lower_bound_max:
  assumes "bysorted h xs" "\<exists>a \<in> set xs. nm h a \<le> n"
  shows "is_arg_max id (\<lambda>k. k \<in> nm h ` set xs \<and> k \<le> n) (lower_bound h n xs)"
proof -
  define ys where "ys = filter (\<lambda>a. nm h a \<le> n) xs"
  have ne: "ys \<noteq> []" using assms(2) by (simp add: ys_def filter_empty_conv)
  then obtain zs z where z: "ys = zs @ [z]" by (metis rev_exhaust)
  have "bysorted h ys" unfolding ys_def using assms(1) by (rule bysorted_filter)
  then have "nm h b \<le> nm h z" if "b \<in> set ys" for b using that z by (auto simp: sorted_wrt_append)
  moreover have "lower_bound h n xs = nm h z" using z by (simp add: lower_bound_def ys_def)
  moreover have "b \<in> set ys \<longleftrightarrow> b \<in> set xs \<and> nm h b \<le> n" for b by (simp add: ys_def)
  moreover have "z \<in> set ys" using z by simp
  ultimately show ?thesis unfolding is_arg_max_def by (auto simp: not_less)
qed

lemma upper_bound_min:
  assumes "bysorted h xs" "\<exists>a \<in> set xs. n \<le> nm h a"
  shows "is_arg_min id (\<lambda>k. k \<in> nm h ` set xs \<and> n \<le> k) (upper_bound h n xs)"
proof -
  define ys where "ys = filter (\<lambda>a. n \<le> nm h a) xs"
  have ne: "ys \<noteq> []" using assms(2) by (simp add: ys_def filter_empty_conv)
  then obtain zs z where z: "ys = z # zs" by (metis list.exhaust)
  have "bysorted h ys" unfolding ys_def using assms(1) by (rule bysorted_filter)
  then have "nm h z \<le> nm h b" if "b \<in> set ys" for b using that z by auto
  moreover have "upper_bound h n xs = nm h z" using z by (simp add: upper_bound_def ys_def)
  moreover have "b \<in> set ys \<longleftrightarrow> b \<in> set xs \<and> n \<le> nm h b" for b by (simp add: ys_def)
  moreover have "z \<in> set ys" using z by simp
  ultimately show ?thesis unfolding is_arg_min_def by (auto simp: not_less)
qed

lemma nm_links: "links_only X h h' \<Longrightarrow> nm h' = nm h"
  by (rule ext) (rule nm_links_only)

lemma tree_look_law:
  assumes "tree_holds h s X"
  shows "\<exists>p s' h'. ipc_splay_tree_lookup n s h = Some (p, s', h') \<and> tree_holds h' s' X \<and>
    nm h' = nm h \<and> (if p = 0 then n \<notin> nm h ` X else p \<in> X \<and> nm h p = n)"
proof -
  from assms obtain xs where xs: "splay_rep h s xs" "set xs = X" by (auto simp: tree_holds_def)
  from xs(1) obtain r s' h' where "ipc_splay_tree_lookup n s h = Some (r, s', h')"
    "splay_rep h' s' xs" "links_only (set xs) h h'"
    "r = 0 \<Longrightarrow> n \<notin> nm h ` set xs" "r \<noteq> 0 \<Longrightarrow> r \<in> set xs \<and> nm h r = n"
    by (rule splay_tree_lookup_ok) blast
  then show ?thesis using xs(2) by (auto simp: tree_holds_def nm_links)
qed

lemma tree_ins_law:
  assumes "tree_holds h s X" "ite_live h p" "p \<notin> X" "n \<notin> nm h ` X"
  shows "\<exists>s' h'. ipc_splay_tree_insert n p s h = Some (s', h') \<and>
    tree_holds h' s' (insert p X) \<and> nm h' = (nm h)(p := n)"
proof -
  from assms obtain xs e where xs: "splay_rep h s xs" "set xs = X" "p \<noteq> 0" "h p = Some e"
    by (auto simp: tree_holds_def ite_live_def)
  from xs assms obtain s' h' where i: "ipc_splay_tree_insert n p s h = Some (s', h')"
    "splay_rep h' s' (ins_entry h n p xs)"
    "links_only (insert p (set xs)) (h(p \<mapsto> e\<lparr>ite_name := n\<rparr>)) h'"
    using splay_tree_insert_ok [of h s xs p e n] by metis
  have "set (ins_entry h n p xs) = insert p X"
    using assms(4) xs(2) by (force simp: ins_entry_def not_less_iff_gr_or_eq)
  moreover have "nm h' = (nm h)(p := n)" using nm_links [OF i(3)] by (auto simp: nm_def)
  ultimately show ?thesis using i by (auto simp: tree_holds_def)
qed

lemma tree_del_law:
  assumes "tree_holds h s X" "p \<in> X" "nm h p = n"
  shows "\<exists>s' h'. ipc_splay_tree_delete n p s h = Some (s', h') \<and> tree_holds h' s' (X - {p}) \<and>
    (\<forall>a \<in> X - {p}. nm h' a = nm h a)"
proof -
  from assms obtain xs where xs: "splay_rep h s xs" "set xs = X" by (auto simp: tree_holds_def)
  from xs assms obtain s' h' where d: "ipc_splay_tree_delete n p s h = Some (s', h')"
    "splay_rep h' s' (remove1 p xs)" "links_only (set xs - {p}) (h(p := None)) h'"
    using splay_tree_delete_ok [of h s xs p n] by metis
  have "distinct xs" using xs(1) by (auto simp: splay_rep_def dest: bysorted_distinct)
  then have "set (remove1 p xs) = X - {p}" using xs(2) by simp
  moreover have "nm h' = nm (h(p := None))" by (rule nm_links [OF d(3)])
  then have "\<forall>a \<in> X - {p}. nm h' a = nm h a" by (simp add: nm_def)
  ultimately show ?thesis using d by (auto simp: tree_holds_def)
qed

lemma tree_bnds_law:
  assumes "tree_holds h s X"
  shows "\<exists>lo up s' h'. ipc_splay_tree_bounds n s h = Some (lo, up, s', h') \<and> tree_holds h' s' X \<and>
    nm h' = nm h \<and>
    (if \<exists>a \<in> X. nm h a \<le> n then is_arg_max id (\<lambda>k. k \<in> nm h ` X \<and> k \<le> n) lo else lo = - 1) \<and>
    (if \<exists>a \<in> X. n \<le> nm h a then is_arg_min id (\<lambda>k. k \<in> nm h ` X \<and> n \<le> k) up else up = 0)"
proof -
  from assms obtain xs where xs: "splay_rep h s xs" "set xs = X" by (auto simp: tree_holds_def)
  then have so: "bysorted h xs" by (simp add: splay_rep_def)
  from xs(1) obtain s' h' where
    b: "ipc_splay_tree_bounds n s h = Some (lower_bound h n xs, upper_bound h n xs, s', h')"
    "splay_rep h' s' xs" "links_only (set xs) h h'" by (rule splay_tree_bounds_ok)
  have "lower_bound h n xs = - 1" if "\<not> (\<exists>a \<in> X. nm h a \<le> n)"
    using that xs(2) by (simp add: lower_bound_def Let_def filter_empty_conv)
  moreover have "upper_bound h n xs = 0" if "\<not> (\<exists>a \<in> X. n \<le> nm h a)"
    using that xs(2) by (simp add: upper_bound_def Let_def filter_empty_conv)
  ultimately show ?thesis
    using b xs(2) lower_bound_max [OF so, of n] upper_bound_min [OF so, of n]
    by (auto simp: tree_holds_def nm_links)
qed

interpretation splay: name_tree ite_live nm tree_holds ipc_splay_tree_lookup
  ipc_splay_tree_insert ipc_splay_tree_delete ipc_splay_tree_bounds
proof
  show "finite X \<and> 0 \<notin> X \<and> inj_on (nm h) X" if "tree_holds h s X" for h s X
  proof -
    from that obtain xs where xs: "splay_rep h s xs" "set xs = X" by (auto simp: tree_holds_def)
    then have "bysorted h xs" by (simp add: splay_rep_def)
    from bysorted_inj_on [OF this] splay_rep_dom [OF xs(1)] xs(2) show ?thesis by auto
  qed
qed (fact tree_look_law tree_ins_law tree_del_law tree_bnds_law)+

end
