(* ===== verification/Splay_Props.thy ===== *)
theory Splay_Props
  imports Splay_Contract
begin

text \<open>
  The properties of \<^verbatim>\<open>ipc_splay.c\<close>, over the list of entries in symmetric order
  (\<open>splay_rep\<close>) and over the interface \<open>name_tree\<close>. Every property states that the
  operation returns, so that it reads no dangling pointer, no assertion fails and its loops end.
\<close>

section \<open>A concrete tree\<close>

text \<open>Three entries, named 256, 512 and 768, the middle one at the root; a fourth entry is
  allocated but not in the tree.\<close>

definition demo_entry :: "u32 \<Rightarrow> ptr \<Rightarrow> ptr \<Rightarrow> ipc_tree_entry" where
  "demo_entry n l r = \<lparr>ite_bits = 0, ite_object = 0, ite_request = 0, ite_next = 0,
     ite_name = n, ite_space = 0, ite_lchild = l, ite_rchild = r\<rparr>"

definition demo_heap :: ite_heap where
  "demo_heap = [64 \<mapsto> demo_entry 256 0 0, 128 \<mapsto> demo_entry 512 64 192, 192 \<mapsto> demo_entry 768 0 0,
     320 \<mapsto> demo_entry 0 0 0]"

definition demo_tree :: ipc_splay_tree where
  "demo_tree = \<lparr>ist_name = 512, ist_root = 128, ist_ltree = 0, ist_ltreep = Self,
     ist_rtree = 0, ist_rtreep = Self\<rparr>"

definition empty_tree :: ipc_splay_tree where
  "empty_tree = ipc_splay_tree_init demo_tree"

lemma demo_nm: "nm demo_heap 64 = 256" "nm demo_heap 128 = 512" "nm demo_heap 192 = 768"
  by (simp_all add: nm_def demo_heap_def demo_entry_def)

lemma demo_rep: "splay_rep demo_heap demo_tree [64, 128, 192]"
proof (rule splay_repI)
  let ?t = "Node (Node Leaf 64 Leaf) 128 (Node Leaf 192 Leaf)"
  show "zipped demo_heap (ist_root demo_tree) demo_tree ?t [] []"
    by (simp add: zipped_def demo_tree_def demo_heap_def demo_entry_def)
  show "parted demo_heap (ist_name demo_tree) [] []" by (simp add: parted_def)
  show "stops_at demo_heap (ist_name demo_tree) ?t" by (simp add: demo_tree_def demo_nm)
  show "ents [] ?t [] = [64, 128, 192]" by (simp add: ents_def)
qed (simp add: demo_nm)

lemma demo_holds: "tree_holds demo_heap demo_tree {64, 128, 192}"
  using demo_rep by (auto simp: tree_holds_def intro!: exI [of _ "[64, 128, 192]"])

lemma demo_free: "ite_live demo_heap 320" "(320 :: ptr) \<notin> {64, 128, 192}"
  "(600 :: u32) \<notin> nm demo_heap ` {64, 128, 192}"
  by (simp_all add: ite_live_def demo_heap_def demo_entry_def nm_def)

lemma empty_rep: "splay_rep h empty_tree []"
  by (simp add: splay_rep_Nil empty_tree_def ipc_splay_tree_init_def)

text \<open>The same tree beside a tree of one entry with a greater name.\<close>

definition high_heap :: ite_heap where
  "high_heap = demo_heap(320 \<mapsto> demo_entry 1024 0 0)"

definition high_tree :: ipc_splay_tree where
  "high_tree = \<lparr>ist_name = 1024, ist_root = 320, ist_ltree = 0, ist_ltreep = Self,
     ist_rtree = 0, ist_rtreep = Self\<rparr>"

lemma high_nm: "nm high_heap 64 = 256" "nm high_heap 128 = 512" "nm high_heap 192 = 768" "nm high_heap 320 = 1024"
  by (simp_all add: nm_def high_heap_def demo_heap_def demo_entry_def)

lemma high_rep: "splay_rep high_heap high_tree [320]" "splay_rep high_heap demo_tree [64, 128, 192]"
proof -
  show "splay_rep high_heap high_tree [320]"
  proof (rule splay_repI)
    show "zipped high_heap (ist_root high_tree) high_tree (Node Leaf 320 Leaf) [] []"
      by (simp add: zipped_def high_tree_def high_heap_def demo_heap_def demo_entry_def)
  qed (simp_all add: parted_def high_tree_def high_nm ents_def)
  let ?t = "Node (Node Leaf 64 Leaf) 128 (Node Leaf 192 Leaf)"
  show "splay_rep high_heap demo_tree [64, 128, 192]"
  proof (rule splay_repI)
    show "zipped high_heap (ist_root demo_tree) demo_tree ?t [] []"
      by (simp add: zipped_def demo_tree_def high_heap_def demo_heap_def demo_entry_def)
  qed (simp_all add: parted_def demo_tree_def high_nm ents_def)
qed

section \<open>Properties\<close>

text \<open>C1. A lookup in any well-formed splay tree returns; it finds exactly the entry with the
  name, if there is one; it may restructure the tree but leaves the same entries in the same order
  and changes nothing but child links of entries of the tree.\<close>

theorem splay_lookup_correct:
  assumes "splay_rep h s xs"
  shows "\<exists>p s' h'. ipc_splay_tree_lookup n s h = Some (p, s', h') \<and> splay_rep h' s' xs \<and>
    links_only (set xs) h h' \<and>
    (if n \<in> nm h ` set xs then p \<in> set xs \<and> nm h p = n else p = 0)"
proof -
  from assms obtain p s' h' where r: "ipc_splay_tree_lookup n s h = Some (p, s', h')"
    "splay_rep h' s' xs" "links_only (set xs) h h'"
    "p = 0 \<Longrightarrow> n \<notin> nm h ` set xs" "p \<noteq> 0 \<Longrightarrow> p \<in> set xs \<and> nm h p = n"
    by (rule splay_tree_lookup_ok) blast
  then show ?thesis by (cases "p = 0") auto
qed

theorem splay_lookup_correct_witness:
  "\<exists>p s' h'. ipc_splay_tree_lookup 768 demo_tree demo_heap = Some (p, s', h') \<and>
    splay_rep h' s' [64, 128, 192] \<and> links_only {64, 128, 192} demo_heap h' \<and> p = 192"
  using splay_lookup_correct [OF demo_rep, of 768] by (auto simp: demo_nm)

text \<open>C2. After the insertion of a fresh entry under an unused name, looking the name up finds
  the entry, and looking any other name up finds what it found before.\<close>

theorem splay_insert_lookup:
  assumes "tree_holds h s X" "ite_live h p" "p \<notin> X" "n \<notin> nm h ` X"
  shows "\<exists>s1 h1. ipc_splay_tree_insert n p s h = Some (s1, h1) \<and> tree_holds h1 s1 (insert p X) \<and>
    map_option fst (ipc_splay_tree_lookup n s1 h1) = Some p \<and>
    (\<forall>m. m \<noteq> n \<longrightarrow> (\<exists>q. map_option fst (ipc_splay_tree_lookup m s1 h1) = Some q \<and>
                       map_option fst (ipc_splay_tree_lookup m s h) = Some q))"
proof -
  from splay.ins_law [OF assms] obtain s1 h1 where
    i: "ipc_splay_tree_insert n p s h = Some (s1, h1)" "tree_holds h1 s1 (insert p X)" by blast
  with splay.ins_look [OF assms] splay.ins_look_other [OF assms] show ?thesis by fastforce
qed

theorem splay_insert_lookup_witness:
  "\<exists>s1 h1. ipc_splay_tree_insert 600 320 demo_tree demo_heap = Some (s1, h1) \<and>
    tree_holds h1 s1 {320, 64, 128, 192} \<and> map_option fst (ipc_splay_tree_lookup 600 s1 h1) = Some 320"
  using splay_insert_lookup [OF demo_holds demo_free] by blast

text \<open>C3. Deleting an entry returns, frees exactly this entry, keeps the others in order, and
  a later lookup of its name fails.\<close>

theorem splay_delete_correct:
  assumes "splay_rep h s xs" "p \<in> set xs"
  shows "\<exists>s' h'. ipc_splay_tree_delete (nm h p) p s h = Some (s', h') \<and> h' p = None \<and>
    splay_rep h' s' (remove1 p xs) \<and> links_only (set xs - {p}) (h(p := None)) h' \<and>
    map_option fst (ipc_splay_tree_lookup (nm h p) s' h') = Some 0"
proof -
  from assms obtain s' h' where d: "ipc_splay_tree_delete (nm h p) p s h = Some (s', h')"
    "splay_rep h' s' (remove1 p xs)" "links_only (set xs - {p}) (h(p := None)) h'"
    using splay_tree_delete_ok [of h s xs p "nm h p"] by metis
  have "tree_holds h s (set xs)" using assms by (auto simp: tree_holds_def)
  from splay.del_look [OF this assms(2) refl] d(1)
  have "map_option fst (ipc_splay_tree_lookup (nm h p) s' h') = Some 0" by auto
  moreover have "h' p = None" using links_only_out [OF d(3), of p] by simp
  ultimately show ?thesis using d by blast
qed

theorem splay_delete_correct_witness:
  "\<exists>s' h'. ipc_splay_tree_delete 512 128 demo_tree demo_heap = Some (s', h') \<and> h' 128 = None \<and>
    splay_rep h' s' [64, 192]"
  using splay_delete_correct [OF demo_rep, of 128] by (auto simp: demo_nm)

text \<open>C4. Splitting at a name returns; the tree keeps the entries whose names are at least the
  given name, and the other structure, whatever it held, receives those with smaller names.\<close>

theorem splay_split_correct:
  assumes "splay_rep h s xs"
  shows "\<exists>s' small' h'. ipc_splay_tree_split n s small h = Some (s', small', h') \<and>
    splay_rep h' s' (filter (\<lambda>a. n \<le> nm h a) xs) \<and>
    splay_rep h' small' (filter (\<lambda>a. nm h a < n) xs) \<and> links_only (set xs) h h'"
  using splay_tree_split_ok [OF assms, of n small] by metis

theorem splay_split_correct_witness:
  "\<exists>s' small' h'. ipc_splay_tree_split 600 demo_tree empty_tree demo_heap = Some (s', small', h') \<and>
    splay_rep h' s' [192] \<and> splay_rep h' small' [64, 128]"
  using splay_split_correct [OF demo_rep, of 600 empty_tree] by (auto simp: demo_nm)

text \<open>C5. Joining a tree with a tree of smaller names returns; the first holds all entries
  and the second none.\<close>

theorem splay_join_correct:
  assumes "splay_rep h s xs" "splay_rep h small ys"
    and "\<And>x y. x \<in> set xs \<Longrightarrow> y \<in> set ys \<Longrightarrow> nm h y < nm h x"
  shows "\<exists>s' small' h'. ipc_splay_tree_join s small h = Some (s', small', h') \<and>
    splay_rep h' s' (ys @ xs) \<and> splay_rep h' small' [] \<and> links_only (set xs \<union> set ys) h h'"
  using splay_tree_join_ok [OF assms] by metis

theorem splay_join_correct_witness:
  "\<exists>s' small' h'. ipc_splay_tree_join high_tree demo_tree high_heap = Some (s', small', h') \<and>
    splay_rep h' s' [64, 128, 192, 320] \<and> splay_rep h' small' []"
proof -
  have "nm high_heap y < nm high_heap x" if "x \<in> set [320]" "y \<in> set [64, 128, 192]" for x y
    using that by (auto simp: high_nm)
  from splay_join_correct [OF high_rep this] show ?thesis by auto
qed

text \<open>C6. The bounds of a name are the greatest name at most it and the smallest name at least
  it; the sentinel values \<open>MACH_PORT_LARGEST\<close> and \<open>MACH_PORT_SMALLEST\<close> stand for none.\<close>

theorem splay_bounds_correct:
  assumes "tree_holds h s X"
  shows "\<exists>lo up s' h'. ipc_splay_tree_bounds n s h = Some (lo, up, s', h') \<and> tree_holds h' s' X \<and>
    (if \<exists>a \<in> X. nm h a \<le> n then is_arg_max id (\<lambda>k. k \<in> nm h ` X \<and> k \<le> n) lo
     else lo = MACH_PORT_LARGEST) \<and>
    (if \<exists>a \<in> X. n \<le> nm h a then is_arg_min id (\<lambda>k. k \<in> nm h ` X \<and> n \<le> k) up
     else up = MACH_PORT_SMALLEST)"
  using splay.bnds_law [OF assms, of n] by blast

theorem splay_bounds_correct_witness:
  "\<exists>lo up s' h'. ipc_splay_tree_bounds 1000 demo_tree demo_heap = Some (lo, up, s', h') \<and>
    tree_holds h' s' {64, 128, 192} \<and> up = MACH_PORT_SMALLEST"
  using splay_bounds_correct [OF demo_holds, of 1000] by (auto simp: demo_nm)

text \<open>C7. A traversal with the start, next and finish routines visits every entry once, in
  increasing order of name, and ends; the entries removed on the way are freed, the tree holds
  the others in order, and no link of any other entry has changed.\<close>

theorem splay_traverse_correct:
  assumes "splay_rep h s xs"
  shows "\<exists>s' h'. traverse_all del s h = Some (xs, s', h') \<and>
    splay_rep h' s' (filter (\<lambda>a. \<not> del a) xs) \<and> links_only (set xs) (drop_entries del xs h) h'"
  using traverse_all_ok [OF assms, of del] by metis

theorem splay_traverse_correct_witness:
  "\<exists>s' h'. traverse_all (\<lambda>a. a = 128) demo_tree demo_heap = Some ([64, 128, 192], s', h') \<and>
    splay_rep h' s' [64, 192]"
  using splay_traverse_correct [OF demo_rep, of "\<lambda>a. a = 128"] by auto

end
