(* ===== verification/Port_Name.thy ===== *)
theory Port_Name
  imports Mach_Prelude
begin

text \<open>
  Port names, \<^verbatim>\<open>mach4/kernel/ipc/port.h\<close>, and the layout of the bits of an entry,
  \<^verbatim>\<open>ipc_entry.h\<close>. The configuration symbol \<^verbatim>\<open>PORT_GENERATIONS\<close> selects
  between names with an 8-bit generation number and names that are plain indices; it is the first
  argument \<open>g\<close> of every macro that depends on it, so all results hold for both kernels.
\<close>

section \<open>The macros\<close>

definition MACH_PORT_NULL :: u32 where "MACH_PORT_NULL = 0"
definition MACH_PORT_DEAD :: u32 where "MACH_PORT_DEAD = NOT 0"

definition MACH_PORT_VALID :: "u32 \<Rightarrow> bool" where
  "MACH_PORT_VALID n \<longleftrightarrow> n \<noteq> MACH_PORT_NULL \<and> n \<noteq> MACH_PORT_DEAD"

definition MACH_PORT_INDEX :: "bool \<Rightarrow> u32 \<Rightarrow> u32" where
  "MACH_PORT_INDEX g n = (if g then drop_bit 8 n else n)"

definition MACH_PORT_GEN :: "bool \<Rightarrow> u32 \<Rightarrow> u32" where
  "MACH_PORT_GEN g n = (if g then push_bit 24 (n AND 0xff) else 0)"

definition MACH_PORT_MAKE :: "bool \<Rightarrow> u32 \<Rightarrow> u32 \<Rightarrow> u32" where
  "MACH_PORT_MAKE g i gen = (if g then push_bit 8 i OR drop_bit 24 gen else i)"

definition MACH_PORT_NGEN :: "bool \<Rightarrow> u32 \<Rightarrow> u32" where
  "MACH_PORT_NGEN g n = MACH_PORT_MAKE g 0 (MACH_PORT_GEN g n)"

definition IE_BITS_UREFS_MASK :: u32 where "IE_BITS_UREFS_MASK = 0x0000ffff"
definition IE_BITS_TYPE_MASK :: u32 where "IE_BITS_TYPE_MASK = 0x001f0000"
definition IE_BITS_MAREQUEST :: u32 where "IE_BITS_MAREQUEST = 0x00200000"
definition IE_BITS_COMPAT :: u32 where "IE_BITS_COMPAT = 0x00400000"
definition IE_BITS_COLLISION :: u32 where "IE_BITS_COLLISION = 0x00800000"
definition IE_BITS_RIGHT_MASK :: u32 where "IE_BITS_RIGHT_MASK = 0x007fffff"

definition IE_BITS_UREFS :: "u32 \<Rightarrow> u32" where "IE_BITS_UREFS b = b AND IE_BITS_UREFS_MASK"
definition IE_BITS_TYPE :: "u32 \<Rightarrow> u32" where "IE_BITS_TYPE b = b AND IE_BITS_TYPE_MASK"

definition IE_BITS_GEN_MASK :: "bool \<Rightarrow> u32" where
  "IE_BITS_GEN_MASK g = (if g then 0xff000000 else 0)"

definition IE_BITS_GEN :: "bool \<Rightarrow> u32 \<Rightarrow> u32" where
  "IE_BITS_GEN g b = (if g then b AND IE_BITS_GEN_MASK g else 0)"

definition IE_BITS_GEN_ONE :: "bool \<Rightarrow> u32" where
  "IE_BITS_GEN_ONE g = (if g then 0x01000000 else 0)"

definition MACH_PORT_MAKEB :: "bool \<Rightarrow> u32 \<Rightarrow> u32 \<Rightarrow> u32" where
  "MACH_PORT_MAKEB g i b = MACH_PORT_MAKE g i (IE_BITS_GEN g b)"

text \<open>Types of rights, \<^verbatim>\<open>mach/port.h\<close>; each is one bit of the type field.\<close>

definition MACH_PORT_TYPE_NONE :: u32 where "MACH_PORT_TYPE_NONE = 0"
definition MACH_PORT_TYPE_SEND :: u32 where "MACH_PORT_TYPE_SEND = 0x00010000"
definition MACH_PORT_TYPE_RECEIVE :: u32 where "MACH_PORT_TYPE_RECEIVE = 0x00020000"
definition MACH_PORT_TYPE_SEND_ONCE :: u32 where "MACH_PORT_TYPE_SEND_ONCE = 0x00040000"
definition MACH_PORT_TYPE_PORT_SET :: u32 where "MACH_PORT_TYPE_PORT_SET = 0x00080000"
definition MACH_PORT_TYPE_DEAD_NAME :: u32 where "MACH_PORT_TYPE_DEAD_NAME = 0x00100000"

text \<open>User-reference arithmetic: \<^verbatim>\<open>urefs\<close> is unsigned, \<^verbatim>\<open>delta\<close> is signed,
  their sum and the comparison with \<^verbatim>\<open>urefs\<close> are unsigned.\<close>

definition MACH_PORT_UREFS_MAX :: u32 where "MACH_PORT_UREFS_MAX = push_bit 16 1 - 1"

definition MACH_PORT_UREFS_OVERFLOW :: "u32 \<Rightarrow> u32 \<Rightarrow> bool" where
  "MACH_PORT_UREFS_OVERFLOW urefs delta \<longleftrightarrow> 0 < sint delta \<and>
     (urefs + delta \<le> urefs \<or> MACH_PORT_UREFS_MAX < urefs + delta)"

definition MACH_PORT_UREFS_UNDERFLOW :: "u32 \<Rightarrow> u32 \<Rightarrow> bool" where
  "MACH_PORT_UREFS_UNDERFLOW urefs delta \<longleftrightarrow> sint delta < 0 \<and> urefs < - delta"

section \<open>Facts on the layout\<close>

lemma unat_index: "g \<Longrightarrow> unat (MACH_PORT_INDEX g n) = unat n div 256"
  by (simp add: MACH_PORT_INDEX_def drop_bit_eq_div unat_div)

lemma max_index: "unat (MACH_PORT_INDEX g n) < (if g then 2 ^ 24 else 2 ^ 32)"
  using unsigned_less [of n] unat_index [of g n]
  by (cases g) (auto simp: MACH_PORT_INDEX_def)

lemma index_mono: "a \<le> b \<Longrightarrow> MACH_PORT_INDEX g a \<le> MACH_PORT_INDEX g b"
  by (cases g) (simp_all add: word_le_nat_alt unat_index div_le_mono MACH_PORT_INDEX_def [of False])

lemma index_convex:
  "MACH_PORT_INDEX g a = MACH_PORT_INDEX g c \<Longrightarrow> (a \<le> b \<and> b \<le> c) \<or> (c \<le> b \<and> b \<le> a) \<Longrightarrow>
   MACH_PORT_INDEX g b = MACH_PORT_INDEX g c"
  by (metis antisym index_mono)

lemma and_ff: "(n :: u32) AND 0xff = take_bit 8 n"
  by (simp add: take_bit_eq_mask mask_eq_exp_minus_1)

lemmas bit_at = bit_or_iff bit_and_iff bit_push_bit_iff bit_drop_bit_eq bit_take_bit_iff

lemma make_bits: "bit (push_bit 8 i OR drop_bit 24 gen) k \<longleftrightarrow>
    k < 32 \<and> (if 8 \<le> k then bit i (k - 8) else bit gen (24 + k))" for i gen :: u32
  using bit_imp_le_length [of gen "24 + k"] bit_imp_le_length [of "push_bit 8 i" k]
  by (auto simp: bit_at)

lemma make_of_name: "MACH_PORT_MAKE g (MACH_PORT_INDEX g n) (MACH_PORT_GEN g n) = n"
proof (cases g)
  case True
  have "bit (push_bit 8 (drop_bit 8 n) OR drop_bit 24 (push_bit 24 (take_bit 8 n))) k = bit n k" for k
    using bit_imp_le_length [of n k] unfolding make_bits
    by (auto simp: bit_at)
  then have "push_bit 8 (drop_bit 8 n) OR drop_bit 24 (push_bit 24 (take_bit 8 n)) = n"
    by (rule bit_eqI)
  with True show ?thesis by (simp add: MACH_PORT_MAKE_def MACH_PORT_INDEX_def MACH_PORT_GEN_def and_ff)
qed (simp add: MACH_PORT_MAKE_def MACH_PORT_INDEX_def)

lemma name_eqI:
  "MACH_PORT_INDEX g a = MACH_PORT_INDEX g b \<Longrightarrow> MACH_PORT_GEN g a = MACH_PORT_GEN g b \<Longrightarrow> a = b"
  by (metis make_of_name)

text \<open>An index that fits: the tables never grow beyond this.\<close>

definition index_fits :: "bool \<Rightarrow> u32 \<Rightarrow> bool" where
  "index_fits g i \<longleftrightarrow> (g \<longrightarrow> unat i < 2 ^ 24)"

lemma index_of_make: "index_fits g i \<Longrightarrow> MACH_PORT_INDEX g (MACH_PORT_MAKE g i gen) = i"
proof (cases g)
  case True
  assume "index_fits g i"
  then have lt: "unat i < 2 ^ 24" using True by (simp add: index_fits_def)
  have "bit (drop_bit 8 (push_bit 8 i OR drop_bit 24 gen)) k = bit i k" for k
    using lt [unfolded unat_less_bits, rule_format, of k] unfolding bit_drop_bit_eq comp_def make_bits by auto
  then have "drop_bit 8 (push_bit 8 i OR drop_bit 24 gen) = i" by (rule bit_eqI)
  with True show ?thesis by (simp add: MACH_PORT_INDEX_def MACH_PORT_MAKE_def)
qed (simp add: MACH_PORT_INDEX_def MACH_PORT_MAKE_def)

lemma make_0_le: "index_fits g i \<Longrightarrow> MACH_PORT_MAKE g i 0 \<le> n \<longleftrightarrow> i \<le> MACH_PORT_INDEX g n"
proof (cases g)
  case True
  assume "index_fits g i"
  then have "unat i * 256 < 2 ^ 32" using True by (simp add: index_fits_def)
  then have "unat (i * 256) = unat i * 256"
    by (subst unat_word_ariths) simp
  then show ?thesis
    using True by (simp add: MACH_PORT_MAKE_def word_le_nat_alt unat_index push_bit_eq_mult less_eq_div_iff_mult_less_eq)
qed (simp add: MACH_PORT_INDEX_def MACH_PORT_MAKE_def)

lemma gen_mask_bits: "bit (0xff000000 :: u32) k \<longleftrightarrow> 24 \<le> k \<and> k < 32"
proof -
  have "(0xff000000 :: u32) = push_bit 24 (mask 8)" by (simp add: push_bit_eq_mult mask_eq_exp_minus_1)
  then show ?thesis by (simp only: bit_push_bit_iff bit_mask_iff) auto
qed

lemma gen_of_make: "MACH_PORT_GEN g (MACH_PORT_MAKE g i gen) = IE_BITS_GEN g gen"
proof (cases g)
  case True
  have "bit (push_bit 24 (take_bit 8 (push_bit 8 i OR drop_bit 24 gen))) k = bit (gen AND 0xff000000) k" for k
    using bit_imp_le_length [of gen k]
    unfolding bit_push_bit_iff bit_take_bit_iff make_bits bit_and_iff gen_mask_bits by auto
  then have "push_bit 24 (take_bit 8 (push_bit 8 i OR drop_bit 24 gen)) = gen AND 0xff000000"
    by (rule bit_eqI)
  with True show ?thesis
    by (simp add: MACH_PORT_GEN_def MACH_PORT_MAKE_def IE_BITS_GEN_def IE_BITS_GEN_MASK_def and_ff)
qed (simp add: MACH_PORT_GEN_def IE_BITS_GEN_def)

section \<open>User-reference arithmetic\<close>

lemma sint_cases: "sint d = (if uint d < 2 ^ 31 then uint d else uint d - 2 ^ 32)" for d :: u32
proof -
  have "sint d = signed_take_bit 31 (uint d)" by (simp add: sint_uint)
  also have "\<dots> = (if uint d < 2 ^ 31 then uint d else uint d - 2 ^ 32)"
  proof -
    have lt: "uint d < 2 ^ 32" "0 \<le> uint d" using uint_lt2p [of d] by simp_all
    have "signed_take_bit 31 (uint d) = (uint d + 2 ^ 31) mod 2 ^ 32 - 2 ^ 31"
      by (simp add: signed_take_bit_eq_take_bit_shift take_bit_eq_mod)
    moreover have "(uint d + 2 ^ 31) mod 2 ^ 32 = (if uint d < 2 ^ 31 then uint d + 2 ^ 31 else uint d - 2 ^ 31)"
    proof (cases "uint d < 2 ^ 31")
      case False
      then have "(uint d + 2 ^ 31) mod 2 ^ 32 = (uint d + 2 ^ 31 - 2 ^ 32) mod 2 ^ 32"
        by (simp only: minus_mod_self2)
      also have "\<dots> = uint d + 2 ^ 31 - 2 ^ 32" using False lt by (intro mod_pos_pos_trivial) auto
      finally show ?thesis using False by simp
    qed (use lt in \<open>simp add: mod_pos_pos_trivial\<close>)
    ultimately show ?thesis by (cases "uint d < 2 ^ 31") simp_all
  qed
  finally show ?thesis .
qed

lemma uint_neg: "uint (- d) = (if d = 0 then 0 else 2 ^ 32 - uint d)" for d :: u32
proof (cases "d = 0")
  case False
  then have "0 < uint d" "uint d < 2 ^ 32" using uint_lt2p [of d] uint_ge_0 [of d] uint_0_iff [of d] by (simp, linarith, simp)
  moreover have "uint (- d) = (- uint d) mod 2 ^ 32" by (simp add: uint_word_ariths)
  moreover have "(- uint d) mod 2 ^ 32 = (2 ^ 32 - uint d) mod 2 ^ 32" by simp
  moreover have "(2 ^ 32 - uint d) mod 2 ^ 32 = 2 ^ 32 - uint d"
    using calculation(1,2) by (intro mod_pos_pos_trivial) auto
  ultimately show ?thesis using False by simp
qed simp

lemma urefs_max: "uint MACH_PORT_UREFS_MAX = 65535"
  by (simp add: MACH_PORT_UREFS_MAX_def)

text \<open>C8. For a count that fits its 16 bits and any signed 32-bit change, the overflow and
  underflow tests, computed with wrapping unsigned arithmetic, hold exactly when the mathematical
  sum leaves the range from 0 to 65535.\<close>

theorem urefs_range:
  assumes "u \<le> MACH_PORT_UREFS_MAX"
  shows "(MACH_PORT_UREFS_OVERFLOW u d \<longleftrightarrow> 65535 < uint u + sint d) \<and>
         (MACH_PORT_UREFS_UNDERFLOW u d \<longleftrightarrow> uint u + sint d < 0)"
proof -
  have u: "uint u \<le> 65535" "0 \<le> uint u" using assms by (simp_all add: word_le_def urefs_max)
  have d: "0 \<le> uint d" "uint d < 2 ^ 32" using uint_lt2p [of d] by simp_all
  have sum: "uint (u + d) = (if uint u + uint d < 2 ^ 32 then uint u + uint d else uint u + uint d - 2 ^ 32)"
    using uint_plus_if' [of u d] by simp
  have "MACH_PORT_UREFS_OVERFLOW u d \<longleftrightarrow> 65535 < uint u + sint d"
    using u d unfolding MACH_PORT_UREFS_OVERFLOW_def word_le_def word_less_def sum urefs_max sint_cases
    by auto
  moreover have "MACH_PORT_UREFS_UNDERFLOW u d \<longleftrightarrow> uint u + sint d < 0"
    using u d unfolding MACH_PORT_UREFS_UNDERFLOW_def word_less_def uint_neg sint_cases
    by (cases "d = 0"; cases "uint d < 2 ^ 31")
      (auto dest: order.strict_trans1 [OF u(2)] simp: less_diff_eq add.commute add_nonneg_nonneg not_less)
  ultimately show ?thesis by blast
qed

theorem urefs_range_witness:
  "\<not> MACH_PORT_UREFS_OVERFLOW 5 65530 \<and> MACH_PORT_UREFS_OVERFLOW 5 65531 \<and>
   \<not> MACH_PORT_UREFS_UNDERFLOW 5 (- 5) \<and> MACH_PORT_UREFS_UNDERFLOW 5 (- 6)"
proof -
  have "(5 :: u32) \<le> MACH_PORT_UREFS_MAX" by (simp add: word_le_def urefs_max)
  from urefs_range [OF this, of 65530] urefs_range [OF this, of 65531]
    urefs_range [OF this, of "- 5"] urefs_range [OF this, of "- 6"]
  show ?thesis by (simp add: sint_cases)
qed

text \<open>C9. Making a name from an index that fits and a generation number, and taking a name
  apart, are inverse; the names of an index form a block, and blocks are ordered by index, as the
  splits of the tree at \<open>MACH_PORT_MAKE index 0\<close> need.\<close>

theorem name_roundtrip:
  assumes "index_fits g i"
  shows "MACH_PORT_INDEX g (MACH_PORT_MAKE g i gen) = i \<and>
    MACH_PORT_GEN g (MACH_PORT_MAKE g i gen) = IE_BITS_GEN g gen \<and>
    MACH_PORT_MAKE g (MACH_PORT_INDEX g n) (MACH_PORT_GEN g n) = n \<and>
    (MACH_PORT_MAKE g i 0 \<le> n \<longleftrightarrow> i \<le> MACH_PORT_INDEX g n)"
  using assms by (simp add: index_of_make gen_of_make make_of_name make_0_le)

theorem name_roundtrip_witness:
  "MACH_PORT_INDEX True (MACH_PORT_MAKE True 5 0x03000000) = 5 \<and>
   MACH_PORT_GEN True (MACH_PORT_MAKE True 5 0x03000000) = IE_BITS_GEN True 0x03000000"
  using name_roundtrip [of True 5 "0x03000000" 0] by (simp add: index_fits_def)

end
