(* ===== verification/Space.thy ===== *)
theory Space
  imports Splay Port_Name
begin

text \<open>
  The state of an IPC space: \<^verbatim>\<open>struct ipc_entry\<close> of \<^verbatim>\<open>ipc_entry.h\<close> and
  \<^verbatim>\<open>struct ipc_space\<close> of \<^verbatim>\<open>ipc_space.h\<close>.

  The two unions of an entry are one field each: \<open>ie_request\<close> is also \<^verbatim>\<open>ie_next\<close>,
  the link of the free list; \<open>ie_index\<close> is the slot of the local reverse hash table. An
  \<^verbatim>\<open>ipc_entry_t\<close> points into the table of a space or to an entry of its tree. A space
  carries its own address, which the global hash table uses as part of the key.
\<close>

record ipc_entry =
  ie_bits :: u32
  ie_object :: ptr
  ie_request :: u32
  ie_index :: u32

abbreviation (input) ie_next :: "ipc_entry \<Rightarrow> u32" where "ie_next \<equiv> ie_request"

datatype ipc_entry_t = IE_NULL | Table_entry nat | Tree_entry ptr

record ipc_space =
  is_addr :: ptr
  is_references :: u32
  is_active :: bool
  is_growing :: bool
  is_table :: "ipc_entry list"
  is_table_size :: u32
  is_table_next :: nat
  is_tree :: ipc_splay_tree
  is_tree_total :: u32
  is_tree_small :: u32
  is_tree_hash :: u32
  is_notify :: ptr

abbreviation (input) IO_NULL :: ptr where "IO_NULL \<equiv> 0"
abbreviation (input) IS_NULL :: ptr where "IS_NULL \<equiv> 0"

text \<open>Table accesses; an index outside the table is \<open>None\<close>.\<close>

definition tab_get :: "ipc_entry list \<Rightarrow> nat \<Rightarrow> ipc_entry option" where
  "tab_get t i = (if i < length t then Some (t ! i) else None)"

definition tab_upd :: "nat \<Rightarrow> (ipc_entry \<Rightarrow> ipc_entry) \<Rightarrow> ipc_entry list \<Rightarrow> ipc_entry list option" where
  "tab_upd i f t = (if i < length t then Some (t[i := f (t ! i)]) else None)"

lemma tab_get_Some [simp]: "i < length t \<Longrightarrow> tab_get t i = Some (t ! i)"
  by (simp add: tab_get_def)

lemma tab_upd_Some [simp]: "i < length t \<Longrightarrow> tab_upd i f t = Some (t[i := f (t ! i)])"
  by (simp add: tab_upd_def)

end
