(* ===== verification/Hash_Local.thy ===== *)
theory Hash_Local
  imports Space
begin

text \<open>
  The local reverse hash table of a space, second half of
  \<^verbatim>\<open>mach4/kernel/ipc/ipc_hash.c\<close>: open addressing with linear probing in the field
  \<open>ie_index\<close> of the table. Slots hold indices of the table, 0 marks an empty slot.

  Slot numbers are natural numbers: they stay below the size of the table, so the increments of
  the source do not wrap around.
\<close>

section \<open>Operations\<close>

definition IH_LOCAL_HASH :: "ptr \<Rightarrow> nat \<Rightarrow> nat" where
  "IH_LOCAL_HASH obj sz = unat (drop_bit 6 obj) mod sz"

text \<open>\<^verbatim>\<open>if (++hindex == size) hindex = 0;\<close>\<close>

definition next_slot :: "nat \<Rightarrow> nat \<Rightarrow> nat" where
  "next_slot sz i = (if Suc i = sz then 0 else Suc i)"

partial_function (option) local_lookup_loop ::
  "ipc_entry list \<Rightarrow> nat \<Rightarrow> ptr \<Rightarrow> nat \<Rightarrow> u32 option option" where
  "local_lookup_loop table sz obj hindex = do {
     slot \<leftarrow> tab_get table hindex;
     let index = ie_index slot;
     if index \<noteq> 0 then do {
       entry \<leftarrow> tab_get table (unat index);
       if ie_object entry = obj then Some (Some index)
       else local_lookup_loop table sz obj (next_slot sz hindex) }
     else Some None }"

definition ipc_hash_local_lookup :: "bool \<Rightarrow> ipc_space \<Rightarrow> ptr \<Rightarrow> (u32 \<times> ipc_entry_t) option option" where
  "ipc_hash_local_lookup g space obj = do {
     oassert (is_addr space \<noteq> IS_NULL);
     oassert (obj \<noteq> IO_NULL);
     let table = is_table space;
     let sz = unat (is_table_size space);
     r \<leftarrow> local_lookup_loop table sz obj (IH_LOCAL_HASH obj sz);
     case r of
       None \<Rightarrow> Some None
     | Some index \<Rightarrow> do {
         entry \<leftarrow> tab_get table (unat index);
         Some (Some (MACH_PORT_MAKEB g index (ie_bits entry), Table_entry (unat index))) } }"

partial_function (option) local_insert_loop :: "ipc_entry list \<Rightarrow> nat \<Rightarrow> nat \<Rightarrow> nat option" where
  "local_insert_loop table sz hindex = do {
     slot \<leftarrow> tab_get table hindex;
     if ie_index slot \<noteq> 0 then local_insert_loop table sz (next_slot sz hindex)
     else Some hindex }"

definition ipc_hash_local_insert ::
  "ipc_space \<Rightarrow> ptr \<Rightarrow> u32 \<Rightarrow> ipc_entry_t \<Rightarrow> ipc_space option" where
  "ipc_hash_local_insert space obj index entry = do {
     oassert (index \<noteq> 0);
     oassert (is_addr space \<noteq> IS_NULL);
     oassert (obj \<noteq> IO_NULL);
     let table = is_table space;
     let sz = unat (is_table_size space);
     oassert (entry = Table_entry (unat index));
     e \<leftarrow> tab_get table (unat index);
     oassert (ie_object e = obj);
     hindex \<leftarrow> local_insert_loop table sz (IH_LOCAL_HASH obj sz);
     table \<leftarrow> tab_upd hindex (\<lambda>e. e\<lparr>ie_index := index\<rparr>) table;
     Some (space\<lparr>is_table := table\<rparr>) }"

text \<open>The search for the slot of an index. \<open>None\<close> inside: the index is not in the hash table
  (the source prints a message and returns).\<close>

partial_function (option) local_find_loop ::
  "ipc_entry list \<Rightarrow> nat \<Rightarrow> u32 \<Rightarrow> nat \<Rightarrow> nat option option" where
  "local_find_loop table sz index hindex = do {
     slot \<leftarrow> tab_get table hindex;
     if ie_index slot \<noteq> index then
       (if ie_index slot = 0 then Some None
        else local_find_loop table sz index (next_slot sz hindex))
     else Some (Some hindex) }"

text \<open>The inner loop of the deletion: advance \<open>dindex\<close> to the end of the clump or to an object
  that is displaced across the hole.\<close>

partial_function (option) local_delete_scan ::
  "ipc_entry list \<Rightarrow> nat \<Rightarrow> nat \<Rightarrow> nat \<Rightarrow> (nat \<times> u32) option" where
  "local_delete_scan table sz hindex dindex = do {
     let dindex = next_slot sz dindex;
     oassert (dindex \<noteq> hindex);
     slot \<leftarrow> tab_get table dindex;
     let index = ie_index slot;
     if index = 0 then Some (dindex, index)
     else do {
       tentry \<leftarrow> tab_get table (unat index);
       let tobj = ie_object tentry;
       oassert (tobj \<noteq> IO_NULL);
       let tindex = IH_LOCAL_HASH tobj sz;
       if (if dindex < hindex then dindex < tindex \<and> tindex \<le> hindex
           else dindex < tindex \<or> tindex \<le> hindex)
       then Some (dindex, index)
       else local_delete_scan table sz hindex dindex } }"

partial_function (option) local_delete_loop ::
  "ipc_entry list \<Rightarrow> nat \<Rightarrow> u32 \<Rightarrow> nat \<Rightarrow> nat \<Rightarrow> ipc_entry list option" where
  "local_delete_loop table sz index hindex dindex =
     (if index \<noteq> 0 then do {
        (dindex, index) \<leftarrow> local_delete_scan table sz hindex dindex;
        table \<leftarrow> tab_upd hindex (\<lambda>e. e\<lparr>ie_index := index\<rparr>) table;
        local_delete_loop table sz index dindex dindex }
      else Some table)"

definition ipc_hash_local_delete ::
  "ipc_space \<Rightarrow> ptr \<Rightarrow> u32 \<Rightarrow> ipc_entry_t \<Rightarrow> ipc_space option" where
  "ipc_hash_local_delete space obj index entry = do {
     oassert (index \<noteq> MACH_PORT_NULL);
     oassert (is_addr space \<noteq> IS_NULL);
     oassert (obj \<noteq> IO_NULL);
     let table = is_table space;
     let sz = unat (is_table_size space);
     oassert (entry = Table_entry (unat index));
     e \<leftarrow> tab_get table (unat index);
     oassert (ie_object e = obj);
     r \<leftarrow> local_find_loop table sz index (IH_LOCAL_HASH obj sz);
     case r of
       None \<Rightarrow> Some space
     | Some hindex \<Rightarrow> do {
         table \<leftarrow> local_delete_loop table sz index hindex hindex;
         Some (space\<lparr>is_table := table\<rparr>) } }"

end
