(* ===== verification/Hash_Local_Correct.thy ===== *)
theory Hash_Local_Correct
  imports Hash_Local
begin

text \<open>
  Correctness of the local reverse hash table. \<open>local_hash t S\<close>: the slots of table \<open>t\<close> hold
  exactly the indices \<open>S\<close>, each once, and between the home slot of an index and the slot it is in
  there is no empty slot. There is always an empty slot, because index 0 is never stored: every
  probe ends.
\<close>

section \<open>Cyclic distance\<close>

text \<open>The number of steps from slot \<open>a\<close> forward to slot \<open>b\<close> of \<open>n\<close> slots.\<close>

definition dist :: "nat \<Rightarrow> nat \<Rightarrow> nat \<Rightarrow> nat" where
  "dist n a b = (if a \<le> b then b - a else b + n - a)"

lemma next_slot_lt: "i < n \<Longrightarrow> next_slot n i < n"
  by (auto simp: next_slot_def)

lemma dist_self [simp]: "dist n a a = 0"
  by (simp add: dist_def)

lemma dist_lt: "a < n \<Longrightarrow> b < n \<Longrightarrow> dist n a b < n"
  by (auto simp: dist_def)

lemma dist_0 [simp]: "a < n \<Longrightarrow> b < n \<Longrightarrow> dist n a b = 0 \<longleftrightarrow> a = b"
  by (auto simp: dist_def)

lemma dist_next:
  "a < n \<Longrightarrow> b < n \<Longrightarrow> next_slot n b \<noteq> a \<Longrightarrow> dist n a (next_slot n b) = Suc (dist n a b)"
  by (auto simp: dist_def next_slot_def)

lemma dist_next_ne: "a < n \<Longrightarrow> b < n \<Longrightarrow> e < n \<Longrightarrow> dist n a b < dist n a e \<Longrightarrow> next_slot n b \<noteq> a"
  by (auto simp: dist_def next_slot_def split: if_splits)

lemma dist_inj: "a < n \<Longrightarrow> b < n \<Longrightarrow> c < n \<Longrightarrow> dist n a b = dist n a c \<Longrightarrow> b = c"
  by (auto simp: dist_def split: if_splits)

lemma dist_before_next:
  assumes "a < n" "b < n" "m < n" "next_slot n b \<noteq> a" "dist n a m < dist n a (next_slot n b)"
  shows "m = b \<or> dist n a m < dist n a b"
  using assms dist_next [of a n b] dist_inj [of a n m b] by (auto simp: less_Suc_eq)

lemma dist_flip:
  assumes "k < n" "m < n" "a < n"
  shows "dist n k m \<le> dist n a m \<longleftrightarrow> dist n a k \<le> dist n a m"
  using assms by (auto simp: dist_def)

text \<open>The test of the deletion loop: is the home slot \<open>t\<close> outside the slots after the hole
  \<open>h\<close> up to \<open>d\<close>?\<close>

lemma displaced_iff:
  assumes "h < n" "d < n" "t < n" "d \<noteq> h"
  shows "(if d < h then d < t \<and> t \<le> h else d < t \<or> t \<le> h) \<longleftrightarrow> dist n h d \<le> dist n t d"
  using assms by (auto simp: dist_def)

section \<open>The representation\<close>

definition slot :: "ipc_entry list \<Rightarrow> nat \<Rightarrow> nat" where
  "slot t j = unat (ie_index (t ! j))"

lemma slot_0: "slot t j = 0 \<longleftrightarrow> ie_index (t ! j) = 0"
  by (simp add: slot_def unat_0_iff)

definition home :: "ipc_entry list \<Rightarrow> nat \<Rightarrow> nat" where
  "home t i = IH_LOCAL_HASH (ie_object (t ! i)) (length t)"

text \<open>No empty slot from the home of an index up to its slot.\<close>

definition clumped :: "nat \<Rightarrow> (nat \<Rightarrow> nat) \<Rightarrow> (nat \<Rightarrow> nat) \<Rightarrow> bool" where
  "clumped n hm f \<longleftrightarrow> (\<forall>j < n. f j \<noteq> 0 \<longrightarrow> (\<forall>m < n. dist n m j \<le> dist n (hm (f j)) j \<longrightarrow> f m \<noteq> 0))"

definition slots_ok :: "nat \<Rightarrow> (nat \<Rightarrow> nat) \<Rightarrow> nat set \<Rightarrow> bool" where
  "slots_ok n f S \<longleftrightarrow> (\<forall>j < n. f j < n) \<and> inj_on f {j. j < n \<and> f j \<noteq> 0} \<and> S = f ` {..<n} - {0}"

definition local_hash :: "ipc_entry list \<Rightarrow> nat set \<Rightarrow> bool" where
  "local_hash t S \<longleftrightarrow> t \<noteq> [] \<and> slots_ok (length t) (slot t) S \<and>
     clumped (length t) (home t) (slot t) \<and>
     (\<forall>i \<in> S. ie_object (t ! i) \<noteq> IO_NULL) \<and> inj_on (\<lambda>i. ie_object (t ! i)) S"

lemma empty_slot:
  assumes "slots_ok n f S" "0 < n"
  shows "\<exists>e < n. f e = 0"
proof (rule ccontr)
  assume "\<not> ?thesis"
  then have nz: "\<forall>j < n. f j \<noteq> 0" by auto
  then have "{j. j < n \<and> f j \<noteq> 0} = {..<n}" by auto
  then have "inj_on f {..<n}" using assms(1) by (simp add: slots_ok_def)
  moreover have "f ` {..<n} \<subseteq> {1..<n}" using nz assms(1) by (force simp: slots_ok_def)
  ultimately have "card {..<n} \<le> card {1..<n}" by (rule card_inj_on_le) simp
  with assms(2) show False by simp
qed

lemma hash_lt: "0 < n \<Longrightarrow> IH_LOCAL_HASH obj n < n"
  by (simp add: IH_LOCAL_HASH_def)

lemma home_lt: "t \<noteq> [] \<Longrightarrow> home t i < length t"
  by (simp add: home_def hash_lt)

lemma stored_slot: "slots_ok n f S \<Longrightarrow> i \<in> S \<Longrightarrow> \<exists>j < n. f j = i \<and> i \<noteq> 0 \<and> i < n"
  by (force simp: slots_ok_def)

text \<open>Probing from the home of a stored index meets no empty slot before the index.\<close>

lemma probe_reaches:
  assumes "clumped n hm f" "j < n" "f j \<noteq> 0" "hm (f j) < n" "m < n"
    "dist n (hm (f j)) m \<le> dist n (hm (f j)) j"
  shows "f m \<noteq> 0"
proof -
  have "dist n m j \<le> dist n (hm (f j)) j" 
    using dist_flip [OF assms(5,2,4)] assms(6) by blast
  then show ?thesis using assms unfolding clumped_def by blast
qed

section \<open>Probing\<close>

text \<open>All loops that only search have this shape: step to the next slot until a stopping
  condition holds. If it holds anywhere, the loop ends at the first slot where it does.\<close>

lemma probe_from:
  assumes an: "a < n" and e: "e < n" "stop e"
    and fin: "\<And>j. j < n \<Longrightarrow> stop j \<Longrightarrow> L j = Some (res j)"
    and step: "\<And>j. j < n \<Longrightarrow> \<not> stop j \<Longrightarrow> L j = L (next_slot n j)"
    and j: "j < n" "dist n a j \<le> dist n a e" "\<And>k. k < n \<Longrightarrow> dist n a k < dist n a j \<Longrightarrow> \<not> stop k"
  shows "\<exists>m < n. L j = Some (res m) \<and> stop m \<and> (\<forall>k < n. dist n a k < dist n a m \<longrightarrow> \<not> stop k)"
  using j
proof (induction "dist n a e - dist n a j" arbitrary: j rule: less_induct)
  case less
  show ?case
  proof (cases "stop j")
    case True
    then show ?thesis using fin less.prems by blast
  next
    case False
    have "dist n a j \<noteq> dist n a e" using dist_inj [OF an less.prems(1) e(1)] False e(2) by auto
    then have lt: "dist n a j < dist n a e" using less.prems(2) by simp
    have ne: "next_slot n j \<noteq> a" by (rule dist_next_ne [OF an less.prems(1) e(1) lt])
    have "\<not> stop k" if k: "k < n" "dist n a k < dist n a (next_slot n j)" for k
      using dist_before_next [OF an less.prems(1) k(1) ne k(2)] False less.prems(3) k(1) by auto
    moreover have "dist n a e - dist n a (next_slot n j) < dist n a e - dist n a j"
      "next_slot n j < n" "dist n a (next_slot n j) \<le> dist n a e"
      using lt dist_next [OF an less.prems(1) ne] next_slot_lt [OF less.prems(1)] by simp_all
    ultimately show ?thesis unfolding step [OF less.prems(1) False] by (intro less.hyps)
  qed
qed

lemma probe_loop:
  assumes "a < n" "e < n" "stop e"
    and "\<And>j. j < n \<Longrightarrow> stop j \<Longrightarrow> L j = Some (res j)"
    and "\<And>j. j < n \<Longrightarrow> \<not> stop j \<Longrightarrow> L j = L (next_slot n j)"
  shows "\<exists>m < n. L a = Some (res m) \<and> stop m \<and> (\<forall>k < n. dist n a k < dist n a m \<longrightarrow> \<not> stop k)"
  using assms by (intro probe_from [where e = e]) auto

section \<open>Lookup\<close>

lemma local_lookup_ok:
  assumes "local_hash t S"
  shows "\<exists>r. local_lookup_loop t (length t) obj (IH_LOCAL_HASH obj (length t)) = Some r \<and>
    (case r of Some i \<Rightarrow> unat i \<in> S \<and> ie_object (t ! unat i) = obj
     | None \<Rightarrow> \<forall>i \<in> S. ie_object (t ! i) \<noteq> obj)"
proof -
  let ?n = "length t" and ?a = "IH_LOCAL_HASH obj (length t)"
  let ?stop = "\<lambda>j. slot t j = 0 \<or> ie_object (t ! slot t j) = obj"
  have t: "t \<noteq> []" "slots_ok ?n (slot t) S" "clumped ?n (home t) (slot t)"
    using assms by (auto simp: local_hash_def)
  have an: "?a < ?n" using t(1) by (simp add: hash_lt)
  have sl: "slot t j < ?n" if "j < ?n" for j using t(2) that by (simp add: slots_ok_def)
  from empty_slot [OF t(2)] t(1) obtain e where e: "e < ?n" "slot t e = 0" by auto
  have "\<exists>m < ?n. local_lookup_loop t ?n obj ?a =
      Some (if slot t m = 0 then None else Some (ie_index (t ! m))) \<and> ?stop m \<and>
      (\<forall>k < ?n. dist ?n ?a k < dist ?n ?a m \<longrightarrow> \<not> ?stop k)"
  proof (rule probe_loop [OF an e(1)])
    fix j assume j: "j < ?n"
    note st = local_lookup_loop.simps [of t ?n obj j] sl [OF j] j
    show "local_lookup_loop t ?n obj j = Some (if slot t j = 0 then None else Some (ie_index (t ! j)))"
      if "?stop j" using that st slot_0 [of t j] by (auto simp: slot_def Let_def)
    show "local_lookup_loop t ?n obj j = local_lookup_loop t ?n obj (next_slot ?n j)"
      if "\<not> ?stop j" using that st slot_0 [of t j] by (auto simp: slot_def Let_def)
  qed (use e in simp)
  then obtain m where m: "m < ?n" "?stop m" "\<forall>k < ?n. dist ?n ?a k < dist ?n ?a m \<longrightarrow> \<not> ?stop k"
    "local_lookup_loop t ?n obj ?a = Some (if slot t m = 0 then None else Some (ie_index (t ! m)))"
    by blast
  show ?thesis
  proof (cases "slot t m = 0")
    case True
    have "ie_object (t ! i) \<noteq> obj" if iS: "i \<in> S" for i
    proof
      assume o: "ie_object (t ! i) = obj"
      from stored_slot [OF t(2) iS] obtain k where k: "k < ?n" "slot t k = i" "i \<noteq> 0" by blast
      have hk: "home t (slot t k) = ?a" using o k by (simp add: home_def)
      have "\<not> dist ?n ?a m \<le> dist ?n ?a k"
        using probe_reaches [OF t(3) k(1) _ _ m(1)] k True hk an by force
      then show False using m(3) k(1,2) o by auto
    qed
    with m(4) True show ?thesis by simp
  next
    case False
    then have "slot t m \<in> S" using t(2) m(1) by (auto simp: slots_ok_def)
    with m False show ?thesis by (simp add: slot_def)
  qed
qed

section \<open>Writing a slot\<close>

abbreviation set_slot :: "nat \<Rightarrow> u32 \<Rightarrow> ipc_entry list \<Rightarrow> ipc_entry list" where
  "set_slot m v t \<equiv> t[m := (t ! m)\<lparr>ie_index := v\<rparr>]"

text \<open>The table without the slots: what the hash operations leave alone.\<close>

definition noslots :: "ipc_entry list \<Rightarrow> ipc_entry list" where
  "noslots t = map (\<lambda>e. e\<lparr>ie_index := 0\<rparr>) t"

lemma noslots_length: "noslots t' = noslots t \<Longrightarrow> length t' = length t"
  by (metis length_map noslots_def)

lemma noslots_nth:
  assumes "noslots t' = noslots t" "i < length t"
  shows "(t' ! i)\<lparr>ie_index := 0\<rparr> = (t ! i)\<lparr>ie_index := 0\<rparr>"
  using arg_cong [OF assms(1), of "\<lambda>x. x ! i"] assms(2) noslots_length [OF assms(1)]
  by (simp add: noslots_def)

lemma noslots_fields:
  assumes "noslots t' = noslots t" "i < length t"
  shows "ie_object (t' ! i) = ie_object (t ! i)" "ie_bits (t' ! i) = ie_bits (t ! i)"
    "ie_request (t' ! i) = ie_request (t ! i)"
  using noslots_nth [OF assms] by (metis ipc_entry.select_convs ipc_entry.surjective ipc_entry.update_convs(4))+

lemma noslots_set_slot: "noslots (set_slot m v t) = noslots t"
proof (cases "m < length t")
  case True
  then show ?thesis by (intro nth_equalityI) (auto simp: noslots_def nth_list_update)
qed (simp add: list_update_beyond)

lemma slot_set_slot: "m < length t \<Longrightarrow> slot (set_slot m v t) = (slot t)(m := unat v)"
  by (auto simp: slot_def nth_list_update)

lemma home_noslots: "noslots t' = noslots t \<Longrightarrow> i < length t \<Longrightarrow> home t' i = home t i"
  by (metis home_def noslots_fields(1) noslots_length)

section \<open>Insertion\<close>

lemma local_insert_loop_ok:
  assumes "a < length t" "e < length t" "slot t e = 0"
  shows "\<exists>m < length t. local_insert_loop t (length t) a = Some m \<and> slot t m = 0 \<and>
    (\<forall>k < length t. dist (length t) a k < dist (length t) a m \<longrightarrow> slot t k \<noteq> 0)"
  by (rule probe_loop [OF assms(1,2)])
    (use assms(3) in \<open>auto simp: slot_0 local_insert_loop.simps [of t "length t" j for j]\<close>)

lemma slots_ok_insert:
  assumes "slots_ok n f S" "m < n" "f m = 0" "i < n" "i \<noteq> 0" "i \<notin> S"
  shows "slots_ok n (f(m := i)) (insert i S)"
  unfolding slots_ok_def
proof (intro conjI)
  have fi: "f j \<noteq> i" if "j < n" for j using assms that by (auto simp: slots_ok_def)
  have "inj_on f {j. j < n \<and> f j \<noteq> 0}" using assms(1) by (simp add: slots_ok_def)
  then show "inj_on (f(m := i)) {j. j < n \<and> (f(m := i)) j \<noteq> 0}"
    using fi unfolding inj_on_def by (auto split: if_splits; metis)
  show "\<forall>j<n. (f(m := i)) j < n" using assms by (auto simp: slots_ok_def)
  have "{..<n} = insert m ({..<n} - {m})" using assms(2) by (simp add: insert_absorb)
  then have "f ` {..<n} = insert 0 (f ` ({..<n} - {m}))" by (metis image_insert assms(3))
  then have "S = f ` ({..<n} - {m}) - {0}" using assms(1) by (simp add: slots_ok_def)
  then show "insert i S = (f(m := i)) ` {..<n} - {0}"
    using assms(2,5) by (simp add: fun_upd_image insert_Diff_if Diff_eq Compl_eq)
qed

lemma clumped_insert:
  assumes "clumped n hm f" "m < n" "hm i < n" "i \<noteq> 0" "f m = 0"
    "\<forall>k < n. dist n (hm i) k < dist n (hm i) m \<longrightarrow> f k \<noteq> 0"
  shows "clumped n hm (f(m := i))"
  unfolding clumped_def
proof (intro allI impI)
  fix j k assume a: "j < n" "(f(m := i)) j \<noteq> 0" "k < n" "dist n k j \<le> dist n (hm ((f(m := i)) j)) j"
  show "(f(m := i)) k \<noteq> 0"
  proof (cases "j = m \<and> k \<noteq> m")
    case True
    then have km: "dist n k m \<le> dist n (hm i) m" "k \<noteq> m" using a(4) by simp_all
    have "dist n (hm i) k \<le> dist n (hm i) m"
      using dist_flip [OF a(3) assms(2,3)] km(1) by blast
    moreover have "dist n (hm i) k \<noteq> dist n (hm i) m"
      using dist_inj [OF assms(3) a(3) assms(2)] km(2) by blast
    ultimately have "dist n (hm i) k < dist n (hm i) m" by simp
    then have "f k \<noteq> 0" using assms(6) a(3) by blast
    then show ?thesis using assms(4) by simp
  next
    case False
    then have "k = m \<or> j \<noteq> m" by blast
    then show ?thesis
    proof
      assume j: "j \<noteq> m"
      then have "f j \<noteq> 0" "dist n k j \<le> dist n (hm (f j)) j" using a(2,4) by simp_all
      with a(1,3) have "f k \<noteq> 0" using assms(1) unfolding clumped_def by blast
      then show ?thesis using assms(4) by simp
    qed (simp add: assms(4))
  qed
qed

lemma clumped_cong:
  assumes "\<And>i. i < n \<Longrightarrow> hm' i = hm i" "\<And>j. j < n \<Longrightarrow> f j < n"
  shows "clumped n hm' f = clumped n hm f"
  using assms unfolding clumped_def by auto

text \<open>How a change of one slot carries over to the table.\<close>

lemma local_hash_set:
  assumes t: "local_hash t S" and m: "m < length t"
    and sl: "slots_ok (length t) ((slot t)(m := unat v)) S'"
    and cl: "clumped (length t) (home t) ((slot t)(m := unat v))"
    and ob: "\<And>i. i \<in> S' \<Longrightarrow> ie_object (t ! i) \<noteq> 0" "inj_on (\<lambda>i. ie_object (t ! i)) S'"
  shows "local_hash (set_slot m v t) S'"
proof -
  let ?t = "set_slot m v t"
  note ns = noslots_set_slot [where m = m and v = v and t = t]
  have n: "length ?t = length t" by simp
  have S': "i < length t" if "i \<in> S'" for i using stored_slot [OF sl that] by auto
  have ob': "ie_object (?t ! i) = ie_object (t ! i)" for i
    using m by (cases "i = m") auto
  have "clumped (length t) (home ?t) ((slot t)(m := unat v)) =
        clumped (length t) (home t) ((slot t)(m := unat v))"
    by (rule clumped_cong) (use home_noslots [OF ns] sl in \<open>auto simp: slots_ok_def\<close>)
  then show ?thesis
    using t sl cl ob m unfolding local_hash_def n slot_set_slot [OF m] ob' by auto
qed

lemma local_insert_ok:
  assumes t: "local_hash t S" and i: "unat i < length t" "i \<noteq> 0" "unat i \<notin> S"
    "ie_object (t ! unat i) = obj" "obj \<noteq> 0" "\<And>k. k \<in> S \<Longrightarrow> ie_object (t ! k) \<noteq> obj"
  obtains m where "local_insert_loop t (length t) (IH_LOCAL_HASH obj (length t)) = Some m"
    "m < length t" "local_hash (set_slot m i t) (insert (unat i) S)"
proof -
  let ?n = "length t" and ?a = "IH_LOCAL_HASH obj (length t)"
  have th: "t \<noteq> []" "slots_ok ?n (slot t) S" "clumped ?n (home t) (slot t)"
    using t by (auto simp: local_hash_def)
  have an: "?a < ?n" using th(1) by (simp add: hash_lt)
  from empty_slot [OF th(2)] th(1) obtain e where e: "e < ?n" "slot t e = 0" by auto
  from local_insert_loop_ok [OF an e] obtain m where
    m: "local_insert_loop t ?n ?a = Some m" "m < ?n" "slot t m = 0"
    "\<forall>k < ?n. dist ?n ?a k < dist ?n ?a m \<longrightarrow> slot t k \<noteq> 0" by auto
  have h: "home t (unat i) = ?a" using i(4) by (simp add: home_def)
  have nz: "unat i \<noteq> 0" using i(2) by (simp add: unat_0_iff)
  have "local_hash (set_slot m i t) (insert (unat i) S)"
  proof (rule local_hash_set [OF t m(2)])
    show "slots_ok ?n ((slot t)(m := unat i)) (insert (unat i) S)"
      by (rule slots_ok_insert [OF th(2) m(2,3) i(1) nz i(3)])
    show "clumped ?n (home t) ((slot t)(m := unat i))"
      by (rule clumped_insert [OF th(3) m(2) _ nz m(3)]) (use h m(4) an in auto)
    show "inj_on (\<lambda>i. ie_object (t ! i)) (insert (unat i) S)"
      using t i(3,4,6) by (force simp: local_hash_def)
  qed (use t i in \<open>auto simp: local_hash_def\<close>)
  with m that show ?thesis by blast
qed

section \<open>Deletion\<close>

text \<open>The slot of a stored index is found; an index that is not stored is reported absent.\<close>

lemma local_find_ok:
  assumes t: "t \<noteq> []" "slots_ok (length t) (slot t) S" "clumped (length t) (home t) (slot t)"
    and i: "i \<noteq> 0"
  shows "\<exists>r. local_find_loop t (length t) i (home t (unat i)) = Some r \<and>
    (case r of Some j \<Rightarrow> j < length t \<and> slot t j = unat i | None \<Rightarrow> unat i \<notin> S)"
proof -
  let ?n = "length t" and ?a = "home t (unat i)"
  let ?stop = "\<lambda>j. slot t j = 0 \<or> slot t j = unat i"
  have an: "?a < ?n" using home_lt [OF t(1)] .
  have nz: "unat i \<noteq> 0" using i by (simp add: unat_0_iff)
  have eq: "slot t j = unat i \<longleftrightarrow> ie_index (t ! j) = i" for j
    by (simp add: slot_def word_unat_eq_iff)
  from empty_slot [OF t(2)] t(1) obtain e where e: "e < ?n" "slot t e = 0" by auto
  have "\<exists>m < ?n. local_find_loop t ?n i ?a = Some (if slot t m = 0 then None else Some m) \<and> ?stop m \<and>
      (\<forall>k < ?n. dist ?n ?a k < dist ?n ?a m \<longrightarrow> \<not> ?stop k)"
    by (rule probe_loop [OF an e(1)])
      (use e(2) nz i in \<open>auto simp: eq slot_0 local_find_loop.simps [of t ?n i j for j]\<close>)
  then obtain m where m: "m < ?n" "?stop m" "\<forall>k < ?n. dist ?n ?a k < dist ?n ?a m \<longrightarrow> \<not> ?stop k"
    "local_find_loop t ?n i ?a = Some (if slot t m = 0 then None else Some m)" by blast
  have "unat i \<notin> S" if z: "slot t m = 0"
  proof
    assume "unat i \<in> S"
    from stored_slot [OF t(2) this] obtain k where k: "k < ?n" "slot t k = unat i" by blast
    have "\<not> dist ?n ?a m \<le> dist ?n ?a k"
      using probe_reaches [OF t(3) k(1) _ _ m(1)] k z an nz by force
    then show False using m(3) k by auto
  qed
  with m nz show ?thesis by auto
qed

text \<open>A hole at \<open>h\<close>, its slot not yet overwritten; the slots after it up to \<open>d\<close> have been
  examined: none of them is displaced across the hole.\<close>

definition holed :: "nat \<Rightarrow> (nat \<Rightarrow> nat) \<Rightarrow> (nat \<Rightarrow> nat) \<Rightarrow> nat \<Rightarrow> nat \<Rightarrow> bool" where
  "holed n hm f h d \<longleftrightarrow> h < n \<and> d < n \<and> f h \<noteq> 0 \<and>
     (\<forall>j < n. j \<noteq> h \<and> f j \<noteq> 0 \<longrightarrow> (\<forall>m < n. dist n m j \<le> dist n (hm (f j)) j \<longrightarrow> f m \<noteq> 0)) \<and>
     (\<forall>j < n. j \<noteq> h \<and> f j \<noteq> 0 \<and> dist n h j \<le> dist n h d \<longrightarrow> dist n (hm (f j)) j < dist n h j)"

lemma holedD:
  assumes "holed n hm f h d" "j < n" "j \<noteq> h" "f j \<noteq> 0"
  shows "m < n \<Longrightarrow> dist n m j \<le> dist n (hm (f j)) j \<Longrightarrow> f m \<noteq> 0"
    and "dist n h j \<le> dist n h d \<Longrightarrow> dist n (hm (f j)) j < dist n h j"
  using assms unfolding holed_def by blast+

lemma clumped_holed: "clumped n hm f \<Longrightarrow> h < n \<Longrightarrow> f h \<noteq> 0 \<Longrightarrow> holed n hm f h h"
  unfolding holed_def clumped_def by auto

lemma dist_between:
  assumes "h < n" "d < n" "j < n" "dist n h d \<le> dist n h j"
  shows "dist n d j = dist n h j - dist n h d"
  using assms by (auto simp: dist_def split: if_splits)

lemma dist_via:
  assumes "h < n" "d < n" "t < n" "m < n" "dist n h d \<le> dist n t d" "dist n m h \<le> dist n t h"
  shows "dist n m d \<le> dist n t d"
  using assms by (auto simp: dist_def split: if_splits)

text \<open>The end of the clump: the hole can be emptied.\<close>

lemma holed_close:
  assumes hol: "holed n hm f h d" and d': "next_slot n d \<noteq> h" "f (next_slot n d) = 0"
  shows "clumped n hm (f(h := 0))"
  unfolding clumped_def
proof (intro allI impI)
  fix j m assume a: "j < n" "(f(h := 0)) j \<noteq> 0" "m < n" "dist n m j \<le> dist n (hm ((f(h := 0)) j)) j"
  let ?d = "next_slot n d"
  have hd: "h < n" "d < n" "?d < n" using hol by (auto simp: holed_def next_slot_lt)
  have j: "j \<noteq> h" "f j \<noteq> 0" "dist n m j \<le> dist n (hm (f j)) j" using a(2,4) by (auto split: if_splits)
  note hj = holedD [OF hol a(1) j(1,2)]
  have "dist n h j \<le> dist n h d" if "m = h"
  proof (rule ccontr)
    assume "\<not> ?thesis"
    then have le: "dist n h ?d \<le> dist n h j" using dist_next [OF hd(1,2) d'(1)] by simp
    then have "dist n ?d j \<le> dist n h j" using dist_between [OF hd(1,3) a(1)] by simp
    then have "f ?d \<noteq> 0" using hj(1) [OF hd(3)] that j(3) by simp
    then show False using d'(2) by simp
  qed
  then have "m \<noteq> h" using hj(2) j(3) by fastforce
  then show "(f(h := 0)) m \<noteq> 0" using hj(1) [OF a(3) j(3)] by simp
qed

text \<open>An object that is not displaced: go on.\<close>

lemma holed_skip:
  assumes hol: "holed n hm f h d" and d': "next_slot n d \<noteq> h"
    "dist n (hm (f (next_slot n d))) (next_slot n d) < dist n h (next_slot n d)"
  shows "holed n hm f h (next_slot n d)"
proof -
  let ?d = "next_slot n d"
  have hd: "h < n" "d < n" "?d < n" using hol by (auto simp: holed_def next_slot_lt)
  have "dist n (hm (f j)) j < dist n h j" if j: "j < n" "j \<noteq> h" "f j \<noteq> 0" "dist n h j \<le> dist n h ?d" for j
  proof (cases "j = ?d")
    case False
    then have "dist n h j < dist n h ?d" using j(1,4) dist_inj [OF hd(1) j(1) hd(3)] by fastforce
    then show ?thesis using dist_next [OF hd(1,2) d'(1)] holedD(2) [OF hol j(1-3)] by simp
  qed (use d' in simp)
  with hol hd show ?thesis unfolding holed_def by blast
qed

text \<open>A displaced object: it fills the hole, and its slot is the new hole.\<close>

lemma holed_move:
  assumes hol: "holed n hm f h d" and d: "d' < n" "d' \<noteq> h" "f d' \<noteq> 0" "hm (f d') < n"
    "dist n h d' \<le> dist n (hm (f d')) d'"
  shows "holed n hm (f(h := f d')) d' d'"
proof -
  let ?f = "f(h := f d')"
  have h: "h < n" using hol by (simp add: holed_def)
  have "?f m \<noteq> 0" if a: "j < n" "j \<noteq> d'" "?f j \<noteq> 0" "m < n" "dist n m j \<le> dist n (hm (?f j)) j" for j m
  proof (cases "j = h")
    case True
    then have "dist n m d' \<le> dist n (hm (f d')) d'"
      using dist_via [OF h d(1) d(4) a(4) d(5)] a(5) by simp
    then have "f m \<noteq> 0" using holedD(1) [OF hol d(1-3) a(4)] by blast
    then show ?thesis using d(3) by simp
  next
    case False
    then have "f m \<noteq> 0" using holedD(1) [OF hol a(1) False _ a(4)] a(3,5) by simp
    then show ?thesis using d(3) by simp
  qed
  moreover have "j = d'" if "j < n" "dist n d' j \<le> dist n d' d'" for j using that d(1) by simp
  ultimately show ?thesis unfolding holed_def using d by (metis fun_upd_other)
qed

lemma local_delete_scan_ok:
  assumes t: "t \<noteq> []" "\<And>j. j < length t \<Longrightarrow> slot t j < length t"
    and ob: "\<And>j. j < length t \<Longrightarrow> j \<noteq> h \<Longrightarrow> slot t j \<noteq> 0 \<Longrightarrow> ie_object (t ! slot t j) \<noteq> 0"
    and e: "e < length t" "slot t e = 0"
    and d: "holed (length t) (home t) (slot t) h d" "dist (length t) h d < dist (length t) h e"
  shows "\<exists>d' i. local_delete_scan t (length t) h d = Some (d', i) \<and> d' < length t \<and> d' \<noteq> h \<and>
    slot t d' = unat i \<and>
    (if i = 0 then clumped (length t) (home t) ((slot t)(h := 0))
     else holed (length t) (home t) ((slot t)(h := unat i)) d' d' \<and>
       dist (length t) d' e < dist (length t) d e)"
  using d
proof (induction "dist (length t) h e - dist (length t) h d" arbitrary: d rule: less_induct)
  case less
  let ?n = "length t" and ?f = "slot t" and ?d = "next_slot (length t) d"
  have hd: "h < ?n" "d < ?n" "?d < ?n" using less.prems(1) by (auto simp: holed_def next_slot_lt)
  have ne: "?d \<noteq> h" by (rule dist_next_ne [OF hd(1,2) e(1) less.prems(2)])
  note dn = dist_next [OF hd(1,2) ne]
  let ?t = "home t (?f ?d)"
  have disp: "(if ?d < h then ?d < ?t \<and> ?t \<le> h else ?d < ?t \<or> ?t \<le> h) \<longleftrightarrow> dist ?n h ?d \<le> dist ?n ?t ?d"
    by (rule displaced_iff [OF hd(1,3) home_lt [OF t(1)] ne])
  have st: "local_delete_scan t ?n h d =
    (if ?f ?d = 0 \<or> dist ?n h ?d \<le> dist ?n ?t ?d then Some (?d, ie_index (t ! ?d))
     else local_delete_scan t ?n h ?d)"
  proof (cases "?f ?d = 0")
    case True
    then show ?thesis
      using hd ne slot_0 [of t ?d] by (subst local_delete_scan.simps) (simp add: Let_def)
  next
    case False
    have ix: "ie_index (t ! ?d) \<noteq> 0" using False slot_0 [of t ?d] by simp
    have nn: "ie_object (t ! unat (ie_index (t ! ?d))) \<noteq> 0"
      using ob [OF hd(3) ne False] by (simp add: slot_def)
    have "unat (ie_index (t ! ?d)) < ?n" using t(2) [OF hd(3)] by (simp add: slot_def)
    then show ?thesis
      using hd(3) ne ix nn False unfolding disp [symmetric]
      by (subst local_delete_scan.simps) (simp add: Let_def home_def slot_def)
  qed
  show ?case
  proof (cases "?f ?d = 0 \<or> dist ?n h ?d \<le> dist ?n ?t ?d")
    case True
    have i: "?f ?d = unat (ie_index (t ! ?d))" by (simp add: slot_def)
    have "clumped ?n (home t) (?f(h := 0))" if "?f ?d = 0"
      by (rule holed_close [OF less.prems(1) ne that])
    moreover have "holed ?n (home t) (?f(h := ?f ?d)) ?d ?d" if "?f ?d \<noteq> 0"
      by (rule holed_move [OF less.prems(1) hd(3) ne that home_lt [OF t(1)]]) (use True that in blast)
    moreover have "dist ?n ?d e < dist ?n d e"
      using dist_between [OF hd(1,3) e(1)] dist_between [OF hd(1,2) e(1)] dn less.prems(2) by simp
    ultimately show ?thesis using True st hd(3) ne i slot_0 [of t ?d] by auto
  next
    case False
    then have nz: "?f ?d \<noteq> 0" "dist ?n ?t ?d < dist ?n h ?d" by auto
    have hol: "holed ?n (home t) ?f h ?d" by (rule holed_skip [OF less.prems(1) ne nz(2)])
    have "dist ?n h ?d \<noteq> dist ?n h e" using dist_inj [OF hd(1,3) e(1)] nz(1) e(2) by auto
    then have lt: "dist ?n h ?d < dist ?n h e" using dn less.prems(2) by simp
    have "dist ?n ?d e < dist ?n d e"
      using dist_between [OF hd(1,3) e(1)] dist_between [OF hd(1,2) e(1)] dn lt by simp
    moreover have "dist ?n h e - dist ?n h ?d < dist ?n h e - dist ?n h d" using dn lt by simp
    from less.hyps [OF this hol lt] obtain d' i where "local_delete_scan t ?n h ?d = Some (d', i)"
      "d' < ?n" "d' \<noteq> h" "?f d' = unat i"
      "if i = 0 then clumped ?n (home t) (?f(h := 0))
       else holed ?n (home t) (?f(h := unat i)) d' d' \<and> dist ?n d' e < dist ?n ?d e" by blast
    ultimately show ?thesis using st False by (intro exI [of _ d'] exI [of _ i]) auto
  qed
qed

text \<open>The table with a hole at \<open>h\<close> stores the indices \<open>S\<close> in its other slots.\<close>

definition hole_tab :: "ipc_entry list \<Rightarrow> nat \<Rightarrow> nat set \<Rightarrow> bool" where
  "hole_tab t h S \<longleftrightarrow> t \<noteq> [] \<and> (\<forall>j < length t. slot t j < length t) \<and>
     inj_on (slot t) {j. j < length t \<and> j \<noteq> h \<and> slot t j \<noteq> 0} \<and>
     S = slot t ` ({..<length t} - {h}) - {0} \<and>
     (\<forall>i \<in> S. ie_object (t ! i) \<noteq> IO_NULL) \<and> inj_on (\<lambda>i. ie_object (t ! i)) S"

lemma set_slot_object: "m < length t \<Longrightarrow> ie_object (set_slot m v t ! i) = ie_object (t ! i)"
  by (cases "i = m") auto

lemma home_set_slot: "m < length t \<Longrightarrow> home (set_slot m v t) = home t"
  by (rule ext) (simp add: home_def set_slot_object)

lemma hole_tab_close:
  assumes t: "hole_tab t h S" "h < length t" and cl: "clumped (length t) (home t) ((slot t)(h := 0))"
  shows "local_hash (set_slot h 0 t) S"
proof -
  let ?n = "length t" and ?f = "(slot t)(h := 0)"
  have eq: "{j. j < ?n \<and> ?f j \<noteq> 0} = {j. j < ?n \<and> j \<noteq> h \<and> slot t j \<noteq> 0}" by auto
  have "inj_on ?f {j. j < ?n \<and> j \<noteq> h \<and> slot t j \<noteq> 0} =
        inj_on (slot t) {j. j < ?n \<and> j \<noteq> h \<and> slot t j \<noteq> 0}"
    by (rule inj_on_cong) simp
  then have "inj_on ?f {j. j < ?n \<and> ?f j \<noteq> 0}" using t(1) unfolding eq hole_tab_def by simp
  moreover have "S = ?f ` {..<?n} - {0}"
    using t by (simp add: hole_tab_def fun_upd_image Diff_eq Compl_eq)
  moreover have "\<forall>j < ?n. ?f j < ?n" using t by (simp add: hole_tab_def)
  ultimately have "slots_ok ?n ?f S" by (simp add: slots_ok_def)
  moreover have "t \<noteq> []" "\<forall>i \<in> S. ie_object (t ! i) \<noteq> 0" "inj_on (\<lambda>i. ie_object (t ! i)) S"
    using t(1) by (auto simp: hole_tab_def)
  ultimately show ?thesis
    using cl t(2) by (simp add: local_hash_def slot_set_slot home_set_slot set_slot_object)
qed

lemma hole_tab_move:
  assumes t: "hole_tab t h S" "h < length t" and d: "d < length t" "d \<noteq> h" "slot t d = unat i" "i \<noteq> 0"
  shows "hole_tab (set_slot h i t) d S"
proof -
  let ?f = "(slot t)(h := unat i)"
  have nz: "unat i \<noteq> 0" using d(4) by (simp add: unat_0_iff)
  have inj: "inj_on (slot t) {j. j < length t \<and> j \<noteq> h \<and> slot t j \<noteq> 0}" using t(1) by (simp add: hole_tab_def)
  have other: "slot t j \<noteq> unat i" if j: "j < length t" "j \<noteq> h" "j \<noteq> d" for j
  proof
    assume "slot t j = unat i"
    then have "j = d" using inj_onD [OF inj, of j d] d j nz by simp
    then show False using j(3) by simp
  qed
  have "inj_on ?f {j. j < length t \<and> j \<noteq> d \<and> ?f j \<noteq> 0}"
  proof (rule inj_onI)
    fix x y assume xy: "x \<in> {j. j < length t \<and> j \<noteq> d \<and> ?f j \<noteq> 0}"
      "y \<in> {j. j < length t \<and> j \<noteq> d \<and> ?f j \<noteq> 0}" "?f x = ?f y"
    show "x = y"
      using xy other [of x] other [of y] inj_onD [OF inj, of x y] by (cases "x = h"; cases "y = h") auto
  qed
  moreover have "?f ` ({..<length t} - {d}) = slot t ` ({..<length t} - {h})"
  proof -
    have "{..<length t} - {d} = insert h ({..<length t} - {d, h})"
      "{..<length t} - {h} = insert d ({..<length t} - {d, h})" using d t(2) by auto
    moreover have "?f ` ({..<length t} - {d, h}) = slot t ` ({..<length t} - {d, h})"
      by (rule image_cong) auto
    ultimately show ?thesis by (simp only: image_insert fun_upd_same d(3))
  qed
  moreover have "\<forall>j < length t. ?f j < length t" using t(1) d by (auto simp: hole_tab_def)
  moreover have "t \<noteq> []" "S = slot t ` ({..<length t} - {h}) - {0}" "\<forall>i \<in> S. ie_object (t ! i) \<noteq> 0"
    "inj_on (\<lambda>i. ie_object (t ! i)) S"
    using t(1) unfolding hole_tab_def by blast+
  ultimately show ?thesis
    unfolding hole_tab_def slot_set_slot [OF t(2)] set_slot_object [OF t(2)] length_list_update by auto
qed

lemma local_delete_loop_ok:
  assumes "hole_tab t h S" "holed (length t) (home t) (slot t) h h" "e < length t" "slot t e = 0"
    "i \<noteq> 0"
  shows "\<exists>t'. local_delete_loop t (length t) i h h = Some t' \<and> local_hash t' S \<and> noslots t' = noslots t"
  using assms
proof (induction "dist (length t) h e" arbitrary: t h i rule: less_induct)
  case less
  let ?n = "length t"
  have h: "h < ?n" "slot t h \<noteq> 0" using less.prems(2) by (auto simp: holed_def)
  have t: "t \<noteq> []" "\<And>j. j < ?n \<Longrightarrow> slot t j < ?n"
    "\<And>j. j < ?n \<Longrightarrow> j \<noteq> h \<Longrightarrow> slot t j \<noteq> 0 \<Longrightarrow> ie_object (t ! slot t j) \<noteq> 0"
    using less.prems(1) by (auto simp: hole_tab_def)
  have "dist ?n h e \<noteq> 0" using h less.prems(3,4) by auto
  then have "dist ?n h h < dist ?n h e" by simp
  from local_delete_scan_ok [OF t less.prems(3,4,2) this] obtain d j where
    s: "local_delete_scan t ?n h h = Some (d, j)" "d < ?n" "d \<noteq> h" "slot t d = unat j"
    "if j = 0 then clumped ?n (home t) ((slot t)(h := 0))
     else holed ?n (home t) ((slot t)(h := unat j)) d d \<and> dist ?n d e < dist ?n h e"
    by blast
  let ?t = "set_slot h j t"
  have st: "local_delete_loop t ?n i h h = local_delete_loop ?t ?n j d d"
    using s(1) h(1) less.prems(5) by (subst local_delete_loop.simps) simp
  show ?case
  proof (cases "j = 0")
    case True
    then have "local_delete_loop ?t ?n j d d = Some ?t" by (simp add: local_delete_loop.simps)
    then show ?thesis
      using st True hole_tab_close [OF less.prems(1) h(1)] s(5) noslots_set_slot [of t h j] by simp
  next
    case False
    have "e \<noteq> h" using h less.prems(4) by auto
    then have e: "slot ?t e = 0" using less.prems(3,4) by (simp add: slot_set_slot h)
    have "\<exists>t'. local_delete_loop ?t (length ?t) j d d = Some t' \<and> local_hash t' S \<and> noslots t' = noslots ?t"
      by (rule less.hyps [OF _ hole_tab_move [OF less.prems(1) h(1) s(2-4) False] _ _ e False])
        (use s(5) False less.prems(3) h(1) in \<open>simp_all add: slot_set_slot home_set_slot\<close>)
    then show ?thesis using st noslots_set_slot [of t h j] by simp
  qed
qed

lemma local_delete_ok:
  assumes t: "local_hash t S" and j: "j < length t" "slot t j = unat i" and i: "i \<noteq> 0"
  shows "\<exists>t'. local_delete_loop t (length t) i j j = Some t' \<and> local_hash t' (S - {unat i}) \<and>
    noslots t' = noslots t"
proof -
  let ?n = "length t"
  have th: "t \<noteq> []" "slots_ok ?n (slot t) S" "clumped ?n (home t) (slot t)"
    using t by (auto simp: local_hash_def)
  from empty_slot [OF th(2)] th(1) obtain e where e: "e < ?n" "slot t e = 0" by auto
  have nz: "slot t j \<noteq> 0" using i j by (simp add: unat_0_iff)
  have inj: "inj_on (slot t) {j. j < ?n \<and> slot t j \<noteq> 0}" using th(2) by (simp add: slots_ok_def)
  have "slot t k \<noteq> unat i" if "k < ?n" "k \<noteq> j" for k
    using inj j nz that unfolding inj_on_def by (metis (mono_tags, lifting) mem_Collect_eq)
  then have "S - {unat i} = slot t ` ({..<?n} - {j}) - {0}"
    using th(2) j by (auto simp: slots_ok_def)
  then have "hole_tab t j (S - {unat i})"
    using t inj unfolding hole_tab_def local_hash_def
    by (auto simp: slots_ok_def intro: inj_on_subset)
  then show ?thesis
    by (rule local_delete_loop_ok [OF _ clumped_holed [OF th(3) j(1) nz] e i])
qed

end
