(* ===== verification/Hash_Global.thy ===== *)
theory Hash_Global
  imports Hash_Local
begin

text \<open>
  The global reverse hash table, first half of \<^verbatim>\<open>mach4/kernel/ipc/ipc_hash.c\<close>:
  buckets of tree entries, linked through \<open>ite_next\<close>, with move-to-front on lookup; and the
  operations that choose between the local and the global table. The head pointers of the buckets
  are a list; the address \<^verbatim>\<open>last\<close> of a link is either the head of the bucket or the
  \<open>ite_next\<close> field of an entry.
\<close>

section \<open>State\<close>

record ipc_hash_globals =
  ipc_hash_global_size :: u32
  ipc_hash_global_mask :: u32
  ipc_hash_global_table :: "ptr list"

datatype linkp = Head | Next ptr

definition IH_GLOBAL_HASH :: "ipc_hash_globals \<Rightarrow> ptr \<Rightarrow> ptr \<Rightarrow> nat" where
  "IH_GLOBAL_HASH gl sp obj = unat ((drop_bit 4 sp + drop_bit 6 obj) AND ipc_hash_global_mask gl)"

definition set_next :: "ptr \<Rightarrow> ptr \<Rightarrow> ite_heap \<Rightarrow> ite_heap option" where
  "set_next p v h = do { e \<leftarrow> ite_get h p; Some (h(p \<mapsto> e\<lparr>ite_next := v\<rparr>)) }"

text \<open>Reading and writing through \<^verbatim>\<open>last\<close>, for bucket \<open>b\<close>.\<close>

definition head_get :: "ipc_hash_globals \<Rightarrow> nat \<Rightarrow> ptr option" where
  "head_get gl b = (let t = ipc_hash_global_table gl in if b < length t then Some (t ! b) else None)"

definition head_set :: "nat \<Rightarrow> ptr \<Rightarrow> ipc_hash_globals \<Rightarrow> ipc_hash_globals option" where
  "head_set b v gl = (let t = ipc_hash_global_table gl in
     if b < length t then Some (gl\<lparr>ipc_hash_global_table := t[b := v]\<rparr>) else None)"

definition last_get :: "ipc_hash_globals \<Rightarrow> nat \<Rightarrow> linkp \<Rightarrow> ite_heap \<Rightarrow> ptr option" where
  "last_get gl b l h = (case l of Head \<Rightarrow> head_get gl b | Next p \<Rightarrow> do { e \<leftarrow> ite_get h p; Some (ite_next e) })"

definition last_set ::
  "nat \<Rightarrow> linkp \<Rightarrow> ptr \<Rightarrow> ipc_hash_globals \<Rightarrow> ite_heap \<Rightarrow> (ipc_hash_globals \<times> ite_heap) option" where
  "last_set b l v gl h = (case l of
      Head \<Rightarrow> do { gl \<leftarrow> head_set b v gl; Some (gl, h) }
    | Next p \<Rightarrow> do { h \<leftarrow> set_next p v h; Some (gl, h) })"

section \<open>Operations on the global table\<close>

definition ite_matches :: "ipc_tree_entry \<Rightarrow> ptr \<Rightarrow> ptr \<Rightarrow> bool" where
  "ite_matches e sp obj \<longleftrightarrow> ite_object e = obj \<and> ite_space e = sp"

partial_function (option) global_lookup_loop ::
  "nat \<Rightarrow> ptr \<Rightarrow> ptr \<Rightarrow> linkp \<Rightarrow> ipc_hash_globals \<Rightarrow> ite_heap \<Rightarrow>
   ((u32 \<times> ptr) option \<times> ipc_hash_globals \<times> ite_heap) option" where
  "global_lookup_loop b sp obj lastp gl h = do {
     this \<leftarrow> last_get gl b lastp h;
     if this = ITE_NULL then Some (None, gl, h)
     else do {
       e \<leftarrow> ite_get h this;
       if ite_matches e sp obj then do {
         (gl, h) \<leftarrow> last_set b lastp (ite_next e) gl h;
         hd \<leftarrow> head_get gl b;
         h \<leftarrow> set_next this hd h;
         gl \<leftarrow> head_set b this gl;
         Some (Some (ite_name e, this), gl, h) }
       else global_lookup_loop b sp obj (Next this) gl h } }"

definition ipc_hash_global_lookup ::
  "ipc_space \<Rightarrow> ptr \<Rightarrow> ipc_hash_globals \<Rightarrow> ite_heap \<Rightarrow>
   ((u32 \<times> ptr) option \<times> ipc_hash_globals \<times> ite_heap) option" where
  "ipc_hash_global_lookup space obj gl h = do {
     let sp = is_addr space;
     oassert (sp \<noteq> IS_NULL);
     oassert (obj \<noteq> IO_NULL);
     let b = IH_GLOBAL_HASH gl sp obj;
     this \<leftarrow> head_get gl b;
     if this = ITE_NULL then Some (None, gl, h)
     else do {
       e \<leftarrow> ite_get h this;
       if ite_matches e sp obj then Some (Some (ite_name e, this), gl, h)
       else global_lookup_loop b sp obj (Next this) gl h } }"

definition ipc_hash_global_insert ::
  "ipc_space \<Rightarrow> ptr \<Rightarrow> u32 \<Rightarrow> ptr \<Rightarrow> ipc_hash_globals \<Rightarrow> ite_heap \<Rightarrow>
   (ipc_space \<times> ipc_hash_globals \<times> ite_heap) option" where
  "ipc_hash_global_insert space obj name entry gl h = do {
     let sp = is_addr space;
     e \<leftarrow> ite_get h entry;
     oassert (ite_name e = name);
     oassert (sp \<noteq> IS_NULL);
     oassert (ite_space e = sp);
     oassert (obj \<noteq> IO_NULL);
     oassert (ite_object e = obj);
     let space = space\<lparr>is_tree_hash := is_tree_hash space + 1\<rparr>;
     oassert (is_tree_hash space \<le> is_tree_total space);
     let b = IH_GLOBAL_HASH gl sp obj;
     hd \<leftarrow> head_get gl b;
     h \<leftarrow> set_next entry hd h;
     gl \<leftarrow> head_set b entry gl;
     Some (space, gl, h) }"

partial_function (option) global_delete_loop ::
  "nat \<Rightarrow> ptr \<Rightarrow> linkp \<Rightarrow> ipc_hash_globals \<Rightarrow> ite_heap \<Rightarrow> (ptr \<times> ipc_hash_globals \<times> ite_heap) option" where
  "global_delete_loop b entry lastp gl h = do {
     this \<leftarrow> last_get gl b lastp h;
     if this = ITE_NULL then Some (this, gl, h)
     else if this = entry then do {
       e \<leftarrow> ite_get h this;
       (gl, h) \<leftarrow> last_set b lastp (ite_next e) gl h;
       Some (this, gl, h) }
     else global_delete_loop b entry (Next this) gl h }"

definition ipc_hash_global_delete ::
  "ipc_space \<Rightarrow> ptr \<Rightarrow> u32 \<Rightarrow> ptr \<Rightarrow> ipc_hash_globals \<Rightarrow> ite_heap \<Rightarrow>
   (ipc_space \<times> ipc_hash_globals \<times> ite_heap) option" where
  "ipc_hash_global_delete space obj name entry gl h = do {
     let sp = is_addr space;
     e \<leftarrow> ite_get h entry;
     oassert (ite_name e = name);
     oassert (sp \<noteq> IS_NULL);
     oassert (ite_space e = sp);
     oassert (obj \<noteq> IO_NULL);
     oassert (ite_object e = obj);
     oassert (is_tree_hash space > 0);
     let space = space\<lparr>is_tree_hash := is_tree_hash space - 1\<rparr>;
     let b = IH_GLOBAL_HASH gl sp obj;
     (this, gl, h) \<leftarrow> global_delete_loop b entry Head gl h;
     oassert (this \<noteq> ITE_NULL);
     Some (space, gl, h) }"

section \<open>Choosing the table\<close>

definition ipc_hash_lookup ::
  "bool \<Rightarrow> ipc_space \<Rightarrow> ptr \<Rightarrow> ipc_hash_globals \<Rightarrow> ite_heap \<Rightarrow>
   ((u32 \<times> ipc_entry_t) option \<times> ipc_hash_globals \<times> ite_heap) option" where
  "ipc_hash_lookup g space obj gl h = do {
     r \<leftarrow> ipc_hash_local_lookup g space obj;
     case r of
       Some x \<Rightarrow> Some (Some x, gl, h)
     | None \<Rightarrow>
         if is_tree_hash space > 0 then do {
           (r, gl, h) \<leftarrow> ipc_hash_global_lookup space obj gl h;
           Some (map_option (\<lambda>(n, p). (n, Tree_entry p)) r, gl, h) }
         else Some (None, gl, h) }"

text \<open>\<^verbatim>\<open>entry == &space->is_table[index]\<close>; otherwise the entry is one of the tree.\<close>

definition in_table :: "bool \<Rightarrow> ipc_space \<Rightarrow> u32 \<Rightarrow> ipc_entry_t \<Rightarrow> bool" where
  "in_table g space name entry \<longleftrightarrow>
     MACH_PORT_INDEX g name < is_table_size space \<and> entry = Table_entry (unat (MACH_PORT_INDEX g name))"

definition tree_ptr :: "ipc_entry_t \<Rightarrow> ptr option" where
  "tree_ptr entry = (case entry of Tree_entry p \<Rightarrow> Some p | _ \<Rightarrow> None)"

definition ipc_hash_insert ::
  "bool \<Rightarrow> ipc_space \<Rightarrow> ptr \<Rightarrow> u32 \<Rightarrow> ipc_entry_t \<Rightarrow> ipc_hash_globals \<Rightarrow> ite_heap \<Rightarrow>
   (ipc_space \<times> ipc_hash_globals \<times> ite_heap) option" where
  "ipc_hash_insert g space obj name entry gl h =
     (if in_table g space name entry then do {
        space \<leftarrow> ipc_hash_local_insert space obj (MACH_PORT_INDEX g name) entry;
        Some (space, gl, h) }
      else do {
        p \<leftarrow> tree_ptr entry;
        ipc_hash_global_insert space obj name p gl h })"

definition ipc_hash_delete ::
  "bool \<Rightarrow> ipc_space \<Rightarrow> ptr \<Rightarrow> u32 \<Rightarrow> ipc_entry_t \<Rightarrow> ipc_hash_globals \<Rightarrow> ite_heap \<Rightarrow>
   (ipc_space \<times> ipc_hash_globals \<times> ite_heap) option" where
  "ipc_hash_delete g space obj name entry gl h =
     (if in_table g space name entry then do {
        space \<leftarrow> ipc_hash_local_delete space obj (MACH_PORT_INDEX g name) entry;
        Some (space, gl, h) }
      else do {
        p \<leftarrow> tree_ptr entry;
        ipc_hash_global_delete space obj name p gl h })"

section \<open>Initialisation\<close>

text \<open>The loop that rounds the size up to a power of two. \<^verbatim>\<open>ipc_tree_entry_max\<close> and the
  configured size are parameters; a size of 0 means not configured. \<^verbatim>\<open>kalloc\<close> provides
  the table.\<close>

partial_function (option) hash_round_loop :: "u32 \<Rightarrow> u32 \<Rightarrow> (u32 \<times> u32) option" where
  "hash_round_loop one msk = (
     let msk = msk OR one;
         sz = msk + 1
     in if sz AND msk = 0 then Some (sz, msk) else hash_round_loop (push_bit 1 one) msk)"

text \<open>The initialisation. \<^verbatim>\<open>kalloc\<close> is taken to succeed, which the source asserts.\<close>

definition ipc_hash_init :: "u32 \<Rightarrow> u32 \<Rightarrow> ipc_hash_globals option" where
  "ipc_hash_init ipc_tree_entry_max configured = do {
     let sz = (if configured = 0 then
                 (let s = drop_bit 8 ipc_tree_entry_max in if s < 32 then 32 else s)
               else configured);
     let msk = sz - 1;
     (sz, msk) \<leftarrow> (if sz AND msk \<noteq> 0 then hash_round_loop 1 msk else Some (sz, msk));
     Some \<lparr>ipc_hash_global_size = sz, ipc_hash_global_mask = msk,
           ipc_hash_global_table = replicate (unat sz) ITE_NULL\<rparr> }"

text \<open>\<^verbatim>\<open>ipc_hash_info\<close>: the number of entries of each bucket, as many as fit the caller's
  buffer, and the size of the table.\<close>

partial_function (option) bucket_count :: "ptr \<Rightarrow> ite_heap \<Rightarrow> nat option" where
  "bucket_count entry h =
     (if entry = ITE_NULL then Some 0
      else do { e \<leftarrow> ite_get h entry; n \<leftarrow> bucket_count (ite_next e) h; Some (Suc n) })"

fun bucket_counts :: "ptr list \<Rightarrow> ite_heap \<Rightarrow> nat list option" where
  "bucket_counts [] h = Some []"
| "bucket_counts (p # ps) h = do { n \<leftarrow> bucket_count p h; ns \<leftarrow> bucket_counts ps h; Some (n # ns) }"

definition ipc_hash_info :: "u32 \<Rightarrow> ipc_hash_globals \<Rightarrow> ite_heap \<Rightarrow> (nat list \<times> u32) option" where
  "ipc_hash_info count gl h = do {
     let count = (if ipc_hash_global_size gl < count then ipc_hash_global_size gl else count);
     ns \<leftarrow> bucket_counts (take (unat count) (ipc_hash_global_table gl)) h;
     Some (ns, ipc_hash_global_size gl) }"

end
