(* ===== verification/Hash_Global_Correct.thy ===== *)
theory Hash_Global_Correct
  imports Hash_Global
begin

text \<open>
  Correctness of the global reverse hash table. \<open>chain h p xs\<close>: the entries \<open>xs\<close> are linked
  through \<open>ite_next\<close> from \<open>p\<close>. \<open>global_hash gl h X\<close>: the buckets hold exactly the
  entries \<open>X\<close>, each in the bucket of its space and object.
\<close>

section \<open>Chains\<close>

fun chain :: "ite_heap \<Rightarrow> ptr \<Rightarrow> ptr list \<Rightarrow> bool" where
  "chain h p [] \<longleftrightarrow> p = ITE_NULL"
| "chain h p (x # xs) \<longleftrightarrow> p = x \<and> x \<noteq> ITE_NULL \<and> (\<exists>e. h x = Some e \<and> chain h (ite_next e) xs)"

lemma chain_frame: "(\<And>a. a \<in> set xs \<Longrightarrow> h' a = h a) \<Longrightarrow> chain h' p xs = chain h p xs"
  by (induction xs arbitrary: p) auto

lemma chain_upd [simp]: "a \<notin> set xs \<Longrightarrow> chain (h(a := v)) p xs = chain h p xs"
  by (rule chain_frame) auto

lemma chain_unique: "chain h p xs \<Longrightarrow> chain h p ys \<Longrightarrow> xs = ys"
proof (induction xs arbitrary: p ys)
  case Nil
  then show ?case by (cases ys) auto
next
  case (Cons x xs)
  then show ?case by (cases ys) auto
qed

lemma chain_live: "chain h p xs \<Longrightarrow> x \<in> set xs \<Longrightarrow> x \<noteq> 0 \<and> (\<exists>e. h x = Some e)"
  by (induction xs arbitrary: p) auto

text \<open>The entry after \<open>p\<close> taken out of the chain.\<close>

lemma chain_unlink:
  assumes "chain h a (xs @ p # q # ys)" "distinct (xs @ p # q # ys)" "h p = Some e" "h q = Some f"
  shows "chain (h(p \<mapsto> e\<lparr>ite_next := ite_next f\<rparr>)) a (xs @ p # ys)"
  using assms by (induction xs arbitrary: a) auto

lemma chain_mid:
  assumes "chain h a (xs @ p # ys)" "h p = Some e"
  shows "ite_next e = (case ys of [] \<Rightarrow> 0 | q # _ \<Rightarrow> q)"
  using assms by (induction xs arbitrary: a) (auto split: list.splits)

text \<open>Entries that agree on everything but \<open>ite_next\<close>.\<close>

definition nonext :: "ipc_tree_entry \<Rightarrow> ipc_tree_entry" where
  "nonext e = e\<lparr>ite_next := ITE_NULL\<rparr>"

definition next_only :: "ptr set \<Rightarrow> ite_heap \<Rightarrow> ite_heap \<Rightarrow> bool" where
  "next_only X h h' \<longleftrightarrow> (\<forall>a. a \<notin> X \<longrightarrow> h' a = h a) \<and>
     (\<forall>a. map_option nonext (h' a) = map_option nonext (h a))"

lemma next_only_refl [simp, intro]: "next_only X h h"
  by (simp add: next_only_def)

lemma next_only_trans [trans]: "next_only X h h' \<Longrightarrow> next_only X h' h'' \<Longrightarrow> next_only X h h''"
  by (auto simp: next_only_def)

lemma next_only_mono: "next_only X h h' \<Longrightarrow> X \<subseteq> Y \<Longrightarrow> next_only Y h h'"
  by (auto simp: next_only_def)

lemma next_only_upd: "h a = Some e \<Longrightarrow> a \<in> X \<Longrightarrow> next_only X h (h(a \<mapsto> e\<lparr>ite_next := v\<rparr>))"
  by (auto simp: next_only_def nonext_def)

lemma next_only_fields:
  assumes "next_only X h h'" "h a = Some e"
  shows "\<exists>e'. h' a = Some e' \<and> ite_name e' = ite_name e \<and> ite_object e' = ite_object e \<and>
    ite_space e' = ite_space e \<and> ite_bits e' = ite_bits e \<and> ite_request e' = ite_request e \<and>
    ite_lchild e' = ite_lchild e \<and> ite_rchild e' = ite_rchild e"
proof -
  have "map_option nonext (h' a) = Some (nonext e)" using assms by (simp add: next_only_def)
  then obtain e' where e': "h' a = Some e'" "nonext e' = nonext e" by auto
  then show ?thesis
    by (cases e; cases e') (simp add: nonext_def)
qed

section \<open>The table\<close>

definition bucket_of :: "ipc_hash_globals \<Rightarrow> ite_heap \<Rightarrow> ptr \<Rightarrow> nat" where
  "bucket_of gl h p = (case h p of Some e \<Rightarrow> IH_GLOBAL_HASH gl (ite_space e) (ite_object e) | None \<Rightarrow> 0)"

definition buckets_ok :: "ipc_hash_globals \<Rightarrow> ite_heap \<Rightarrow> (nat \<Rightarrow> ptr list) \<Rightarrow> bool" where
  "buckets_ok gl h B \<longleftrightarrow> unat (ipc_hash_global_mask gl) < length (ipc_hash_global_table gl) \<and>
     (\<forall>b < length (ipc_hash_global_table gl). chain h (ipc_hash_global_table gl ! b) (B b) \<and>
        distinct (B b) \<and> (\<forall>p \<in> set (B b). bucket_of gl h p = b))"

definition bucket_set :: "ipc_hash_globals \<Rightarrow> (nat \<Rightarrow> ptr list) \<Rightarrow> ptr set" where
  "bucket_set gl B = (\<Union>b < length (ipc_hash_global_table gl). set (B b))"

definition global_hash :: "ipc_hash_globals \<Rightarrow> ite_heap \<Rightarrow> ptr set \<Rightarrow> bool" where
  "global_hash gl h X \<longleftrightarrow> (\<exists>B. buckets_ok gl h B \<and> X = bucket_set gl B)"

lemma hash_in_range:
  "unat (ipc_hash_global_mask gl) < n \<Longrightarrow> IH_GLOBAL_HASH gl sp obj < n"
proof -
  have "(drop_bit 4 sp + drop_bit 6 obj) AND ipc_hash_global_mask gl \<le> ipc_hash_global_mask gl"
    by (rule word_and_le1)
  then have "IH_GLOBAL_HASH gl sp obj \<le> unat (ipc_hash_global_mask gl)"
    by (simp add: IH_GLOBAL_HASH_def word_le_nat_alt)
  then show "unat (ipc_hash_global_mask gl) < n \<Longrightarrow> ?thesis" by simp
qed

lemma bucket_of_next: "next_only X h h' \<Longrightarrow> bucket_of gl h' p = bucket_of gl h p"
proof (cases "h p")
  case None
  assume "next_only X h h'"
  then have "map_option nonext (h' p) = map_option nonext (h p)" by (simp add: next_only_def)
  with None show ?thesis by (simp add: bucket_of_def)
next
  case (Some e)
  assume "next_only X h h'"
  from next_only_fields [OF this Some] Some show ?thesis by (auto simp: bucket_of_def)
qed

lemma buckets_okD:
  assumes "buckets_ok gl h B" "b < length (ipc_hash_global_table gl)"
  shows "chain h (ipc_hash_global_table gl ! b) (B b)" "distinct (B b)"
    "p \<in> set (B b) \<Longrightarrow> bucket_of gl h p = b"
  using assms by (auto simp: buckets_ok_def)

lemma in_bucket:
  assumes "buckets_ok gl h B" "p \<in> bucket_set gl B"
  shows "p \<in> set (B (bucket_of gl h p))"
  using assms buckets_okD(3) [OF assms(1)] by (auto simp: bucket_set_def)

text \<open>A change confined to one bucket.\<close>

lemma buckets_change:
  assumes ok: "buckets_ok gl h B" and b: "b < length (ipc_hash_global_table gl)"
    and lo: "next_only Y h h'" "\<And>c. c < length (ipc_hash_global_table gl) \<Longrightarrow> c \<noteq> b \<Longrightarrow> Y \<inter> set (B c) = {}"
    and gl': "gl' = gl\<lparr>ipc_hash_global_table := (ipc_hash_global_table gl)[b := v]\<rparr>"
    and new: "chain h' v ys" "distinct ys" "\<And>p. p \<in> set ys \<Longrightarrow> bucket_of gl h p = b"
  shows "buckets_ok gl' h' (B(b := ys))"
    and "bucket_set gl' (B(b := ys)) = bucket_set gl B - set (B b) \<union> set ys"
proof -
  let ?t = "ipc_hash_global_table gl"
  have bo: "bucket_of gl' h' p = bucket_of gl h p" for p
    using bucket_of_next [OF lo(1)] by (simp add: gl' bucket_of_def IH_GLOBAL_HASH_def cong: option.case_cong)
  have ch: "chain h' (?t ! c) (B c)" if c: "c < length ?t" "c \<noteq> b" for c
  proof -
    have "chain h (?t ! c) (B c)" using ok c by (simp add: buckets_ok_def)
    moreover have "h' a = h a" if "a \<in> set (B c)" for a
      using lo(1) lo(2) [OF c] that by (auto simp: next_only_def)
    ultimately show ?thesis using chain_frame [of "B c" h' h] by blast
  qed
  show "buckets_ok gl' h' (B(b := ys))"
    using ok new ch b unfolding buckets_ok_def bo by (simp add: gl' nth_list_update)
  have "x \<notin> set (B b)" if "c < length ?t" "c \<noteq> b" "x \<in> set (B c)" for c x
    using buckets_okD(3) [OF ok] that b by blast
  then show "bucket_set gl' (B(b := ys)) = bucket_set gl B - set (B b) \<union> set ys"
    using b by (auto simp: bucket_set_def gl' split: if_splits)
qed

section \<open>Lookup\<close>

text \<open>Moving an entry of a bucket to the front.\<close>

lemma move_to_front:
  assumes ch: "chain h a (xs @ p # q # ys)" and di: "distinct (xs @ p # q # ys)"
    and e: "h p = Some e" "h q = Some f"
    and h': "h' = (h(p \<mapsto> e\<lparr>ite_next := ite_next f\<rparr>))(q \<mapsto> f\<lparr>ite_next := a\<rparr>)"
  shows "chain h' q (q # xs @ p # ys)" "next_only (set (xs @ p # q # ys)) h h'"
proof -
  let ?h = "h(p \<mapsto> e\<lparr>ite_next := ite_next f\<rparr>)"
  have "q \<noteq> 0" using chain_live [OF ch, of q] by simp
  then show "chain h' q (q # xs @ p # ys)"
    using chain_unlink [OF ch di e] di
      chain_upd [of q "xs @ p # ys" ?h "Some (f\<lparr>ite_next := a\<rparr>)" a] by (auto simp: h' simp del: chain_upd)
  have "next_only (set (xs @ p # q # ys)) h ?h" using e by (intro next_only_upd) auto
  also have "next_only (set (xs @ p # q # ys)) ?h h'" unfolding h'
    using e di by (intro next_only_upd) auto
  finally show "next_only (set (xs @ p # q # ys)) h h'" .
qed

definition matching :: "ite_heap \<Rightarrow> ptr \<Rightarrow> ptr \<Rightarrow> ptr \<Rightarrow> bool" where
  "matching h sp obj p \<longleftrightarrow> (\<exists>e. h p = Some e \<and> ite_matches e sp obj)"

text \<open>What a lookup in the bucket \<open>xs\<close> leaves behind: when nothing is found the table is as
  it was, otherwise the entry found is in front of the others, which keep their order.\<close>

definition look_out ::
  "(u32 \<times> ptr) option \<Rightarrow> ipc_hash_globals \<Rightarrow> ite_heap \<Rightarrow> nat \<Rightarrow> ptr \<Rightarrow> ptr \<Rightarrow> ptr list \<Rightarrow> ipc_hash_globals \<Rightarrow> ite_heap \<Rightarrow> bool"
  where
  "look_out r gl h b sp obj xs gl' h' \<longleftrightarrow>
     (case r of
        None \<Rightarrow> gl' = gl \<and> h' = h \<and> (\<forall>p \<in> set xs. \<not> matching h sp obj p)
      | Some (n, p) \<Rightarrow> p \<in> set xs \<and> matching h sp obj p \<and> (\<exists>e. h p = Some e \<and> ite_name e = n) \<and>
          gl' = gl\<lparr>ipc_hash_global_table := (ipc_hash_global_table gl)[b := p]\<rparr> \<and>
          chain h' p (p # remove1 p xs) \<and> next_only (set xs) h h')"

lemma global_lookup_loop_ok:
  assumes "chain h a (xs @ p # ys)" "distinct (xs @ p # ys)"
    and "b < length (ipc_hash_global_table gl)" "ipc_hash_global_table gl ! b = a"
    and "\<forall>q \<in> set (xs @ [p]). \<not> matching h sp obj q"
  shows "\<exists>r gl' h'. global_lookup_loop b sp obj (Next p) gl h = Some (r, gl', h') \<and>
    look_out r gl h b sp obj (xs @ p # ys) gl' h'"
  using assms
proof (induction ys arbitrary: xs p)
  case Nil
  from chain_live [OF Nil(1), of p] obtain e where e: "p \<noteq> 0" "h p = Some e" by auto
  have "ite_next e = 0" using chain_mid [OF Nil(1) e(2)] by simp
  then have "global_lookup_loop b sp obj (Next p) gl h = Some (None, gl, h)"
    using e by (subst global_lookup_loop.simps) (simp add: last_get_def ite_get_def)
  then show ?case using Nil(5) by (auto simp: look_out_def)
next
  case (Cons q ys)
  from chain_live [OF Cons.prems(1), of p] obtain e where e: "p \<noteq> 0" "h p = Some e" by auto
  from chain_live [OF Cons.prems(1), of q] obtain f where f: "q \<noteq> 0" "h q = Some f" by auto
  have pq: "ite_next e = q" "p \<noteq> q" using chain_mid [OF Cons.prems(1) e(2)] Cons.prems(2) by auto
  show ?case
  proof (cases "ite_matches f sp obj")
    case True
    let ?h = "(h(p \<mapsto> e\<lparr>ite_next := ite_next f\<rparr>))(q \<mapsto> f\<lparr>ite_next := a\<rparr>)"
    let ?gl = "gl\<lparr>ipc_hash_global_table := (ipc_hash_global_table gl)[b := q]\<rparr>"
    have "global_lookup_loop b sp obj (Next p) gl h = Some (Some (ite_name f, q), ?gl, ?h)"
      using e f pq True Cons.prems(3,4)
      by (subst global_lookup_loop.simps)
        (simp add: last_get_def last_set_def ite_get_def set_next_def head_get_def head_set_def Let_def)
    moreover have "look_out (Some (ite_name f, q)) gl h b sp obj (xs @ p # q # ys) ?gl ?h"
      using move_to_front [OF Cons.prems(1,2) e(2) f(2) refl] Cons.prems(2) f True
      unfolding look_out_def
      by (auto simp: matching_def remove1_append simp del: chain.simps)
    ultimately show ?thesis by blast
  next
    case False
    have "global_lookup_loop b sp obj (Next p) gl h = global_lookup_loop b sp obj (Next q) gl h"
      using e f pq False by (subst global_lookup_loop.simps) (simp add: last_get_def ite_get_def)
    moreover have "\<forall>r \<in> set ((xs @ [p]) @ [q]). \<not> matching h sp obj r"
      using Cons.prems(5) False f by (auto simp: matching_def)
    ultimately show ?thesis
      using Cons.IH [of "xs @ [p]" q] Cons.prems(1-4) by simp
  qed
qed

text \<open>The keys of the entries: at most one entry for a space and an object.\<close>

definition keys_inj :: "ite_heap \<Rightarrow> ptr set \<Rightarrow> bool" where
  "keys_inj h X \<longleftrightarrow> (\<forall>sp obj. \<forall>p \<in> X. \<forall>q \<in> X. matching h sp obj p \<longrightarrow> matching h sp obj q \<longrightarrow> p = q)"

text \<open>\<open>xs\<close> is the bucket of a space and an object.\<close>

definition bucket :: "ipc_hash_globals \<Rightarrow> ite_heap \<Rightarrow> ptr \<Rightarrow> ptr \<Rightarrow> ptr list \<Rightarrow> bool" where
  "bucket gl h sp obj xs \<longleftrightarrow> chain h (ipc_hash_global_table gl ! IH_GLOBAL_HASH gl sp obj) xs"

lemma global_lookup_ok:
  assumes gh: "global_hash gl h X" and nz: "is_addr space \<noteq> 0" "obj \<noteq> 0"
  shows "\<exists>r gl' h'. ipc_hash_global_lookup space obj gl h = Some (r, gl', h') \<and>
    global_hash gl' h' X \<and> next_only X h h' \<and> length (ipc_hash_global_table gl') = length (ipc_hash_global_table gl) \<and>
    (case r of None \<Rightarrow> \<forall>p \<in> X. \<not> matching h (is_addr space) obj p
     | Some (n, p) \<Rightarrow> p \<in> X \<and> matching h (is_addr space) obj p \<and> (\<exists>e. h p = Some e \<and> ite_name e = n) \<and>
         (\<forall>xs. bucket gl h (is_addr space) obj xs \<longrightarrow> bucket gl' h' (is_addr space) obj (p # remove1 p xs)))"
proof -
  let ?sp = "is_addr space" and ?t = "ipc_hash_global_table gl"
  let ?b = "IH_GLOBAL_HASH gl ?sp obj"
  from gh obtain B where B: "buckets_ok gl h B" "X = bucket_set gl B" by (auto simp: global_hash_def)
  have b: "?b < length ?t" using B(1) hash_in_range by (simp add: buckets_ok_def)
  note bk = buckets_okD [OF B(1) b]
  have sub: "set (B ?b) \<subseteq> X" using b B(2) by (auto simp: bucket_set_def)
  have only: "p \<in> set (B ?b)" if "p \<in> X" "matching h ?sp obj p" for p
    using in_bucket [OF B(1), of p] that B(2) by (auto simp: matching_def ite_matches_def bucket_of_def)
  obtain r gl' h' where r: "ipc_hash_global_lookup space obj gl h = Some (r, gl', h')"
    "look_out r gl h ?b ?sp obj (B ?b) gl' h'"
  proof (cases "B ?b")
    case Nil
    then have "ipc_hash_global_lookup space obj gl h = Some (None, gl, h)"
      using bk(1) b nz by (simp add: ipc_hash_global_lookup_def head_get_def Let_def)
    then show ?thesis using that Nil by (simp add: look_out_def)
  next
    case (Cons p ys)
    from bk(1) Cons obtain e where e: "p \<noteq> 0" "h p = Some e" "?t ! ?b = p" by auto
    show ?thesis
    proof (cases "ite_matches e ?sp obj")
      case True
      have "ipc_hash_global_lookup space obj gl h = Some (Some (ite_name e, p), gl, h)"
        using e b nz True by (simp add: ipc_hash_global_lookup_def head_get_def Let_def ite_get_def)
      moreover have "look_out (Some (ite_name e, p)) gl h ?b ?sp obj (B ?b) gl h"
        using bk(1,2) e True Cons list_update_id [of ?t ?b] unfolding look_out_def
        by (auto simp: matching_def simp del: chain.simps)
      ultimately show ?thesis by (rule that)
    next
      case False
      have "ipc_hash_global_lookup space obj gl h = global_lookup_loop ?b ?sp obj (Next p) gl h"
        using e b nz False by (simp add: ipc_hash_global_lookup_def head_get_def Let_def ite_get_def)
      moreover have "\<exists>r gl' h'. global_lookup_loop ?b ?sp obj (Next p) gl h = Some (r, gl', h') \<and>
          look_out r gl h ?b ?sp obj ([] @ p # ys) gl' h'"
        by (rule global_lookup_loop_ok) (use bk(1,2) Cons e b False in \<open>auto simp: matching_def\<close>)
      ultimately show ?thesis using that Cons by auto
    qed
  qed
  show ?thesis
  proof (cases r)
    case None
    then show ?thesis using r gh only by (auto simp: look_out_def)
  next
    case (Some np)
    obtain n p where np: "np = (n, p)" by force
    let ?ys = "p # remove1 p (B ?b)"
    from r(2) Some np have v: "p \<in> set (B ?b)" "matching h ?sp obj p"
      "\<exists>e. h p = Some e \<and> ite_name e = n"
      "gl' = gl\<lparr>ipc_hash_global_table := ?t[?b := p]\<rparr>" "chain h' p ?ys" "next_only (set (B ?b)) h h'"
      by (simp_all add: look_out_def del: chain.simps)
    have ys: "distinct ?ys" "set ?ys = set (B ?b)" using v(1) bk(2) by auto
    have dj: "set (B ?b) \<inter> set (B c) = {}" if "c < length ?t" "c \<noteq> ?b" for c
      using buckets_okD(3) [OF B(1)] that b by blast
    have "buckets_ok gl' h' (B(?b := ?ys))" "bucket_set gl' (B(?b := ?ys)) = bucket_set gl B - set (B ?b) \<union> set ?ys"
      by (rule buckets_change [OF B(1) b v(6) dj v(4,5) ys(1)]; use bk(3) ys(2) in blast)+
    then have "global_hash gl' h' X" using sub ys(2) B(2) unfolding global_hash_def
      by (intro exI [of _ "B(?b := ?ys)"]) auto
    moreover have "bucket gl' h' ?sp obj (p # remove1 p xs)" if "bucket gl h ?sp obj xs" for xs
      using that chain_unique [OF bk(1), of xs] v(4,5) b
      by (simp add: bucket_def IH_GLOBAL_HASH_def del: chain.simps)
    ultimately show ?thesis
      using r(1) Some np v(1-4) sub next_only_mono [OF v(6) sub] by auto
  qed
qed

section \<open>Insertion and deletion\<close>

lemma bucket_disjoint:
  assumes "buckets_ok gl h B" "b < length (ipc_hash_global_table gl)" "c < length (ipc_hash_global_table gl)" "c \<noteq> b"
  shows "set (B b) \<inter> set (B c) = {}"
  using buckets_okD(3) [OF assms(1)] assms by blast

lemma global_insert_ok:
  assumes gh: "global_hash gl h X" and p: "p \<noteq> 0" "h p = Some e" "p \<notin> X" "ite_matches e (is_addr space) obj"
    and nz: "is_addr space \<noteq> 0" "obj \<noteq> 0" "is_tree_hash space + 1 \<le> is_tree_total space"
  shows "\<exists>gl' h'. ipc_hash_global_insert space obj (ite_name e) p gl h =
      Some (space\<lparr>is_tree_hash := is_tree_hash space + 1\<rparr>, gl', h') \<and>
    global_hash gl' h' (insert p X) \<and> next_only {p} h h'"
proof -
  let ?sp = "is_addr space" and ?t = "ipc_hash_global_table gl"
  let ?b = "IH_GLOBAL_HASH gl ?sp obj"
  from gh obtain B where B: "buckets_ok gl h B" "X = bucket_set gl B" by (auto simp: global_hash_def)
  have b: "?b < length ?t" using B(1) hash_in_range by (simp add: buckets_ok_def)
  note bk = buckets_okD [OF B(1) b]
  have sub: "set (B c) \<subseteq> X" if "c < length ?t" for c using that B(2) by (auto simp: bucket_set_def)
  let ?h = "h(p \<mapsto> e\<lparr>ite_next := ?t ! ?b\<rparr>)" and ?gl = "gl\<lparr>ipc_hash_global_table := ?t[?b := p]\<rparr>"
  have no: "next_only {p} h ?h" using p by (intro next_only_upd) auto
  have pb: "p \<notin> set (B c)" if "c < length ?t" for c using sub [OF that] p(3) by blast
  have "bucket_of gl h p = ?b" using p by (simp add: bucket_of_def ite_matches_def)
  then have bo: "bucket_of gl h q = ?b" if "q \<in> set (p # B ?b)" for q using that bk(3) by auto
  have ch: "chain ?h p (p # B ?b)" using bk(1) p(1) pb [OF b] by simp
  have di: "distinct (p # B ?b)" using bk(2) pb [OF b] by simp
  have dj: "{p} \<inter> set (B c) = {}" if "c < length ?t" for c using pb [OF that] by simp
  note bc = buckets_change [OF B(1) b no dj refl ch di bo]
  have "global_hash ?gl ?h (insert p X)"
    unfolding global_hash_def using bc sub [OF b] B(2)
    by (intro exI [of _ "B(?b := p # B ?b)"]) auto
  moreover have "ipc_hash_global_insert space obj (ite_name e) p gl h =
      Some (space\<lparr>is_tree_hash := is_tree_hash space + 1\<rparr>, ?gl, ?h)"
    using p nz b by (simp add: ipc_hash_global_insert_def ite_matches_def ite_get_def head_get_def
        head_set_def set_next_def Let_def)
  ultimately show ?thesis using no by blast
qed

lemma global_delete_loop_ok:
  assumes "chain h a (xs @ q # ys)" "distinct (xs @ q # ys)" "p \<in> set ys"
  shows "\<exists>h'. global_delete_loop b p (Next q) gl h = Some (p, gl, h') \<and>
    chain h' a (remove1 p (xs @ q # ys)) \<and> next_only (set (xs @ q # ys)) h h'"
  using assms
proof (induction ys arbitrary: xs q)
  case (Cons r ys)
  from chain_live [OF Cons.prems(1), of q] obtain e where e: "q \<noteq> 0" "h q = Some e" by auto
  from chain_live [OF Cons.prems(1), of r] obtain f where f: "r \<noteq> 0" "h r = Some f" by auto
  have qr: "ite_next e = r" "q \<noteq> r" using chain_mid [OF Cons.prems(1) e(2)] Cons.prems(2) by auto
  show ?case
  proof (cases "r = p")
    case True
    let ?h = "h(q \<mapsto> e\<lparr>ite_next := ite_next f\<rparr>)"
    have "global_delete_loop b p (Next q) gl h = Some (p, gl, ?h)"
      using e f qr True by (subst global_delete_loop.simps)
        (simp add: last_get_def last_set_def ite_get_def set_next_def)
    moreover have "remove1 p (xs @ q # r # ys) = xs @ q # ys"
      using True Cons.prems(2) by (auto simp: remove1_append)
    moreover have "next_only (set (xs @ q # r # ys)) h ?h" using e by (intro next_only_upd) auto
    ultimately show ?thesis using chain_unlink [OF Cons.prems(1,2) e(2) f(2)] by auto
  next
    case False
    have "global_delete_loop b p (Next q) gl h = global_delete_loop b p (Next r) gl h"
      using e f qr False by (subst global_delete_loop.simps) (simp add: last_get_def ite_get_def)
    then show ?thesis using Cons.IH [of "xs @ [q]" r] Cons.prems False by simp
  qed
qed simp

lemma global_delete_ok:
  assumes gh: "global_hash gl h X" and p: "p \<in> X" "h p = Some e" "ite_matches e (is_addr space) obj"
    and nz: "is_addr space \<noteq> 0" "obj \<noteq> 0" "is_tree_hash space > 0"
  shows "\<exists>gl' h'. ipc_hash_global_delete space obj (ite_name e) p gl h =
      Some (space\<lparr>is_tree_hash := is_tree_hash space - 1\<rparr>, gl', h') \<and>
    global_hash gl' h' (X - {p}) \<and> next_only X h h'"
proof -
  let ?sp = "is_addr space" and ?t = "ipc_hash_global_table gl"
  let ?b = "IH_GLOBAL_HASH gl ?sp obj"
  from gh obtain B where B: "buckets_ok gl h B" "X = bucket_set gl B" by (auto simp: global_hash_def)
  have b: "?b < length ?t" using B(1) hash_in_range by (simp add: buckets_ok_def)
  note bk = buckets_okD [OF B(1) b]
  have sub: "set (B ?b) \<subseteq> X" using b B(2) by (auto simp: bucket_set_def)
  have pb: "p \<in> set (B ?b)"
    using in_bucket [OF B(1), of p] p B(2) by (auto simp: ite_matches_def bucket_of_def)
  have p0: "p \<noteq> 0" using chain_live [OF bk(1) pb] by simp
  obtain v h' where v: "global_delete_loop ?b p Head gl h =
      Some (p, gl\<lparr>ipc_hash_global_table := ?t[?b := v]\<rparr>, h')"
    "chain h' v (remove1 p (B ?b))" "next_only (set (B ?b)) h h'"
  proof (cases "B ?b")
    case Nil
    then show ?thesis using pb by simp
  next
    case (Cons q ys)
    then obtain f where f: "q \<noteq> 0" "h q = Some f" "?t ! ?b = q" "chain h (ite_next f) ys"
      using bk(1) by auto
    show ?thesis
    proof (cases "q = p")
      case True
      then have "global_delete_loop ?b p Head gl h =
          Some (p, gl\<lparr>ipc_hash_global_table := ?t[?b := ite_next f]\<rparr>, h)"
        using f b by (subst global_delete_loop.simps)
          (simp add: last_get_def last_set_def ite_get_def head_get_def head_set_def Let_def)
      then show ?thesis using that True f Cons by auto
    next
      case False
      have "global_delete_loop ?b p Head gl h = global_delete_loop ?b p (Next q) gl h"
        using f b False by (subst global_delete_loop.simps) (simp add: last_get_def head_get_def Let_def)
      moreover from global_delete_loop_ok [of h "?t ! ?b" "[]" q ys p ?b gl] bk(1,2) Cons pb False
      obtain h' where "global_delete_loop ?b p (Next q) gl h = Some (p, gl, h')"
        "chain h' (?t ! ?b) (remove1 p (B ?b))" "next_only (set (B ?b)) h h'" by auto
      ultimately show ?thesis using that [of "?t ! ?b" h'] by simp
    qed
  qed
  let ?gl = "gl\<lparr>ipc_hash_global_table := ?t[?b := v]\<rparr>"
  have di: "distinct (remove1 p (B ?b))" using bk(2) by (rule distinct_remove1)
  have bo: "bucket_of gl h q = ?b" if "q \<in> set (remove1 p (B ?b))" for q
    using bk(2,3) that by simp
  note bc = buckets_change [OF B(1) b v(3) bucket_disjoint [OF B(1) b] refl v(2) di bo]
  have "global_hash ?gl h' (X - {p})"
    unfolding global_hash_def
  proof (intro exI conjI)
    show "buckets_ok ?gl h' (B(?b := remove1 p (B ?b)))" by (rule bc(1))
    show "X - {p} = bucket_set ?gl (B(?b := remove1 p (B ?b)))"
      using bc(2) sub pb B(2) bk(2) by auto
  qed
  moreover have "ipc_hash_global_delete space obj (ite_name e) p gl h =
      Some (space\<lparr>is_tree_hash := is_tree_hash space - 1\<rparr>, ?gl, h')"
    using p p0 nz v(1) by (simp add: ipc_hash_global_delete_def ite_matches_def ite_get_def Let_def)
  ultimately show ?thesis using next_only_mono [OF v(3) sub] by blast
qed

end
