(* ===== verification/Hash_Contract.thy ===== *)
theory Hash_Contract
  imports Hash_Local_Correct Hash_Global_Correct
begin

text \<open>
  The interface of a reverse hash table, which converts an object to the entry of a space that
  holds a send right for it. Both tables of \<^verbatim>\<open>ipc_hash.c\<close> provide it: the local one,
  on the table of the space, and the global one, on the chains of tree entries. A lookup gives the
  entry together with its name. The counter \<open>is_tree_hash\<close> of a space is the number of its
  entries in the global table.
\<close>

section \<open>The interface\<close>

locale rev_hash =
  fixes rep :: "'st \<Rightarrow> (ptr \<rightharpoonup> 'v) \<Rightarrow> bool"
    and fits :: "'st \<Rightarrow> ptr \<Rightarrow> 'v \<Rightarrow> bool"
    and name_of :: "'st \<Rightarrow> 'v \<Rightarrow> u32"
    and look :: "'st \<Rightarrow> ptr \<Rightarrow> ((u32 \<times> 'v) option \<times> 'st) option"
    and ins :: "'st \<Rightarrow> ptr \<Rightarrow> 'v \<Rightarrow> 'st option"
    and del :: "'st \<Rightarrow> ptr \<Rightarrow> 'v \<Rightarrow> 'st option"
  assumes look_law: "rep s m \<Longrightarrow> k \<noteq> 0 \<Longrightarrow>
          \<exists>s'. look s k = Some (map_option (\<lambda>v. (name_of s v, v)) (m k), s') \<and> rep s' m \<and> name_of s' = name_of s"
    and ins_law: "rep s m \<Longrightarrow> m k = None \<Longrightarrow> k \<noteq> 0 \<Longrightarrow> fits s k v \<Longrightarrow>
          \<exists>s'. ins s k v = Some s' \<and> rep s' (m(k \<mapsto> v)) \<and> name_of s' = name_of s"
    and del_law: "rep s m \<Longrightarrow> m k = Some v \<Longrightarrow> k \<noteq> 0 \<Longrightarrow>
          \<exists>s'. del s k v = Some s' \<and> rep s' (m(k := None)) \<and> name_of s' = name_of s"
begin

lemma ins_look:
  assumes "rep s m" "m k = None" "k \<noteq> 0" "fits s k v" "j \<noteq> 0"
  shows "\<exists>s1 s2. ins s k v = Some s1 \<and>
    look s1 j = Some (map_option (\<lambda>v. (name_of s v, v)) ((m(k \<mapsto> v)) j), s2)"
proof -
  from ins_law [OF assms(1-4)] obtain s1 where
    s1: "ins s k v = Some s1" "rep s1 (m(k \<mapsto> v))" "name_of s1 = name_of s" by blast
  from look_law [OF s1(2) assms(5)] s1(1) show ?thesis unfolding s1(3) by blast
qed

lemma del_look:
  assumes "rep s m" "m k = Some v" "k \<noteq> 0" "j \<noteq> 0"
  shows "\<exists>s1 s2. del s k v = Some s1 \<and>
    look s1 j = Some (map_option (\<lambda>v. (name_of s v, v)) ((m(k := None)) j), s2)"
proof -
  from del_law [OF assms(1-3)] obtain s1 where
    s1: "del s k v = Some s1" "rep s1 (m(k := None))" "name_of s1 = name_of s" by blast
  from look_law [OF s1(2) assms(4)] s1(1) show ?thesis unfolding s1(3) by blast
qed

end

section \<open>The local table\<close>

definition local_map :: "ipc_space \<Rightarrow> (ptr \<rightharpoonup> u32) \<Rightarrow> bool" where
  "local_map space m \<longleftrightarrow> is_addr space \<noteq> IS_NULL \<and> unat (is_table_size space) = length (is_table space) \<and>
     (\<exists>S. local_hash (is_table space) S \<and>
        (\<forall>obj i. m obj = Some i \<longleftrightarrow> unat i \<in> S \<and> ie_object (is_table space ! unat i) = obj))"

definition local_fits :: "ipc_space \<Rightarrow> ptr \<Rightarrow> u32 \<Rightarrow> bool" where
  "local_fits space obj i \<longleftrightarrow> i \<noteq> 0 \<and> unat i < length (is_table space) \<and>
     ie_object (is_table space ! unat i) = obj"

text \<open>The name of an entry of the table: its index and its generation.\<close>

definition local_name :: "bool \<Rightarrow> ipc_space \<Rightarrow> u32 \<Rightarrow> u32" where
  "local_name g space i =
     (case tab_get (is_table space) (unat i) of Some e \<Rightarrow> MACH_PORT_MAKEB g i (ie_bits e) | None \<Rightarrow> 0)"

definition local_look :: "bool \<Rightarrow> ipc_space \<Rightarrow> ptr \<Rightarrow> ((u32 \<times> u32) option \<times> ipc_space) option" where
  "local_look g space obj = do {
     r \<leftarrow> ipc_hash_local_lookup g space obj;
     Some (map_option (map_prod id (\<lambda>e. case e of Table_entry i \<Rightarrow> of_nat i | _ \<Rightarrow> 0)) r, space) }"

definition local_ins :: "ipc_space \<Rightarrow> ptr \<Rightarrow> u32 \<Rightarrow> ipc_space option" where
  "local_ins space obj i = ipc_hash_local_insert space obj i (Table_entry (unat i))"

definition local_del :: "ipc_space \<Rightarrow> ptr \<Rightarrow> u32 \<Rightarrow> ipc_space option" where
  "local_del space obj i = ipc_hash_local_delete space obj i (Table_entry (unat i))"

lemma local_mapE:
  assumes "local_map space m"
  obtains S where "is_addr space \<noteq> 0" "unat (is_table_size space) = length (is_table space)"
    "local_hash (is_table space) S"
    "\<forall>obj i. m obj = Some i \<longleftrightarrow> unat i \<in> S \<and> ie_object (is_table space ! unat i) = obj"
  using assms unfolding local_map_def by blast

lemma local_stored:
  assumes "local_hash t S" "i \<in> S"
  shows "i \<noteq> 0" "i < length t" "ie_object (t ! i) \<noteq> 0"
  using assms stored_slot [of "length t" "slot t" S i] by (auto simp: local_hash_def)

lemma local_name_noslots:
  assumes "noslots (is_table s') = noslots (is_table space)"
  shows "local_name g s' = local_name g space"
  using noslots_length [OF assms] noslots_fields(2) [OF assms]
  by (intro ext) (simp add: local_name_def tab_get_def)

text \<open>What the lookup returns, name included.\<close>

lemma local_lookup_eq:
  assumes lm: "local_map space m" and nz: "obj \<noteq> 0"
  shows "ipc_hash_local_lookup g space obj =
    Some (map_option (\<lambda>i. (local_name g space i, Table_entry (unat i))) (m obj))"
proof -
  let ?t = "is_table space"
  from lm obtain S where S: "is_addr space \<noteq> 0" "unat (is_table_size space) = length ?t" "local_hash ?t S"
    "\<forall>obj i. m obj = Some i \<longleftrightarrow> unat i \<in> S \<and> ie_object (?t ! unat i) = obj" by (rule local_mapE)
  from local_lookup_ok [OF S(3), of obj] obtain r where
    r: "local_lookup_loop ?t (length ?t) obj (IH_LOCAL_HASH obj (length ?t)) = Some r"
    "case r of Some i \<Rightarrow> unat i \<in> S \<and> ie_object (?t ! unat i) = obj
     | None \<Rightarrow> \<forall>i \<in> S. ie_object (?t ! i) \<noteq> obj" by blast
  have mr: "m obj = r"
  proof (cases r)
    case None
    then show ?thesis using r(2) S(4) [rule_format, of obj] by (cases "m obj") auto
  next
    case (Some i)
    then show ?thesis using r(2) S(4) [rule_format, of obj i] by simp
  qed
  show ?thesis
  proof (cases r)
    case None
    then show ?thesis using r(1) S(1,2) nz mr by (simp add: ipc_hash_local_lookup_def Let_def)
  next
    case (Some i)
    then have "unat i < length ?t" using r(2) local_stored [OF S(3)] by auto
    then show ?thesis using Some r(1) S(1,2) nz mr by (simp add: ipc_hash_local_lookup_def Let_def local_name_def)
  qed
qed

lemma local_look_law:
  assumes "local_map space m" "k \<noteq> 0"
  shows "local_look g space k = Some (map_option (\<lambda>v. (local_name g space v, v)) (m k), space)"
  using assms local_lookup_eq [OF assms, of g]
  by (cases "m k") (auto simp: local_look_def)

lemma local_ins_law:
  assumes lm: "local_map space m" and k: "m k = None" "k \<noteq> 0" "local_fits space k i"
  shows "\<exists>s'. local_ins space k i = Some s' \<and> local_map s' (m(k \<mapsto> i)) \<and>
    s' = space\<lparr>is_table := is_table s'\<rparr> \<and> noslots (is_table s') = noslots (is_table space)"
proof -
  let ?t = "is_table space"
  from lm obtain S where S: "is_addr space \<noteq> 0" "unat (is_table_size space) = length ?t" "local_hash ?t S"
    "\<forall>obj i. m obj = Some i \<longleftrightarrow> unat i \<in> S \<and> ie_object (?t ! unat i) = obj" by (rule local_mapE)
  have i: "i \<noteq> 0" "unat i < length ?t" "ie_object (?t ! unat i) = k" using k(3) by (auto simp: local_fits_def)
  have none: "ie_object (?t ! j) \<noteq> k" if "j \<in> S" for j
  proof
    assume "ie_object (?t ! j) = k"
    moreover have "unat (of_nat j :: u32) = j"
      using local_stored(2) [OF S(3) that] S(2) unat_lt32 [of "is_table_size space"]
      by (intro unat_of_nat32) simp
    ultimately show False using S(4) [rule_format, of k "of_nat j"] that k(1) by simp
  qed
  have iS: "unat i \<notin> S" using none i(3) by auto
  from local_insert_ok [OF S(3) i(2,1) iS i(3) k(2) none] obtain h where
    h: "local_insert_loop ?t (length ?t) (IH_LOCAL_HASH k (length ?t)) = Some h" "h < length ?t"
    "local_hash (set_slot h i ?t) (insert (unat i) S)" by blast
  let ?s = "space\<lparr>is_table := set_slot h i ?t\<rparr>"
  have "local_ins space k i = Some ?s"
    using h(1,2) i k(2) S(1,2) by (simp add: local_ins_def ipc_hash_local_insert_def Let_def)
  moreover have "local_map ?s (m(k \<mapsto> i))"
    unfolding local_map_def
  proof (intro conjI exI [of _ "insert (unat i) S"] allI)
    fix obj and j :: u32
    have "ie_object (set_slot h i ?t ! unat j) = ie_object (?t ! unat j)" by (rule set_slot_object [OF h(2)])
    then show "(m(k \<mapsto> i)) obj = Some j \<longleftrightarrow> unat j \<in> insert (unat i) S \<and> ie_object (is_table ?s ! unat j) = obj"
      using S(4) [rule_format, of obj j] i(3) none [of "unat j"] by (auto simp: word_unat_eq_iff)
  qed (use S h(3) in auto)
  ultimately show ?thesis using noslots_set_slot by (intro exI [of _ ?s]) simp
qed

lemma local_del_law:
  assumes lm: "local_map space m" and k: "m k = Some i" "k \<noteq> 0"
  shows "\<exists>s'. local_del space k i = Some s' \<and> local_map s' (m(k := None)) \<and>
    s' = space\<lparr>is_table := is_table s'\<rparr> \<and> noslots (is_table s') = noslots (is_table space)"
proof -
  let ?t = "is_table space"
  from lm obtain S where S: "is_addr space \<noteq> 0" "unat (is_table_size space) = length ?t" "local_hash ?t S"
    "\<forall>obj i. m obj = Some i \<longleftrightarrow> unat i \<in> S \<and> ie_object (?t ! unat i) = obj" by (rule local_mapE)
  have iS: "unat i \<in> S" "ie_object (?t ! unat i) = k" using S(4) k(1) by auto
  note st = local_stored [OF S(3) iS(1)]
  have i0: "i \<noteq> 0" using st(1) by (auto simp: unat_0_iff)
  have th: "?t \<noteq> []" "slots_ok (length ?t) (slot ?t) S" "clumped (length ?t) (home ?t) (slot ?t)"
    using S(3) by (auto simp: local_hash_def)
  from local_find_ok [OF th i0] obtain r where
    r: "local_find_loop ?t (length ?t) i (home ?t (unat i)) = Some r"
    "case r of Some j \<Rightarrow> j < length ?t \<and> slot ?t j = unat i | None \<Rightarrow> unat i \<notin> S" by blast
  then obtain j where j: "r = Some j" "j < length ?t" "slot ?t j = unat i" using iS(1) by (cases r) auto
  from local_delete_ok [OF S(3) j(2,3) i0] obtain t' where
    t': "local_delete_loop ?t (length ?t) i j j = Some t'" "local_hash t' (S - {unat i})"
    "noslots t' = noslots ?t" by blast
  let ?s = "space\<lparr>is_table := t'\<rparr>"
  have "local_del space k i = Some ?s"
    using r(1) j(1) t'(1) i0 iS st(2) S(1,2) k(2)
    by (simp add: local_del_def ipc_hash_local_delete_def Let_def MACH_PORT_NULL_def home_def)
  moreover have "local_map ?s (m(k := None))"
    unfolding local_map_def
  proof (intro conjI exI [of _ "S - {unat i}"] allI)
    fix obj and j' :: u32
    have ob: "ie_object (t' ! unat j') = ie_object (?t ! unat j')" if "unat j' \<in> S"
      using noslots_fields(1) [OF t'(3)] local_stored(2) [OF S(3) that] by blast
    have inj: "unat j' = unat i" if "unat j' \<in> S" "ie_object (?t ! unat j') = k"
      using S(3) iS that by (auto simp: local_hash_def dest: inj_onD)
    show "(m(k := None)) obj = Some j' \<longleftrightarrow> unat j' \<in> S - {unat i} \<and> ie_object (is_table ?s ! unat j') = obj"
      using S(4) [rule_format, of obj j'] ob inj iS(2) by (auto split: if_splits)
  qed (use S t'(2) noslots_length [OF t'(3)] in auto)
  ultimately show ?thesis using t'(3) by (intro exI [of _ ?s]) simp
qed

interpretation local_rh: rev_hash local_map local_fits "local_name g" "local_look g" local_ins local_del
proof
  fix space m k i
  assume lm: "local_map space m"
  show "k \<noteq> 0 \<Longrightarrow> \<exists>s'. local_look g space k = Some (map_option (\<lambda>v. (local_name g space v, v)) (m k), s') \<and>
      local_map s' m \<and> local_name g s' = local_name g space"
    using local_look_law [OF lm] lm by simp
  show "m k = None \<Longrightarrow> k \<noteq> 0 \<Longrightarrow> local_fits space k i \<Longrightarrow>
      \<exists>s'. local_ins space k i = Some s' \<and> local_map s' (m(k \<mapsto> i)) \<and> local_name g s' = local_name g space"
    using local_ins_law [OF lm] local_name_noslots by blast
  show "m k = Some i \<Longrightarrow> k \<noteq> 0 \<Longrightarrow>
      \<exists>s'. local_del space k i = Some s' \<and> local_map s' (m(k := None)) \<and> local_name g s' = local_name g space"
    using local_del_law [OF lm] local_name_noslots by blast
qed

section \<open>The global table\<close>

type_synonym gstate = "ipc_space \<times> ipc_hash_globals \<times> ite_heap"

text \<open>The entries of one space in the global table. \<open>X\<close> are the entries of all spaces.\<close>

definition global_map_in :: "ptr set \<Rightarrow> gstate \<Rightarrow> (ptr \<rightharpoonup> ptr) \<Rightarrow> bool" where
  "global_map_in X st m \<longleftrightarrow> (case st of (space, gl, h) \<Rightarrow>
     is_addr space \<noteq> IS_NULL \<and> global_hash gl h X \<and> 0 \<notin> dom m \<and>
     (\<forall>obj p. m obj = Some p \<longleftrightarrow> p \<in> X \<and> matching h (is_addr space) obj p) \<and>
     unat (is_tree_hash space) = card (dom m) \<and> is_tree_hash space \<le> is_tree_total space)"

definition global_map :: "gstate \<Rightarrow> (ptr \<rightharpoonup> ptr) \<Rightarrow> bool" where
  "global_map st m \<longleftrightarrow> (\<exists>X. global_map_in X st m)"

lemma global_mapI: "global_map_in X st m \<Longrightarrow> global_map st m"
  by (auto simp: global_map_def)

definition global_fits :: "gstate \<Rightarrow> ptr \<Rightarrow> ptr \<Rightarrow> bool" where
  "global_fits st obj p \<longleftrightarrow> (case st of (space, gl, h) \<Rightarrow>
     p \<noteq> ITE_NULL \<and> matching h (is_addr space) obj p \<and> is_tree_hash space < is_tree_total space)"

definition tree_name :: "ite_heap \<Rightarrow> ptr \<Rightarrow> u32" where
  "tree_name h p = (case h p of Some e \<Rightarrow> ite_name e | None \<Rightarrow> 0)"

definition global_name :: "gstate \<Rightarrow> ptr \<Rightarrow> u32" where
  "global_name st = (case st of (space, gl, h) \<Rightarrow> tree_name h)"

definition global_look :: "gstate \<Rightarrow> ptr \<Rightarrow> ((u32 \<times> ptr) option \<times> gstate) option" where
  "global_look st obj = (case st of (space, gl, h) \<Rightarrow> do {
     (r, gl, h) \<leftarrow> ipc_hash_global_lookup space obj gl h;
     Some (r, (space, gl, h)) })"

definition global_ins :: "gstate \<Rightarrow> ptr \<Rightarrow> ptr \<Rightarrow> gstate option" where
  "global_ins st obj p = (case st of (space, gl, h) \<Rightarrow>
     ipc_hash_global_insert space obj (tree_name h p) p gl h)"

definition global_del :: "gstate \<Rightarrow> ptr \<Rightarrow> ptr \<Rightarrow> gstate option" where
  "global_del st obj p = (case st of (space, gl, h) \<Rightarrow>
     ipc_hash_global_delete space obj (tree_name h p) p gl h)"

lemma matching_next: "next_only Y h h' \<Longrightarrow> matching h' sp obj p = matching h sp obj p"
proof -
  assume no: "next_only Y h h'"
  have eq: "map_option nonext (h' p) = map_option nonext (h p)" using no by (simp add: next_only_def)
  show ?thesis
  proof (cases "h p")
    case None
    then show ?thesis using eq by (simp add: matching_def)
  next
    case (Some e)
    from next_only_fields [OF no Some] Some show ?thesis by (auto simp: matching_def ite_matches_def)
  qed
qed

lemma global_hash_live: "global_hash gl h X \<Longrightarrow> p \<in> X \<Longrightarrow> p \<noteq> 0 \<and> (\<exists>e. h p = Some e)"
  by (auto simp: global_hash_def bucket_set_def dest: buckets_okD(1) chain_live)

lemma global_hash_finite: "global_hash gl h X \<Longrightarrow> finite X"
  by (auto simp: global_hash_def bucket_set_def)

lemma global_map_finite: "global_map_in X (space, gl, h) m \<Longrightarrow> finite (dom m)"
proof -
  assume gm: "global_map_in X (space, gl, h) m"
  then have "dom m \<subseteq> (\<lambda>p. case h p of Some e \<Rightarrow> ite_object e | None \<Rightarrow> 0) ` X"
    by (auto simp: global_map_in_def matching_def ite_matches_def image_iff) force
  moreover have "finite X" using gm global_hash_finite by (auto simp: global_map_in_def)
  ultimately show ?thesis by (meson finite_imageI finite_subset)
qed

lemma tree_name_next: "next_only Y h h' \<Longrightarrow> tree_name h' = tree_name h"
proof
  fix p
  assume no: "next_only Y h h'"
  have eq: "map_option nonext (h' p) = map_option nonext (h p)" using no by (simp add: next_only_def)
  show "tree_name h' p = tree_name h p"
  proof (cases "h p")
    case None
    then show ?thesis using eq by (simp add: tree_name_def)
  next
    case (Some e)
    from next_only_fields [OF no Some] Some show ?thesis by (auto simp: tree_name_def)
  qed
qed

lemma global_lookup_law:
  assumes gm: "global_map_in X (space, gl, h) m" and k: "k \<noteq> 0"
  shows "\<exists>gl' h'. ipc_hash_global_lookup space k gl h = Some (map_option (\<lambda>p. (tree_name h p, p)) (m k), gl', h') \<and>
    global_map_in X (space, gl', h') m \<and> next_only X h h' \<and>
    (\<forall>p xs. m k = Some p \<and> bucket gl h (is_addr space) k xs \<longrightarrow> bucket gl' h' (is_addr space) k (p # remove1 p xs))"
proof -
  from gm have g: "is_addr space \<noteq> 0" "global_hash gl h X"
    "\<And>obj p. m obj = Some p \<longleftrightarrow> p \<in> X \<and> matching h (is_addr space) obj p"
    by (auto simp: global_map_in_def)
  from global_lookup_ok [OF g(2,1) k] obtain r gl' h' where
    r: "ipc_hash_global_lookup space k gl h = Some (r, gl', h')" "global_hash gl' h' X" "next_only X h h'"
    "case r of None \<Rightarrow> \<forall>p \<in> X. \<not> matching h (is_addr space) k p
     | Some (n, p) \<Rightarrow> p \<in> X \<and> matching h (is_addr space) k p \<and> (\<exists>e. h p = Some e \<and> ite_name e = n) \<and>
         (\<forall>xs. bucket gl h (is_addr space) k xs \<longrightarrow> bucket gl' h' (is_addr space) k (p # remove1 p xs))"
    by blast
  have gm': "global_map_in X (space, gl', h') m"
    using gm r(2) unfolding global_map_in_def by (simp add: matching_next [OF r(3)])
  show ?thesis
  proof (cases r)
    case None
    then have "m k = None" using r(4) g(3) [of k] by (cases "m k") auto
    then show ?thesis using None r(1,3) gm' by auto
  next
    case (Some np)
    obtain n p where np: "np = (n, p)" by force
    have p: "m k = Some p" "tree_name h p = n" using r(4) g(3) [of k p] Some np by (auto simp: tree_name_def)
    then show ?thesis using r Some np gm' by auto
  qed
qed

lemma global_look_law:
  assumes "global_map_in X st m" "k \<noteq> 0"
  shows "\<exists>st'. global_look st k = Some (map_option (\<lambda>p. (global_name st p, p)) (m k), st') \<and>
    global_map_in X st' m \<and> global_name st' = global_name st"
proof -
  obtain space gl h where st: "st = (space, gl, h)" by (cases st)
  from global_lookup_law [OF assms(1) [unfolded st] assms(2)] obtain gl' h' where
    l: "ipc_hash_global_lookup space k gl h = Some (map_option (\<lambda>p. (tree_name h p, p)) (m k), gl', h')"
    "global_map_in X (space, gl', h') m" "next_only X h h'" by blast
  then show ?thesis
    by (intro exI [of _ "(space, gl', h')"]) (simp add: st global_look_def global_name_def tree_name_next [OF l(3)])
qed

lemma tree_hash_inc:
  "(a :: u32) < b \<Longrightarrow> a + 1 \<le> b \<and> unat (a + 1) = Suc (unat a)"
  using unat_lt32 [of b] by (simp add: word_le_nat_alt word_less_nat_alt unat_word_ariths)

lemma global_insert_law:
  assumes gm: "global_map_in X (space, gl, h) m" and k: "m k = None" "k \<noteq> 0" "global_fits (space, gl, h) k p"
  shows "\<exists>gl' h'. ipc_hash_global_insert space k (tree_name h p) p gl h =
      Some (space\<lparr>is_tree_hash := is_tree_hash space + 1\<rparr>, gl', h') \<and>
    global_map_in (insert p X) (space\<lparr>is_tree_hash := is_tree_hash space + 1\<rparr>, gl', h') (m(k \<mapsto> p)) \<and>
    next_only {p} h h'"
proof -
  from gm have g: "is_addr space \<noteq> 0" "global_hash gl h X"
    "\<And>obj p. m obj = Some p \<longleftrightarrow> p \<in> X \<and> matching h (is_addr space) obj p"
    "unat (is_tree_hash space) = card (dom m)"
    by (auto simp: global_map_in_def)
  from k(3) obtain e where e: "p \<noteq> 0" "h p = Some e" "ite_matches e (is_addr space) k"
    "is_tree_hash space < is_tree_total space"
    by (auto simp: global_fits_def matching_def)
  have pX: "p \<notin> X" using g(3) [of k p] k(1) e by (auto simp: matching_def)
  note inc = tree_hash_inc [OF e(4)]
  from global_insert_ok [OF g(2) e(1,2) pX e(3) g(1) k(2)] inc obtain gl' h' where
    i: "ipc_hash_global_insert space k (ite_name e) p gl h =
      Some (space\<lparr>is_tree_hash := is_tree_hash space + 1\<rparr>, gl', h')"
    "global_hash gl' h' (insert p X)" "next_only {p} h h'" by blast
  let ?st = "(space\<lparr>is_tree_hash := is_tree_hash space + 1\<rparr>, gl', h')"
  have "card (dom (m(k \<mapsto> p))) = Suc (card (dom m))"
    using global_map_finite [of X space gl h m] gm k(1) by (simp add: domIff)
  moreover have "(m(k \<mapsto> p)) obj = Some q \<longleftrightarrow> q \<in> insert p X \<and> matching h' (is_addr space) obj q" for obj q
    using g(3) [of obj q] e k(1) pX unfolding matching_next [OF i(3)]
    by (auto simp: matching_def ite_matches_def)
  ultimately have "global_map_in (insert p X) ?st (m(k \<mapsto> p))"
    using gm i(2) inc g(4) k(2) unfolding global_map_in_def by simp
  then show ?thesis using i(1,3) e by (auto simp: tree_name_def)
qed

lemma global_delete_law:
  assumes gm: "global_map_in X (space, gl, h) m" and k: "m k = Some p" "k \<noteq> 0"
  shows "\<exists>gl' h'. ipc_hash_global_delete space k (tree_name h p) p gl h =
      Some (space\<lparr>is_tree_hash := is_tree_hash space - 1\<rparr>, gl', h') \<and>
    global_map_in (X - {p}) (space\<lparr>is_tree_hash := is_tree_hash space - 1\<rparr>, gl', h') (m(k := None)) \<and>
    next_only X h h'"
proof -
  from gm have g: "is_addr space \<noteq> 0" "global_hash gl h X"
    "\<And>obj p. m obj = Some p \<longleftrightarrow> p \<in> X \<and> matching h (is_addr space) obj p"
    "unat (is_tree_hash space) = card (dom m)" "is_tree_hash space \<le> is_tree_total space"
    by (auto simp: global_map_in_def)
  from g(3) k(1) obtain e where e: "p \<in> X" "h p = Some e" "ite_matches e (is_addr space) k"
    by (auto simp: matching_def)
  have fin: "finite (dom m)" using global_map_finite gm by blast
  then have pos: "0 < card (dom m)" using k(1) by (auto simp: card_gt_0_iff)
  then have "is_tree_hash space \<noteq> 0" using g(4) by auto
  then have th: "0 < is_tree_hash space" "unat (is_tree_hash space - 1) = unat (is_tree_hash space) - 1"
    by (simp_all add: word_neq_0_conv unat_minus_one)
  then have dec: "is_tree_hash space - 1 \<le> is_tree_total space"
    using g(5) by (simp add: word_le_nat_alt)
  from global_delete_ok [OF g(2) e g(1) k(2) th(1)] obtain gl' h' where
    d: "ipc_hash_global_delete space k (ite_name e) p gl h =
      Some (space\<lparr>is_tree_hash := is_tree_hash space - 1\<rparr>, gl', h')"
    "global_hash gl' h' (X - {p})" "next_only X h h'" by blast
  let ?st = "(space\<lparr>is_tree_hash := is_tree_hash space - 1\<rparr>, gl', h')"
  have "card (dom (m(k := None))) = card (dom m) - 1" using k(1) fin by (simp add: domIff)
  moreover have "(m(k := None)) obj = Some q \<longleftrightarrow> q \<in> X - {p} \<and> matching h' (is_addr space) obj q" for obj q
    using g(3) [of obj q] g(3) [of k q] e k(1) unfolding matching_next [OF d(3)]
    by (auto simp: matching_def ite_matches_def)
  ultimately have "global_map_in (X - {p}) ?st (m(k := None))"
    using gm d(2) th(2) dec g(4) unfolding global_map_in_def by auto
  then show ?thesis using d(1,3) e by (auto simp: tree_name_def)
qed

lemma global_ins_law:
  assumes "global_map_in X st m" "m k = None" "k \<noteq> 0" "global_fits st k p"
  shows "\<exists>st'. global_ins st k p = Some st' \<and> global_map_in (insert p X) st' (m(k \<mapsto> p)) \<and>
    global_name st' = global_name st"
proof -
  obtain space gl h where st: "st = (space, gl, h)" by (cases st)
  let ?s = "space\<lparr>is_tree_hash := is_tree_hash space + 1\<rparr>"
  from global_insert_law [OF assms(1) [unfolded st] assms(2,3) assms(4) [unfolded st]] obtain gl' h' where
    l: "ipc_hash_global_insert space k (tree_name h p) p gl h = Some (?s, gl', h')"
    "global_map_in (insert p X) (?s, gl', h') (m(k \<mapsto> p))" "next_only {p} h h'" by blast
  then show ?thesis
    by (intro exI [of _ "(?s, gl', h')"]) (simp add: st global_ins_def global_name_def tree_name_next [OF l(3)])
qed

lemma global_del_law:
  assumes "global_map_in X st m" "m k = Some p" "k \<noteq> 0"
  shows "\<exists>st'. global_del st k p = Some st' \<and> global_map_in (X - {p}) st' (m(k := None)) \<and>
    global_name st' = global_name st"
proof -
  obtain space gl h where st: "st = (space, gl, h)" by (cases st)
  let ?s = "space\<lparr>is_tree_hash := is_tree_hash space - 1\<rparr>"
  from global_delete_law [OF assms(1) [unfolded st] assms(2,3)] obtain gl' h' where
    l: "ipc_hash_global_delete space k (tree_name h p) p gl h = Some (?s, gl', h')"
    "global_map_in (X - {p}) (?s, gl', h') (m(k := None))" "next_only X h h'" by blast
  then show ?thesis
    by (intro exI [of _ "(?s, gl', h')"]) (simp add: st global_del_def global_name_def tree_name_next [OF l(3)])
qed

interpretation global_rh: rev_hash global_map global_fits global_name global_look global_ins global_del
  unfolding global_map_def
proof
  fix st m k p
  assume "\<exists>X. global_map_in X st m"
  then obtain X where gm: "global_map_in X st m" ..
  show "k \<noteq> 0 \<Longrightarrow> \<exists>s'. global_look st k = Some (map_option (\<lambda>v. (global_name st v, v)) (m k), s') \<and>
      (\<exists>X. global_map_in X s' m) \<and> global_name s' = global_name st"
    using global_look_law [OF gm, of k] by blast
  show "m k = None \<Longrightarrow> k \<noteq> 0 \<Longrightarrow> global_fits st k p \<Longrightarrow>
      \<exists>s'. global_ins st k p = Some s' \<and> (\<exists>X. global_map_in X s' (m(k \<mapsto> p))) \<and> global_name s' = global_name st"
    using global_ins_law [OF gm] by blast
  show "m k = Some p \<Longrightarrow> k \<noteq> 0 \<Longrightarrow>
      \<exists>s'. global_del st k p = Some s' \<and> (\<exists>X. global_map_in X s' (m(k := None))) \<and> global_name s' = global_name st"
    using global_del_law [OF gm] by blast
qed

end
