(* ===== verification/Hash_Props.thy ===== *)
theory Hash_Props
  imports Hash_Contract
begin

text \<open>
  The properties of the reverse hash tables of \<^verbatim>\<open>ipc_hash.c\<close>: insertion, deletion and
  lookup in both tables, the combined lookup, and the initialisation.
\<close>

section \<open>Concrete tables\<close>

text \<open>A table of four entries; the objects of entries 1 and 2 have the same home slot, so that
  entries 2 and 3 are displaced.\<close>

definition demo_slot :: "ptr \<Rightarrow> u32 \<Rightarrow> ipc_entry" where
  "demo_slot obj i = \<lparr>ie_bits = 0x01010001, ie_object = obj, ie_request = 0, ie_index = i\<rparr>"

definition demo_table :: "ipc_entry list" where
  "demo_table = [demo_slot 0 0, demo_slot 64 1, demo_slot 320 2, demo_slot 128 0]"

definition demo_space :: ipc_space where
  "demo_space = \<lparr>is_addr = 4096, is_references = 1, is_active = True, is_growing = False,
     is_table = demo_table, is_table_size = 4, is_table_next = 1,
     is_tree = \<lparr>ist_name = 0, ist_root = 0, ist_ltree = 0, ist_ltreep = Self, ist_rtree = 0, ist_rtreep = Self\<rparr>,
     is_tree_total = 1, is_tree_small = 0, is_tree_hash = 0, is_notify = 0\<rparr>"

definition demo_map :: "ptr \<rightharpoonup> u32" where
  "demo_map = [64 \<mapsto> 1, 320 \<mapsto> 2]"

lemma nat4: "j < 4 \<longleftrightarrow> j = 0 \<or> j = 1 \<or> j = 2 \<or> j = 3" for j :: nat
  by auto

lemma demo_slots: "slot demo_table 0 = 0" "slot demo_table (Suc 0) = 1" "slot demo_table 2 = 2" "slot demo_table 3 = 0"
  by (simp_all add: slot_def demo_table_def demo_slot_def)

lemma demo_home: "home demo_table (Suc 0) = 1" "home demo_table 2 = 1"
  by (simp_all add: home_def IH_LOCAL_HASH_def demo_table_def demo_slot_def drop_bit_eq_div unat_div)

lemma demo_local_hash: "local_hash demo_table {1, 2}"
proof -
  have "slots_ok 4 (slot demo_table) {1, 2}"
    by (auto simp: slots_ok_def nat4 demo_slots inj_on_def lessThan_nat_numeral lessThan_Suc)
  moreover have "clumped 4 (home demo_table) (slot demo_table)"
    by (auto simp: clumped_def nat4 demo_slots demo_home dist_def)
  moreover have "length demo_table = 4" "demo_table \<noteq> []" by (simp_all add: demo_table_def)
  moreover have "ie_object (demo_table ! 1) = 64" "ie_object (demo_table ! 2) = 320"
    by (simp_all add: demo_table_def demo_slot_def)
  ultimately show ?thesis by (simp add: local_hash_def)
qed

lemma demo_local_map: "local_map demo_space demo_map"
  unfolding local_map_def
proof (intro conjI exI [of _ "{1, 2}"] allI)
  fix obj and i :: u32
  have "unat i = 1 \<longleftrightarrow> i = 1" "unat i = 2 \<longleftrightarrow> i = 2" by (auto simp: word_unat_eq_iff)
  then show "demo_map obj = Some i \<longleftrightarrow> unat i \<in> {1, 2} \<and> ie_object (is_table demo_space ! unat i) = obj"
    by (auto simp: demo_map_def demo_space_def demo_table_def demo_slot_def)
qed (use demo_local_hash in \<open>simp_all add: demo_space_def demo_table_def\<close>)

definition demo_globals :: ipc_hash_globals where
  "demo_globals = \<lparr>ipc_hash_global_size = 1, ipc_hash_global_mask = 0, ipc_hash_global_table = [0]\<rparr>"

lemma demo_fits: "local_fits demo_space 128 3"
  by (simp add: local_fits_def demo_space_def demo_table_def demo_slot_def)

text \<open>One bucket with three entries, the second of another space, and a tree entry that is not
  in the table.\<close>

definition demo_tree_entry :: "u32 \<Rightarrow> ptr \<Rightarrow> ptr \<Rightarrow> ptr \<Rightarrow> ipc_tree_entry" where
  "demo_tree_entry name sp obj nxt = \<lparr>ite_bits = 0x00010001, ite_object = obj, ite_request = 0, ite_next = nxt,
     ite_name = name, ite_space = sp, ite_lchild = 0, ite_rchild = 0\<rparr>"

definition demo_bheap :: ite_heap where
  "demo_bheap = [64 \<mapsto> demo_tree_entry 0x901 4096 640 192, 128 \<mapsto> demo_tree_entry 0xA01 4096 704 0,
     192 \<mapsto> demo_tree_entry 0x901 8192 640 128, 256 \<mapsto> demo_tree_entry 0xB01 4096 832 0]"

definition demo_bucket :: ipc_hash_globals where
  "demo_bucket = demo_globals\<lparr>ipc_hash_global_table := [64]\<rparr>"

definition demo_tspace :: ipc_space where
  "demo_tspace = demo_space\<lparr>is_tree_total := 3, is_tree_hash := 2\<rparr>"

definition demo_tmap :: "ptr \<rightharpoonup> ptr" where
  "demo_tmap = [640 \<mapsto> 64, 704 \<mapsto> 128]"

lemma demo_chain: "chain demo_bheap 64 [64, 192, 128]"
  by (simp add: demo_bheap_def demo_tree_entry_def)

lemma demo_bucket_list: "bucket demo_bucket demo_bheap sp obj [64, 192, 128]"
  using demo_chain by (simp add: bucket_def demo_bucket_def demo_globals_def IH_GLOBAL_HASH_def del: chain.simps)

lemma demo_tree_map: "global_map_in {64, 192, 128} (demo_tspace, demo_bucket, demo_bheap) demo_tmap"
proof -
  have "buckets_ok demo_bucket demo_bheap (\<lambda>_. [64, 192, 128])"
    using demo_chain unfolding buckets_ok_def
    by (simp add: demo_bucket_def demo_globals_def bucket_of_def demo_bheap_def demo_tree_entry_def
        IH_GLOBAL_HASH_def del: chain.simps)
  moreover have "bucket_set demo_bucket (\<lambda>_. [64, 192, 128]) = {64, 192, 128}"
    by (simp add: bucket_set_def demo_bucket_def lessThan_Suc)
  ultimately have "global_hash demo_bucket demo_bheap {64, 192, 128}" unfolding global_hash_def by metis
  moreover have "demo_tmap obj = Some p \<longleftrightarrow> p \<in> {64, 192, 128} \<and> matching demo_bheap (is_addr demo_tspace) obj p" for obj p
    by (auto simp: demo_tmap_def matching_def ite_matches_def demo_bheap_def demo_tree_entry_def
        demo_tspace_def demo_space_def)
  moreover have "dom demo_tmap = {640, 704}" by (auto simp: demo_tmap_def)
  ultimately show ?thesis by (simp add: global_map_in_def demo_tspace_def demo_space_def)
qed

section \<open>Rounding up to a power of two\<close>

lemma and_succ_pow2: "n AND Suc n = 0 \<Longrightarrow> \<exists>k. Suc n = 2 ^ k" for n :: nat
proof (induction n rule: less_induct)
  case (less n)
  show ?case
  proof (cases "even n")
    case True
    then obtain k where k: "n = 2 * k" by (rule evenE)
    have "n AND Suc n = 2 * (k AND k)" by (subst and_rec) (simp add: k)
    then have "n = 0" using less.prems k by simp
    then show ?thesis by (intro exI [of _ 0]) simp
  next
    case False
    then obtain k where k: "n = 2 * k + 1" by (rule oddE)
    have "n AND Suc n = 2 * (k AND Suc k)" by (subst and_rec) (simp add: k)
    then have "k AND Suc k = 0" using less.prems by simp
    then obtain j where "Suc k = 2 ^ j" using less.IH [of k] k by auto
    then show ?thesis using k by (intro exI [of _ "Suc j"]) simp
  qed
qed

lemma word_and_succ_pow2:
  assumes "(m + 1) AND m = (0 :: u32)" "unat m < 2 ^ 31"
  shows "\<exists>k \<le> 31. m + 1 = 2 ^ k"
proof -
  have u: "unat (m + 1) = Suc (unat m)" using assms(2) by (simp add: unat_word_ariths)
  have "unat (m + 1) AND unat m = 0"
    using arg_cong [OF assms(1), of unat] by (simp add: unsigned_and_eq)
  then obtain k where k: "Suc (unat m) = 2 ^ k" using and_succ_pow2 [of "unat m"] u by (auto simp: and.commute)
  have "(2 :: nat) ^ k \<le> 2 ^ 31" using k assms(2) by simp
  then have k31: "k \<le> 31" using power_le_imp_le_exp [of 2 k 31] by simp
  have "m + 1 = of_nat (unat (m + 1))" by simp
  also have "\<dots> = 2 ^ k" unfolding u k by simp
  finally have "m + 1 = 2 ^ k" .
  with k31 show ?thesis by blast
qed

lemma full31:
  assumes low: "\<And>k. k < 31 \<Longrightarrow> bit (m :: u32) k" and lt: "unat m < 2 ^ 31"
  shows "(m + 1) AND m = 0"
proof -
  have "bit m k = bit (mask 31 :: u32) k" for k
    using low [of k] lt [unfolded unat_less_bits, rule_format, of k] unfolding bit_mask_iff by auto
  then have "m = mask 31" by (rule bit_eqI)
  then show ?thesis by (simp add: mask_eq_exp_minus_1)
qed

lemma hash_round_loop_ok:
  assumes "i \<le> 30" "unat m < 2 ^ 31" "\<And>j. j < i \<Longrightarrow> bit m j"
  shows "\<exists>m'. hash_round_loop (push_bit i 1) m = Some (m' + 1, m') \<and> (m' + 1) AND m' = 0 \<and>
    unat m' < 2 ^ 31 \<and> m \<le> m'"
  using assms
proof (induction "30 - i" arbitrary: i m rule: less_induct)
  case less
  let ?m = "m OR push_bit i 1"
  have bm: "bit ?m k \<longleftrightarrow> bit m k \<or> k = i" for k
    using less.prems(1) unfolding bit_or_iff bit_push_bit_iff bit_1_iff by auto
  have lt: "unat ?m < 2 ^ 31"
    unfolding unat_less_bits bm
    using less.prems(1) less.prems(2) [unfolded unat_less_bits, rule_format] by fastforce
  have low: "bit ?m j" if "j < Suc i" for j using that less.prems(3) unfolding bm by (auto simp: less_Suc_eq)
  have le: "m \<le> ?m" by (rule le_word_or2)
  have st: "hash_round_loop (push_bit i 1) m =
    (if (?m + 1) AND ?m = 0 then Some (?m + 1, ?m) else hash_round_loop (push_bit (Suc i) 1) ?m)"
    by (subst hash_round_loop.simps) (simp add: Let_def mult.commute)
  show ?case
  proof (cases "(?m + 1) AND ?m = 0")
    case True
    then show ?thesis unfolding st if_P [OF True] using lt le by blast
  next
    case False
    have "i \<noteq> 30" using False full31 [of ?m] low lt by auto
    then have "30 - Suc i < 30 - i" "Suc i \<le> 30" using less.prems(1) by auto
    from less.hyps [OF this lt low] obtain m' where
      "hash_round_loop (push_bit (Suc i) 1) ?m = Some (m' + 1, m')" "(m' + 1) AND m' = 0"
      "unat m' < 2 ^ 31" "?m \<le> m'" by blast
    moreover from this(4) have "m \<le> m'" by (rule order_trans [OF le])
    ultimately show ?thesis unfolding st if_not_P [OF False] by blast
  qed
qed

lemma empty_buckets: "unat msk < n \<Longrightarrow>
  global_hash \<lparr>ipc_hash_global_size = sz, ipc_hash_global_mask = msk, ipc_hash_global_table = replicate n 0\<rparr> h {}"
  unfolding global_hash_def buckets_ok_def bucket_set_def
  by (intro exI [of _ "\<lambda>_. []"]) simp

lemma hash_init_sized:
  assumes "sz \<noteq> 0" "unat sz \<le> 2 ^ 31"
  shows "\<exists>k \<le> 31. (if sz AND (sz - 1) \<noteq> 0 then hash_round_loop 1 (sz - 1) else Some (sz, sz - 1)) =
    Some (2 ^ k, 2 ^ k - 1) \<and> sz \<le> 2 ^ k"
proof -
  let ?m = "sz - 1"
  have um: "unat ?m = unat sz - 1" using assms(1) by (simp add: unat_minus_one)
  have nz: "0 < unat sz" using assms(1) by (simp add: unat_gt_0)
  have lt: "unat ?m < 2 ^ 31" using um nz assms(2) by simp
  show ?thesis
  proof (cases "sz AND ?m = 0")
    case True
    then have "(?m + 1) AND ?m = 0" by simp
    from word_and_succ_pow2 [OF this lt] True show ?thesis by auto
  next
    case False
    from hash_round_loop_ok [of 0 ?m] lt obtain m' where
      m': "hash_round_loop 1 ?m = Some (m' + 1, m')" "(m' + 1) AND m' = 0" "unat m' < 2 ^ 31" "?m \<le> m'" by auto
    from word_and_succ_pow2 [OF m'(2,3)] obtain k where k: "k \<le> 31" "m' + 1 = 2 ^ k" by blast
    then have "m' = 2 ^ k - 1" by (simp add: algebra_simps eq_diff_eq)
    moreover have "sz \<le> m' + 1"
      using m'(3,4) um nz unfolding word_le_nat_alt by (simp add: unat_word_ariths)
    ultimately show ?thesis using m'(1) k False by auto
  qed
qed

section \<open>Properties\<close>

text \<open>C10. Inserting an entry into the local hash table returns, whatever clumps there are, and
  changes only hash slots. Afterwards the lookup of the inserted object gives the entry and its name,
  made of its index and the generation in its bits, and the lookup of every other object gives the
  name and the entry it gave before, or none.\<close>

theorem local_insert_correct:
  assumes "local_map space m" "m obj = None" "obj \<noteq> 0" "local_fits space obj i"
  shows "\<exists>s'. ipc_hash_local_insert space obj i (Table_entry (unat i)) = Some s' \<and>
    local_map s' (m(obj \<mapsto> i)) \<and> noslots (is_table s') = noslots (is_table space) \<and>
    ipc_hash_local_lookup g s' obj =
      Some (Some (MACH_PORT_MAKEB g i (ie_bits (is_table space ! unat i)), Table_entry (unat i))) \<and>
    (\<forall>j. j \<noteq> 0 \<and> j \<noteq> obj \<longrightarrow> ipc_hash_local_lookup g s' j = ipc_hash_local_lookup g space j \<and>
      ipc_hash_local_lookup g space j = Some (map_option (\<lambda>k. (local_name g space k, Table_entry (unat k))) (m j)))"
proof -
  from local_ins_law [OF assms] obtain s' where s': "local_ins space obj i = Some s'"
    "local_map s' (m(obj \<mapsto> i))" "noslots (is_table s') = noslots (is_table space)" by blast
  have "local_name g space i = MACH_PORT_MAKEB g i (ie_bits (is_table space ! unat i))"
    using assms(4) by (simp add: local_name_def local_fits_def)
  then show ?thesis
    using s' local_lookup_eq [OF s'(2), of _ g] local_lookup_eq [OF assms(1), of _ g] assms(3)
    by (intro exI [of _ s']) (simp add: local_ins_def local_name_noslots [OF s'(3)])
qed

theorem local_insert_correct_witness:
  "\<exists>s'. ipc_hash_local_insert demo_space 128 3 (Table_entry 3) = Some s' \<and>
    local_map s' (demo_map(128 \<mapsto> 3)) \<and>
    ipc_hash_local_lookup True s' 128 = Some (Some (0x301, Table_entry 3)) \<and>
    ipc_hash_local_lookup True s' 320 = Some (Some (0x201, Table_entry 2))"
proof -
  have m: "demo_map 128 = None" "demo_map 320 = Some 2" by (simp_all add: demo_map_def)
  have n: "MACH_PORT_MAKEB True 3 (ie_bits (is_table demo_space ! 3)) = 0x301"
    "local_name True demo_space 2 = 0x201"
    by (simp_all add: local_name_def demo_space_def demo_table_def demo_slot_def MACH_PORT_MAKEB_def
        MACH_PORT_MAKE_def IE_BITS_GEN_def IE_BITS_GEN_MASK_def)
  from local_insert_correct [OF demo_local_map m(1) _ demo_fits, of True] m(2) n show ?thesis by auto
qed

text \<open>C11. Deleting an entry from the local hash table returns, changes only hash slots, and keeps
  every other entry reachable: the entries that were displaced across the freed slot are moved. The
  lookup of the deleted object then fails, and that of every other object gives the name and the
  entry it gave before.\<close>

theorem local_delete_correct:
  assumes "local_map space m" "m obj = Some i" "obj \<noteq> 0"
  shows "\<exists>s'. ipc_hash_local_delete space obj i (Table_entry (unat i)) = Some s' \<and>
    local_map s' (m(obj := None)) \<and> noslots (is_table s') = noslots (is_table space) \<and>
    (\<forall>j. j \<noteq> 0 \<longrightarrow> ipc_hash_local_lookup g s' j =
      Some (if j = obj then None else map_option (\<lambda>k. (local_name g space k, Table_entry (unat k))) (m j)))"
proof -
  from local_del_law [OF assms] obtain s' where s': "local_del space obj i = Some s'"
    "local_map s' (m(obj := None))" "noslots (is_table s') = noslots (is_table space)" by blast
  then show ?thesis
    using local_lookup_eq [OF s'(2), of _ g]
    by (intro exI [of _ s']) (simp add: local_del_def local_name_noslots [OF s'(3)])
qed

theorem local_delete_correct_witness:
  "\<exists>s'. ipc_hash_local_delete demo_space 64 1 (Table_entry 1) = Some s' \<and>
    local_map s' (demo_map(64 := None)) \<and> ipc_hash_local_lookup True s' 64 = Some None \<and>
    ipc_hash_local_lookup True s' 320 = Some (Some (0x201, Table_entry 2))"
proof -
  have m: "demo_map 64 = Some 1" "demo_map 320 = Some 2" by (simp_all add: demo_map_def)
  have "local_name True demo_space 2 = 0x201"
    by (simp add: local_name_def demo_space_def demo_table_def demo_slot_def MACH_PORT_MAKEB_def
        MACH_PORT_MAKE_def IE_BITS_GEN_def IE_BITS_GEN_MASK_def)
  with local_delete_correct [OF demo_local_map m(1), of True] m(2) show ?thesis by auto
qed

text \<open>C12. The global table, whatever its buckets hold and wherever in its bucket an entry is, is a
  map from the objects of a space to its tree entries. The lookup of any object returns the name and
  the entry stored for it, or none, and moves the entry found to the front of its bucket, the others
  keeping their order. The insertion of a new object adds exactly its entry. The deletion of any
  stored object removes exactly its entry. In all three cases nothing but links of the chains changes,
  the entries of all spaces are the ones of before but for the one added or removed,
  \<open>is_tree_hash\<close> stays the number of entries of the space, and afterwards every lookup gives
  what the map says, with the names of before.\<close>

theorem global_table_correct:
  assumes "global_map_in X (space, gl, h) m" "obj \<noteq> 0"
  shows "(\<exists>gl' h'. ipc_hash_global_lookup space obj gl h =
        Some (map_option (\<lambda>p. (tree_name h p, p)) (m obj), gl', h') \<and>
      global_map_in X (space, gl', h') m \<and> next_only X h h' \<and>
      (\<forall>p xs. m obj = Some p \<and> bucket gl h (is_addr space) obj xs \<longrightarrow>
         bucket gl' h' (is_addr space) obj (p # remove1 p xs))) \<and>
    (\<forall>p. m obj = None \<and> global_fits (space, gl, h) obj p \<longrightarrow>
      (\<exists>space' gl' h'. ipc_hash_global_insert space obj (tree_name h p) p gl h = Some (space', gl', h') \<and>
        space' = space\<lparr>is_tree_hash := is_tree_hash space + 1\<rparr> \<and>
        global_map_in (insert p X) (space', gl', h') (m(obj \<mapsto> p)) \<and> next_only {p} h h' \<and>
        (\<forall>j. j \<noteq> 0 \<longrightarrow> (\<exists>st. global_look (space', gl', h') j =
          Some (map_option (\<lambda>q. (tree_name h q, q)) (if j = obj then Some p else m j), st))))) \<and>
    (\<forall>p. m obj = Some p \<longrightarrow>
      (\<exists>space' gl' h'. ipc_hash_global_delete space obj (tree_name h p) p gl h = Some (space', gl', h') \<and>
        space' = space\<lparr>is_tree_hash := is_tree_hash space - 1\<rparr> \<and>
        global_map_in (X - {p}) (space', gl', h') (m(obj := None)) \<and> next_only X h h' \<and>
        (\<forall>j. j \<noteq> 0 \<longrightarrow> (\<exists>st. global_look (space', gl', h') j =
          Some (map_option (\<lambda>q. (tree_name h q, q)) (if j = obj then None else m j), st)))))"
proof (intro conjI allI impI, goal_cases)
  case 1
  show ?case by (rule global_lookup_law [OF assms])
next
  case (2 p)
  let ?s = "space\<lparr>is_tree_hash := is_tree_hash space + 1\<rparr>"
  from global_insert_law [OF assms(1) conjunct1 [OF 2] assms(2) conjunct2 [OF 2]] obtain gl' h' where
    i: "ipc_hash_global_insert space obj (tree_name h p) p gl h = Some (?s, gl', h')"
    "global_map_in (insert p X) (?s, gl', h') (m(obj \<mapsto> p))" "next_only {p} h h'" by blast
  have "\<exists>st. global_look (?s, gl', h') j =
      Some (map_option (\<lambda>q. (tree_name h q, q)) (if j = obj then Some p else m j), st)" if "j \<noteq> 0" for j
    using global_rh.ins_look [OF global_mapI [OF assms(1)] conjunct1 [OF 2] assms(2) conjunct2 [OF 2] that] i(1)
    by (auto simp: global_ins_def global_name_def)
  then show ?case using i by blast
next
  case (3 p)
  let ?s = "space\<lparr>is_tree_hash := is_tree_hash space - 1\<rparr>"
  from global_delete_law [OF assms(1) 3 assms(2)] obtain gl' h' where
    d: "ipc_hash_global_delete space obj (tree_name h p) p gl h = Some (?s, gl', h')"
    "global_map_in (X - {p}) (?s, gl', h') (m(obj := None))" "next_only X h h'" by blast
  have "\<exists>st. global_look (?s, gl', h') j =
      Some (map_option (\<lambda>q. (tree_name h q, q)) (if j = obj then None else m j), st)" if "j \<noteq> 0" for j
    using global_rh.del_look [OF global_mapI [OF assms(1)] 3 assms(2) that] d(1)
    by (auto simp: global_del_def global_name_def)
  then show ?case using d by blast
qed

theorem global_table_correct_witness:
  "(\<exists>gl' h'. ipc_hash_global_lookup demo_tspace 704 demo_bucket demo_bheap = Some (Some (0xA01, 128), gl', h') \<and>
      bucket gl' h' 4096 704 [128, 64, 192]) \<and>
   (\<exists>space' gl' h'. ipc_hash_global_delete demo_tspace 704 0xA01 128 demo_bucket demo_bheap = Some (space', gl', h') \<and>
      is_tree_hash space' = 1 \<and> (\<exists>st. global_look (space', gl', h') 704 = Some (None, st)) \<and>
      (\<exists>st. global_look (space', gl', h') 640 = Some (Some (0x901, 64), st))) \<and>
   (\<exists>st. ipc_hash_global_insert demo_tspace 832 0xB01 256 demo_bucket demo_bheap = Some st)"
proof (intro conjI, goal_cases)
  have n: "tree_name demo_bheap 64 = 0x901" "tree_name demo_bheap 128 = 0xA01" "tree_name demo_bheap 256 = 0xB01"
    by (simp_all add: tree_name_def demo_bheap_def demo_tree_entry_def)
  have m: "demo_tmap 704 = Some 128" "demo_tmap 640 = Some 64" "demo_tmap 832 = None" by (simp_all add: demo_tmap_def)
  have a: "is_addr demo_tspace = 4096" "is_tree_hash demo_tspace = 2" by (simp_all add: demo_tspace_def demo_space_def)
  note t704 = global_table_correct [OF demo_tree_map, of 704, simplified n m a, simplified]
  case 1
  from conjunct1 [OF t704] obtain gl' h' where
    l: "ipc_hash_global_lookup demo_tspace 704 demo_bucket demo_bheap = Some (Some (0xA01, 128), gl', h')"
    "\<forall>xs. bucket demo_bucket demo_bheap 4096 704 xs \<longrightarrow> bucket gl' h' 4096 704 (128 # remove1 128 xs)"
    using n by auto
  have "bucket gl' h' 4096 704 [128, 64, 192]" using l(2) [rule_format, OF demo_bucket_list] by simp
  then show ?case using l(1) by blast
  case 2
  from conjunct2 [OF t704] obtain gl' h' where
    d: "ipc_hash_global_delete demo_tspace 704 0xA01 128 demo_bucket demo_bheap =
      Some (demo_tspace\<lparr>is_tree_hash := 1\<rparr>, gl', h')"
    "\<forall>j. j \<noteq> 0 \<longrightarrow> (\<exists>st. global_look (demo_tspace\<lparr>is_tree_hash := 1\<rparr>, gl', h') j =
          Some (map_option (\<lambda>q. (tree_name demo_bheap q, q)) (if j = 704 then None else demo_tmap j), st))"
    using n by auto
  from d(2) [rule_format, of 704] d(2) [rule_format, of 640] d(1) n m show ?case by auto
  case 3
  have "global_fits (demo_tspace, demo_bucket, demo_bheap) 832 256"
    by (simp add: global_fits_def matching_def ite_matches_def demo_bheap_def demo_tree_entry_def
        demo_tspace_def demo_space_def)
  with global_table_correct [OF demo_tree_map, of 832] n m show ?case by auto
qed

text \<open>C13. The combined lookup prefers the local table, and otherwise finds exactly the entries
  of the space in the global table, in both cases with their names; skipping the global table when \<open>is_tree_hash\<close> is zero never
  loses an entry.\<close>

theorem hash_lookup_refines:
  assumes "local_map space ml" "global_map (space, gl, h) mg" "obj \<noteq> 0"
  shows "\<exists>r gl' h'. ipc_hash_lookup g space obj gl h = Some (r, gl', h') \<and>
    global_map (space, gl', h') mg \<and>
    r = (case ml obj of Some i \<Rightarrow> Some (local_name g space i, Table_entry (unat i))
      | None \<Rightarrow> map_option (\<lambda>p. (tree_name h p, Tree_entry p)) (mg obj))"
proof (cases "ml obj")
  case (Some i)
  then show ?thesis using local_lookup_eq [OF assms(1,3), of g] assms(2) by (auto simp: ipc_hash_lookup_def)
next
  case None
  note ll = local_lookup_eq [OF assms(1,3), of g, unfolded None]
  from assms(2) obtain X where gm: "global_map_in X (space, gl, h) mg" by (auto simp: global_map_def)
  show ?thesis
  proof (cases "is_tree_hash space = 0")
    case True
    then have "dom mg = {}"
      using gm global_map_finite [OF gm] by (auto simp: global_map_in_def)
    then show ?thesis using ll None True assms(2) by (simp add: ipc_hash_lookup_def)
  next
    case False
    then have pos: "is_tree_hash space > 0" by (simp add: word_neq_0_conv)
    from global_lookup_law [OF gm assms(3)] obtain gl' h' where
      l: "ipc_hash_global_lookup space obj gl h = Some (map_option (\<lambda>p. (tree_name h p, p)) (mg obj), gl', h')"
      "global_map_in X (space, gl', h') mg" by blast
    from l(1) have "ipc_hash_lookup g space obj gl h =
        Some (map_option (\<lambda>p. (tree_name h p, Tree_entry p)) (mg obj), gl', h')"
      using ll pos by (cases "mg obj") (simp_all add: ipc_hash_lookup_def)
    then show ?thesis using None l(2) by (auto simp: global_map_def)
  qed
qed

theorem hash_lookup_refines_witness:
  "(\<exists>gl' h'. ipc_hash_lookup True demo_tspace 320 demo_bucket demo_bheap =
      Some (Some (local_name True demo_tspace 2, Table_entry 2), gl', h')) \<and>
   (\<exists>gl' h'. ipc_hash_lookup True demo_tspace 704 demo_bucket demo_bheap = Some (Some (0xA01, Tree_entry 128), gl', h'))"
proof -
  have lm: "local_map demo_tspace demo_map" using demo_local_map by (simp add: local_map_def demo_tspace_def)
  have gm: "global_map (demo_tspace, demo_bucket, demo_bheap) demo_tmap" using demo_tree_map global_map_def by blast
  show ?thesis
    using hash_lookup_refines [OF lm gm, of 320 True] hash_lookup_refines [OF lm gm, of 704 True]
    by (auto simp: demo_map_def demo_tmap_def tree_name_def demo_bheap_def demo_tree_entry_def)
qed

text \<open>C14. When no size is configured, the initialisation ends with a table whose size is a power
  of two, at least 32 and at least \<open>ipc_tree_entry_max\<close> divided by 256, with the matching mask
  and empty buckets.\<close>

theorem hash_init_correct:
  "\<exists>gl k. ipc_hash_init ipc_tree_entry_max 0 = Some gl \<and> k \<le> 31 \<and>
    ipc_hash_global_size gl = 2 ^ k \<and> ipc_hash_global_mask gl = 2 ^ k - 1 \<and>
    length (ipc_hash_global_table gl) = 2 ^ k \<and> 32 \<le> ipc_hash_global_size gl \<and>
    drop_bit 8 ipc_tree_entry_max \<le> ipc_hash_global_size gl \<and> global_hash gl h {}"
proof -
  define s where "s = drop_bit 8 ipc_tree_entry_max"
  define sz where "sz = (if s < 32 then 32 else s)"
  have s: "unat s \<le> 2 ^ 31" using unat_lt32 [of ipc_tree_entry_max] by (simp add: s_def drop_bit_eq_div unat_div)
  have sz: "sz \<noteq> 0" "unat sz \<le> 2 ^ 31" "32 \<le> sz" "s \<le> sz" using s by (auto simp: sz_def)
  from hash_init_sized [OF sz(1,2)] obtain k where k: "k \<le> 31"
    "(if sz AND (sz - 1) \<noteq> 0 then hash_round_loop 1 (sz - 1) else Some (sz, sz - 1)) =
      Some (2 ^ k, 2 ^ k - 1)" "sz \<le> 2 ^ k" by blast
  have "(2 :: nat) ^ k \<le> 2 ^ 31" using k(1) by (rule power_increasing) simp
  then have uk: "unat (2 ^ k :: u32) = 2 ^ k" using unat_of_nat32 [of "2 ^ k"] by simp
  have nz: "(2 ^ k :: u32) \<noteq> 0" using sz(1) k(3) by (metis word_le_0_iff)
  have um: "unat (2 ^ k - 1 :: u32) < 2 ^ k" 
    using uk unat_minus_one [OF nz] by (simp only:) simp
  let ?gl = "\<lparr>ipc_hash_global_size = 2 ^ k, ipc_hash_global_mask = 2 ^ k - 1,
      ipc_hash_global_table = replicate (2 ^ k) 0\<rparr>"
  have "ipc_hash_init ipc_tree_entry_max 0 = Option.bind
      (if sz AND (sz - 1) \<noteq> 0 then hash_round_loop 1 (sz - 1) else Some (sz, sz - 1))
      (\<lambda>(sz, msk). Some \<lparr>ipc_hash_global_size = sz, ipc_hash_global_mask = msk,
         ipc_hash_global_table = replicate (unat sz) 0\<rparr>)"
    unfolding sz_def s_def ipc_hash_init_def Let_def by (simp only: simp_thms if_True)
  then have "ipc_hash_init ipc_tree_entry_max 0 = Some ?gl" unfolding k(2) by (simp only: Option.bind.simps prod.case uk)
  moreover have "global_hash ?gl h {}" by (rule empty_buckets [OF um])
  moreover have "32 \<le> (2 ^ k :: u32)" "s \<le> 2 ^ k" using sz(3,4) k(3) by (blast intro: order_trans)+
  ultimately show ?thesis using k(1) unfolding s_def
    by (intro exI [of _ ?gl] exI [of _ k] conjI) (assumption | simp only: ipc_hash_globals.select_convs length_replicate)+
qed

end
