(* ===== verification/Ipc_Table.thy ===== *)
theory Ipc_Table
  imports Mach_Prelude
begin

text \<open>
  The sizes of the tables of entries and of dead-name requests,
  \<^verbatim>\<open>mach4/kernel/ipc/ipc_table.c\<close>. Sizes in bytes are 32-bit values
  (\<^verbatim>\<open>vm_size_t\<close>); the array that \<^verbatim>\<open>ipc_table_fill\<close> fills is the list of
  the elements written so far, its length being \<^verbatim>\<open>index\<close>. The page size, the element
  sizes and the kernel allocators are parameters.
\<close>

section \<open>Filling an array of sizes\<close>

text \<open>Powers of two up to the page size.\<close>

partial_function (option) fill_powers ::
  "u32 \<Rightarrow> nat \<Rightarrow> u32 \<Rightarrow> u32 \<Rightarrow> u32 \<Rightarrow> u32 list \<Rightarrow> (u32 \<times> u32 list) option" where
  "fill_powers PAGE_SIZE num minsize elemsize sz its =
     (if length its < num \<and> sz < PAGE_SIZE then
        fill_powers PAGE_SIZE num minsize elemsize (push_bit 1 sz)
          (if minsize \<le> sz then its @ [sz div elemsize] else its)
      else Some (sz, its))"

text \<open>Fifteen steps of the current increment.\<close>

function fill_period ::
  "nat \<Rightarrow> u32 \<Rightarrow> u32 \<Rightarrow> u32 \<Rightarrow> nat \<Rightarrow> u32 \<Rightarrow> u32 list \<Rightarrow> u32 \<times> u32 list" where
  "fill_period num minsize elemsize incrsize period sz its =
     (if period < 15 \<and> length its < num then
        fill_period num minsize elemsize incrsize (Suc period) (sz + incrsize)
          (if minsize \<le> sz then its @ [sz div elemsize] else its)
      else (sz, its))"
  by pat_completeness auto
termination by (relation "measure (\<lambda>(num, minsize, elemsize, incrsize, period, sz, its). 15 - period)") auto

declare fill_period.simps [simp del]

partial_function (option) fill_periods ::
  "u32 \<Rightarrow> nat \<Rightarrow> u32 \<Rightarrow> u32 \<Rightarrow> u32 \<Rightarrow> u32 \<Rightarrow> u32 list \<Rightarrow> u32 list option" where
  "fill_periods PAGE_SIZE num minsize elemsize incrsize sz its =
     (if length its < num then
        let (sz, its) = fill_period num minsize elemsize incrsize 0 sz its
        in fill_periods PAGE_SIZE num minsize elemsize
             (if incrsize < push_bit 3 PAGE_SIZE then push_bit 1 incrsize else incrsize) sz its
      else Some its)"

definition ipc_table_fill :: "u32 \<Rightarrow> nat \<Rightarrow> u32 \<Rightarrow> u32 \<Rightarrow> u32 list option" where
  "ipc_table_fill PAGE_SIZE num min_elems elemsize = do {
     let minsize = min_elems * elemsize;
     (sz, its) \<leftarrow> fill_powers PAGE_SIZE num minsize elemsize 1 [];
     fill_periods PAGE_SIZE num minsize elemsize PAGE_SIZE sz its }"

text \<open>The two arrays; the sizes of the structures are those of the 32-bit kernel.\<close>

definition ipc_table_entries_size :: nat where "ipc_table_entries_size = 512"
definition ipc_table_dnrequests_size :: nat where "ipc_table_dnrequests_size = 64"

definition sizeof_ipc_entry :: u32 where "sizeof_ipc_entry = 16"
definition sizeof_ipc_tree_entry :: u32 where "sizeof_ipc_tree_entry = 32"
definition sizeof_ipc_port_request :: u32 where "sizeof_ipc_port_request = 8"
definition sizeof_ipc_table_size :: u32 where "sizeof_ipc_table_size = 4"

definition ipc_table_init :: "u32 \<Rightarrow> (u32 \<Rightarrow> ptr) \<Rightarrow> (u32 list \<times> u32 list) option" where
  "ipc_table_init PAGE_SIZE kalloc = do {
     oassert (kalloc (sizeof_ipc_table_size * of_nat ipc_table_entries_size) \<noteq> 0);
     ents \<leftarrow> ipc_table_fill PAGE_SIZE (ipc_table_entries_size - 1) 4 sizeof_ipc_entry;
     let ents = ents @ [ents ! (ipc_table_entries_size - 2)];
     oassert (kalloc (sizeof_ipc_table_size * of_nat ipc_table_dnrequests_size) \<noteq> 0);
     dnrs \<leftarrow> ipc_table_fill PAGE_SIZE (ipc_table_dnrequests_size - 1) 2 sizeof_ipc_port_request;
     let dnrs = dnrs @ [0];
     Some (ents, dnrs) }"

section \<open>Allocation of tables\<close>

text \<open>\<^verbatim>\<open>kalloc\<close>, \<^verbatim>\<open>kmem_alloc\<close>, \<^verbatim>\<open>kmem_realloc\<close> are parameters; a null result
  is failure.\<close>

definition ipc_table_alloc ::
  "u32 \<Rightarrow> (u32 \<Rightarrow> ptr) \<Rightarrow> (u32 \<Rightarrow> kern_return \<times> ptr) \<Rightarrow> u32 \<Rightarrow> ptr" where
  "ipc_table_alloc PAGE_SIZE kalloc kmem_alloc sz =
     (if sz < PAGE_SIZE then kalloc sz
      else (case kmem_alloc sz of (kr, table) \<Rightarrow> if kr \<noteq> KERN_SUCCESS then 0 else table))"

definition ipc_table_realloc ::
  "(ptr \<Rightarrow> u32 \<Rightarrow> u32 \<Rightarrow> kern_return \<times> ptr) \<Rightarrow> u32 \<Rightarrow> ptr \<Rightarrow> u32 \<Rightarrow> ptr" where
  "ipc_table_realloc kmem_realloc old_size old_table new_size =
     (case kmem_realloc old_table old_size new_size of (kr, table) \<Rightarrow> if kr \<noteq> KERN_SUCCESS then 0 else table)"

section \<open>The sizes increase\<close>

text \<open>Every element written so far is the quotient of a size in bytes at least one element below
  the current size.\<close>

definition sizes_ok :: "u32 \<Rightarrow> u32 \<Rightarrow> u32 list \<Rightarrow> bool" where
  "sizes_ok elemsize sz its \<longleftrightarrow> sorted_wrt (<) its \<and>
     (\<forall>x \<in> set its. (unat x + 1) * unat elemsize \<le> unat sz)"

lemma sizes_ok_mono: "sizes_ok elemsize sz its \<Longrightarrow> sz \<le> sz' \<Longrightarrow> sizes_ok elemsize sz' its"
  by (auto simp: sizes_ok_def word_le_nat_alt)

lemma sizes_ok_snoc:
  assumes ok: "sizes_ok e sz its" and e: "0 < e" and st: "unat sz + unat e \<le> unat sz'"
  shows "sizes_ok e sz' (its @ [sz div e])"
proof -
  have e0: "0 < unat e" using e by (simp add: word_less_nat_alt)
  have u: "unat (sz div e) = unat sz div unat e" by (simp add: unat_div)
  have "x < sz div e" if "x \<in> set its" for x
  proof -
    have "(unat x + 1) * unat e \<le> unat sz" using ok that by (simp add: sizes_ok_def)
    then have "unat x + 1 \<le> unat sz div unat e" using e0 by (simp add: less_eq_div_iff_mult_less_eq)
    then show ?thesis by (simp add: word_less_nat_alt u)
  qed
  moreover have "(unat (sz div e) + 1) * unat e \<le> unat sz'"
  proof -
    have "unat sz div unat e * unat e \<le> unat sz" by simp
    then show ?thesis using st unfolding u by (simp only: add_mult_distrib mult_1)
  qed
  moreover have "(unat x + 1) * unat e \<le> unat sz'" if "x \<in> set its" for x
    using ok that st by (fastforce simp: sizes_ok_def)
  ultimately show ?thesis using ok by (auto simp: sizes_ok_def sorted_wrt_append)
qed

text \<open>The loop invariant: increasing sizes, none below the minimum, and a bound on the size in
  bytes that excludes wrap-around.\<close>

definition fill_inv :: "u32 \<Rightarrow> u32 \<Rightarrow> u32 \<Rightarrow> u32 list \<Rightarrow> bool" where
  "fill_inv mn e sz its \<longleftrightarrow> sizes_ok e sz its \<and> (\<forall>x \<in> set its. mn \<le> x) \<and>
     unat sz \<le> 4096 + 32768 * length its"

lemma fill_inv_push:
  assumes inv: "fill_inv mn e sz its" and e: "0 < e" and n: "length its < 1024"
    and mn: "unat mn * unat e \<le> unat sz"
    and d: "unat e \<le> unat d" "unat d \<le> 32768"
  shows "fill_inv mn e (sz + d) (its @ [sz div e])" "unat (sz + d) = unat sz + unat d"
proof -
  have "unat sz + unat d < 2 ^ 32" using inv n d by (simp add: fill_inv_def)
  then show u: "unat (sz + d) = unat sz + unat d" by (simp add: unat_word_ariths)
  have e0: "0 < unat e" using e by (simp add: word_less_nat_alt)
  have "unat mn \<le> unat sz div unat e" using mn e0 by (simp add: less_eq_div_iff_mult_less_eq)
  then have "mn \<le> sz div e" by (simp add: word_le_nat_alt unat_div)
  moreover have "sizes_ok e (sz + d) (its @ [sz div e])"
    using inv d u by (intro sizes_ok_snoc [OF _ e]) (auto simp: fill_inv_def)
  ultimately show "fill_inv mn e (sz + d) (its @ [sz div e])"
    using inv d u by (auto simp: fill_inv_def)
qed

lemma push1: "push_bit 1 (x :: u32) = x + x"
  by (simp only: push_bit_eq_mult power_one_right mult_2_right)

lemma fill_powers_ok:
  assumes "sz = 2 ^ i" "i \<le> 12" "fill_inv mn e sz its" "length its \<le> num" "num \<le> 1024"
    and "0 < e" "unat e \<le> unat ms" "unat ms = unat mn * unat e"
  shows "\<exists>sz' its'. fill_powers 4096 num ms e sz its = Some (sz', its') \<and> fill_inv mn e sz' its' \<and>
    length its' \<le> num \<and> (length its' = num \<or> sz' = 4096)"
  using assms
proof (induction "12 - i" arbitrary: i sz its rule: less_induct)
  case less
  have u: "unat sz = 2 ^ i"
  proof -
    have "(2 :: nat) ^ i \<le> 2 ^ 12" using less.prems(2) by (intro power_increasing) auto
    then show ?thesis using unat_of_nat32 [of "2 ^ i"] by (simp add: less.prems(1))
  qed
  have lt: "sz < 4096 \<longleftrightarrow> i < 12"
    using u power_strict_increasing_iff [of "2 :: nat" i 12] by (simp add: word_less_nat_alt)
  show ?case
  proof (cases "length its < num \<and> sz < 4096")
    case False
    have "fill_powers 4096 num ms e sz its = Some (sz, its)"
      by (subst fill_powers.simps, subst if_not_P [OF False]) (rule refl)
    moreover have "length its = num \<or> sz = 4096"
      using False lt less.prems(1,2,4) by (cases "i = 12") auto
    ultimately show ?thesis using less.prems(3,4) by auto
  next
    case True
    let ?its = "if ms \<le> sz then its @ [sz div e] else its"
    have i: "i < 12" using True lt by simp
    have st: "fill_powers 4096 num ms e sz its = fill_powers 4096 num ms e (sz + sz) ?its"
      by (subst fill_powers.simps, subst if_P [OF True]) (simp only: push1)
    have "(2 :: nat) ^ i \<le> 2 ^ 11" using i by (intro power_increasing) auto
    then have us: "unat sz \<le> 2048" using u by simp
    then have uu: "unat (sz + sz) = unat sz + unat sz" by (simp add: unat_word_ariths)
    have "fill_inv mn e (sz + sz) ?its"
    proof (cases "ms \<le> sz")
      case True
      then have le: "unat ms \<le> unat sz" by (simp add: word_le_nat_alt)
      have len: "length its < 1024" using \<open>length its < num \<and> sz < 4096\<close> less.prems(5) by simp
      have "fill_inv mn e (sz + sz) (its @ [sz div e])"
        by (rule fill_inv_push(1) [OF less.prems(3,6) len]) (use le less.prems(7,8) us in linarith)+
      then show ?thesis using True by (simp only: if_True)
    next
      case False
      have "sz \<le> sz + sz" using uu by (simp add: word_le_nat_alt)
      then show ?thesis
        using False less.prems(3) us uu sizes_ok_mono by (auto simp: fill_inv_def)
    qed
    moreover have "length ?its \<le> num" using True by auto
    moreover have "sz + sz = 2 ^ Suc i" using less.prems(1) by simp
    ultimately show ?thesis unfolding st
      using less.hyps [of "Suc i" "sz + sz" ?its] i less.prems(5-8) by simp
  qed
qed

lemma fill_period_ok:
  assumes "fill_inv mn e sz its" "length its \<le> num" "num \<le> 1024" "0 < e" "unat ms = unat mn * unat e"
    and "ms \<le> sz" "unat e \<le> unat d" "unat d \<le> 32768" "period \<le> 15"
  shows "\<exists>sz' its'. fill_period num ms e d period sz its = (sz', its') \<and> fill_inv mn e sz' its' \<and>
    length its' \<le> num \<and> ms \<le> sz' \<and> length its + (if period < 15 \<and> length its < num then 1 else 0) \<le> length its'"
  using assms
proof (induction num ms e d period sz its rule: fill_period.induct)
  case (1 num ms e d period sz its)
  show ?case
  proof (cases "period < 15 \<and> length its < num")
    case False
    then show ?thesis using 1 by (subst fill_period.simps) auto
  next
    case True
    have ms: "unat mn * unat e \<le> unat sz" using 1(6,7) by (simp add: word_le_nat_alt)
    have p: "fill_inv mn e (sz + d) (its @ [sz div e])" "unat (sz + d) = unat sz + unat d"
      using fill_inv_push [OF 1(2) 1(5) _ ms 1(8,9)] True 1(4) by simp_all
    have "ms \<le> sz + d" using 1(7) p(2) by (simp add: word_le_nat_alt)
    then show ?thesis
      using 1(1) [OF True] 1(3-10) True p(1)
      by (subst fill_period.simps) (fastforce simp: Suc_le_eq split: if_splits)
  qed
qed

lemma fill_periods_ok:
  assumes "fill_inv mn e sz its" "length its \<le> num" "num \<le> 1024" "0 < e" "unat ms = unat mn * unat e"
    and "ms \<le> sz \<or> length its = num" "unat e \<le> 4096" "d \<in> {4096, 8192, 16384, 32768}"
  shows "\<exists>its' sz'. fill_periods 4096 num ms e d sz its = Some its' \<and> length its' = num \<and> fill_inv mn e sz' its'"
  using assms
proof (induction "num - length its" arbitrary: d sz its rule: less_induct)
  case less
  show ?case
  proof (cases "length its < num")
    case False
    then have "fill_periods 4096 num ms e d sz its = Some its"
      by (subst fill_periods.simps, subst if_not_P [OF False]) (rule refl)
    then show ?thesis using False less.prems(1,2) by auto
  next
    case True
    then have ms: "ms \<le> sz" using less.prems(6) by simp
    have d: "unat e \<le> unat d" "unat d \<le> 32768" using less.prems(7,8) by auto
    from fill_period_ok [OF less.prems(1-5) ms d, of 0] True obtain sz' its' where
      p: "fill_period num ms e d 0 sz its = (sz', its')" "fill_inv mn e sz' its'" "length its' \<le> num"
      "ms \<le> sz'" "length its < length its'" by auto
    let ?d = "if d < push_bit 3 4096 then push_bit 1 d else d"
    have "?d \<in> {4096, 8192, 16384, 32768}" using less.prems(8) by (auto simp: push_bit_eq_mult)
    then have "\<exists>its'' sz''. fill_periods 4096 num ms e ?d sz' its' = Some its'' \<and> length its'' = num \<and>
        fill_inv mn e sz'' its''"
      using p less.prems(3,4,5,7) by (intro less.hyps) auto
    then show ?thesis
      by (subst fill_periods.simps, subst if_P [OF True]) (simp only: p(1) Let_def prod.case)
  qed
qed

lemma table_fill_ok:
  assumes "num \<le> 1024" "0 < e" "0 < mn" "unat mn * unat e \<le> 4096"
  shows "\<exists>its. ipc_table_fill 4096 num mn e = Some its \<and> length its = num \<and> sorted_wrt (<) its \<and>
    (\<forall>x \<in> set its. mn \<le> x \<and> unat x * unat e \<le> 4096 + 32768 * num)"
proof -
  let ?ms = "mn * e"
  have ms: "unat ?ms = unat mn * unat e" using assms(4) by (simp add: unat_word_ariths)
  have mn0: "0 < unat mn" using assms(3) by (simp add: word_less_nat_alt)
  have e: "unat e \<le> unat ?ms" using mn0 unfolding ms by simp
  have e4: "unat e \<le> 4096" using order_trans [OF e] assms(4) unfolding ms .
  have "fill_inv mn e 1 []" by (simp add: fill_inv_def sizes_ok_def)
  from fill_powers_ok [of 1 0 mn e "[]" num ?ms] this assms(1,2) e ms obtain sz its where
    f: "fill_powers 4096 num ?ms e 1 [] = Some (sz, its)" "fill_inv mn e sz its" "length its \<le> num"
    "length its = num \<or> sz = 4096" by auto
  have "?ms \<le> sz \<or> length its = num" using f(4) ms assms(4) by (auto simp: word_le_nat_alt)
  from fill_periods_ok [OF f(2,3) assms(1,2) ms this e4, of 4096] obtain its' sz' where
    g: "fill_periods 4096 num ?ms e 4096 sz its = Some its'" "length its' = num" "fill_inv mn e sz' its'"
    by auto
  have "unat x * unat e \<le> 4096 + 32768 * num" if "x \<in> set its'" for x
    using g(2,3) that by (auto simp: fill_inv_def sizes_ok_def dest!: bspec)
  then show ?thesis
    using f(1) g by (auto simp: ipc_table_fill_def fill_inv_def sizes_ok_def)
qed

section \<open>Initialisation\<close>

text \<open>C27. With 4096-byte pages and memory for the two arrays, \<^verbatim>\<open>ipc_table_init\<close> returns.
  The sizes of entry tables strictly increase from at least 4 up to the last two, which are equal
  and so mark the end, and no index of a table exceeds 24 bits; the sizes of request tables strictly
  increase from at least 2 and end with 0.\<close>

theorem table_init_correct:
  assumes "\<forall>n. kalloc n \<noteq> 0"
  shows "\<exists>ents dnrs. ipc_table_init 4096 kalloc = Some (ents, dnrs) \<and>
    length ents = 512 \<and> sorted_wrt (<) (butlast ents) \<and> ents ! 511 = ents ! 510 \<and>
    (\<forall>x\<in>set ents. 4 \<le> x \<and> unat x < 2 ^ 24) \<and>
    length dnrs = 64 \<and> sorted_wrt (<) (butlast dnrs) \<and> dnrs ! 63 = 0 \<and> (\<forall>x\<in>set (butlast dnrs). 2 \<le> x)"
proof -
  obtain e where e: "ipc_table_fill 4096 511 4 16 = Some e" "length e = 511" "sorted_wrt (<) e"
    "\<forall>x \<in> set e. 4 \<le> x \<and> unat x * unat (16 :: u32) \<le> 4096 + 32768 * 511"
    using table_fill_ok [of 511 16 4] by auto
  obtain d where d: "ipc_table_fill 4096 63 2 8 = Some d" "length d = 63" "sorted_wrt (<) d" "\<forall>x \<in> set d. 2 \<le> x"
    using table_fill_ok [of 63 8 2] by auto
  have "e ! 510 \<in> set e" using e(2) by simp
  moreover have "\<forall>x\<in>set e. 4 \<le> x \<and> unat x < 2 ^ 24" using e(4) by fastforce
  ultimately have "\<forall>x\<in>set (e @ [e ! 510]). 4 \<le> x \<and> unat x < 2 ^ 24" by auto
  moreover have "ipc_table_init 4096 kalloc = Some (e @ [e ! 510], d @ [0])"
    using assms e(1) d(1)
    by (simp add: ipc_table_init_def ipc_table_entries_size_def ipc_table_dnrequests_size_def
        sizeof_ipc_entry_def sizeof_ipc_port_request_def)
  ultimately show ?thesis using e(2,3) d(2-4)
    by (intro exI [of _ "e @ [e ! 510]"] exI [of _ "d @ [0]"]) (simp add: nth_append)
qed

theorem table_init_correct_witness:
  "\<exists>ents dnrs. ipc_table_init 4096 (\<lambda>n. 0x4000) = Some (ents, dnrs) \<and> length ents = 512 \<and> length dnrs = 64"
  using table_init_correct [of "\<lambda>n. 0x4000"] by auto

end
