(* ===== verification/Ipc_Entry.thy ===== *)
theory Ipc_Entry
  imports Hash_Global Ipc_Table
begin

text \<open>
  Allocation and lookup of the entries of a space,
  \<^verbatim>\<open>mach4/kernel/ipc/ipc_entry.c\<close>.

  The state a call sees is a \<open>world\<close>: the space, the global hash table and the heap of tree
  entries. Where the code unlocks the space to allocate or free memory, other threads may run:
  their effect on the world, and the results of the allocators, are the parameter
  \<open>environment\<close>, indexed by a clock that counts these windows. The sizes of tables
  (\<^verbatim>\<open>ipc_table_entries\<close>) are the parameter \<open>sizes\<close>; \<open>is_table_next\<close> is an
  index into it. \<open>g\<close> is \<^verbatim>\<open>PORT_GENERATIONS\<close>.
\<close>

section \<open>The world\<close>

record world =
  w_space :: ipc_space
  w_hash :: ipc_hash_globals
  w_heap :: ite_heap
  w_clock :: nat

record environment =
  env_step :: "nat \<Rightarrow> world \<Rightarrow> world"
  env_entries_alloc :: "nat \<Rightarrow> bool"
  env_ite_alloc :: "nat \<Rightarrow> world \<Rightarrow> (ptr \<times> ipc_tree_entry) option"

definition unlocked :: "environment \<Rightarrow> world \<Rightarrow> world" where
  "unlocked env w = (env_step env (w_clock w) w)\<lparr>w_clock := Suc (w_clock w)\<rparr>"

text \<open>Results: an error code or a value.\<close>

type_synonym 'a kres = "kern_return + 'a"

definition set_table :: "ipc_entry list \<Rightarrow> ipc_space \<Rightarrow> ipc_space" where
  "set_table t space = space\<lparr>is_table := t\<rparr>"

definition its_get :: "u32 list \<Rightarrow> nat \<Rightarrow> u32 option" where
  "its_get sizes i = (if i < length sizes then Some (sizes ! i) else None)"

section \<open>Collisions and lookup\<close>

definition ipc_entry_tree_collision ::
  "bool \<Rightarrow> ipc_space \<Rightarrow> u32 \<Rightarrow> ite_heap \<Rightarrow> (bool \<times> ipc_space \<times> ite_heap) option" where
  "ipc_entry_tree_collision g space name h = do {
     oassert (is_active space);
     (lower, upper, tree, h) \<leftarrow> ipc_splay_tree_bounds name (is_tree space) h;
     let index = MACH_PORT_INDEX g name;
     Some ((lower \<noteq> NOT 0 \<and> MACH_PORT_INDEX g lower = index) \<or>
           (upper \<noteq> 0 \<and> MACH_PORT_INDEX g upper = index),
           space\<lparr>is_tree := tree\<rparr>, h) }"

text \<open>The bits and the object of the entry an \<^verbatim>\<open>ipc_entry_t\<close> points to.\<close>

definition entry_bits :: "ipc_space \<Rightarrow> ite_heap \<Rightarrow> ipc_entry_t \<Rightarrow> u32 option" where
  "entry_bits space h entry = (case entry of
      IE_NULL \<Rightarrow> None
    | Table_entry i \<Rightarrow> map_option ie_bits (tab_get (is_table space) i)
    | Tree_entry p \<Rightarrow> map_option ite_bits (ite_get h p))"

definition entry_object :: "ipc_space \<Rightarrow> ite_heap \<Rightarrow> ipc_entry_t \<Rightarrow> ptr option" where
  "entry_object space h entry = (case entry of
      IE_NULL \<Rightarrow> None
    | Table_entry i \<Rightarrow> map_option ie_object (tab_get (is_table space) i)
    | Tree_entry p \<Rightarrow> map_option ite_object (ite_get h p))"

definition tree_lookup :: "ipc_space \<Rightarrow> u32 \<Rightarrow> ite_heap \<Rightarrow> (ipc_entry_t \<times> ipc_space \<times> ite_heap) option" where
  "tree_lookup space name h = do {
     (p, tree, h) \<leftarrow> ipc_splay_tree_lookup name (is_tree space) h;
     Some (if p = ITE_NULL then IE_NULL else Tree_entry p, space\<lparr>is_tree := tree\<rparr>, h) }"

definition ipc_entry_lookup ::
  "bool \<Rightarrow> ipc_space \<Rightarrow> u32 \<Rightarrow> ite_heap \<Rightarrow> (ipc_entry_t \<times> ipc_space \<times> ite_heap) option" where
  "ipc_entry_lookup g space name h = do {
     oassert (is_active space);
     let index = MACH_PORT_INDEX g name;
     (entry, space, h) \<leftarrow>
       (if index < is_table_size space then do {
          e \<leftarrow> tab_get (is_table space) (unat index);
          if IE_BITS_GEN g (ie_bits e) \<noteq> MACH_PORT_GEN g name then
            (if ie_bits e AND IE_BITS_COLLISION \<noteq> 0 then do {
               oassert (is_tree_total space > 0);
               tree_lookup space name h }
             else Some (IE_NULL, space, h))
          else if IE_BITS_TYPE (ie_bits e) = MACH_PORT_TYPE_NONE then Some (IE_NULL, space, h)
          else Some (Table_entry (unat index), space, h) }
        else if is_tree_total space = 0 then Some (IE_NULL, space, h)
        else tree_lookup space name h);
     (case entry of IE_NULL \<Rightarrow> Some ()
      | _ \<Rightarrow> do { b \<leftarrow> entry_bits space h entry; oassert (IE_BITS_TYPE b \<noteq> 0) });
     Some (entry, space, h) }"

section \<open>Allocation from the free list\<close>

definition ipc_entry_get :: "bool \<Rightarrow> ipc_space \<Rightarrow> ((u32 \<times> ipc_entry_t) kres \<times> ipc_space) option" where
  "ipc_entry_get g space = do {
     oassert (is_active space);
     let table = is_table space;
     head \<leftarrow> tab_get table 0;
     let first_free = ie_next head;
     if first_free = 0 then Some (Inl KERN_NO_SPACE, space)
     else do {
       free_entry \<leftarrow> tab_get table (unat first_free);
       table \<leftarrow> tab_upd 0 (\<lambda>e. e\<lparr>ie_request := ie_next free_entry\<rparr>) table;
       oassert (ie_bits free_entry AND NOT (IE_BITS_GEN_MASK g) = 0);
       let gen = ie_bits free_entry + IE_BITS_GEN_ONE g;
       table \<leftarrow> tab_upd (unat first_free) (\<lambda>e. e\<lparr>ie_bits := gen, ie_request := 0\<rparr>) table;
       let new_name = MACH_PORT_MAKE g first_free gen;
       oassert (MACH_PORT_VALID new_name);
       oassert (ie_object free_entry = IO_NULL);
       Some (Inr (new_name, Table_entry (unat first_free)), set_table table space) } }"

section \<open>Deallocation\<close>

text \<open>The object and request fields of the entry, which must be clear.\<close>

definition entry_clear :: "ipc_space \<Rightarrow> ite_heap \<Rightarrow> ipc_entry_t \<Rightarrow> bool option" where
  "entry_clear space h entry = (case entry of
      IE_NULL \<Rightarrow> None
    | Table_entry i \<Rightarrow> map_option (\<lambda>e. ie_object e = IO_NULL \<and> ie_request e = 0) (tab_get (is_table space) i)
    | Tree_entry p \<Rightarrow> map_option (\<lambda>e. ite_object e = IO_NULL \<and> ite_request e = 0) (ite_get h p))"

text \<open>Freeing a table entry with collisions: an entry of the tree with the same index takes its
  place. \<open>small\<close> and \<open>collisions\<close> are the local trees of the C function.\<close>

definition uninit_tree :: ipc_splay_tree where
  "uninit_tree = \<lparr>ist_name = 0, ist_root = ITE_NULL, ist_ltree = ITE_NULL, ist_ltreep = Self,
     ist_rtree = ITE_NULL, ist_rtreep = Self\<rparr>"

definition dealloc_collision :: "bool \<Rightarrow> u32 \<Rightarrow> world \<Rightarrow> world option" where
  "dealloc_collision g index w = do {
     let space = w_space w;
     (tree, collisions, h) \<leftarrow>
       ipc_splay_tree_split (MACH_PORT_MAKE g (index + 1) 0) (is_tree space) uninit_tree (w_heap w);
     (collisions, small, h) \<leftarrow> ipc_splay_tree_split (MACH_PORT_MAKE g index 0) collisions uninit_tree h;
     let space = space\<lparr>is_tree := tree\<rparr>;
     pick \<leftarrow> ipc_splay_tree_pick collisions h;
     (tname, tentry) \<leftarrow> pick;
     oassert (MACH_PORT_INDEX g tname = index);
     te \<leftarrow> ite_get h tentry;
     let bits = ite_bits te;
     let obj = ite_object te;
     table \<leftarrow> tab_upd (unat index) (\<lambda>e. e\<lparr>ie_bits := bits OR MACH_PORT_GEN g tname,
        ie_object := obj, ie_request := ite_request te\<rparr>) (is_table space);
     let space = set_table table space;
     oassert (ite_space te = is_addr space);
     (space, gl, h) \<leftarrow>
       (if IE_BITS_TYPE bits = MACH_PORT_TYPE_SEND then do {
          (space, gl, h) \<leftarrow> ipc_hash_global_delete space obj tname tentry (w_hash w) h;
          space \<leftarrow> ipc_hash_local_insert space obj index (Table_entry (unat index));
          Some (space, gl, h) }
        else Some (space, w_hash w, h));
     (collisions, h) \<leftarrow> ipc_splay_tree_delete tname tentry collisions h;
     oassert (is_tree_total space > 0);
     let space = space\<lparr>is_tree_total := is_tree_total space - 1\<rparr>;
     pick \<leftarrow> ipc_splay_tree_pick collisions h;
     (space, h) \<leftarrow> (case pick of
         None \<Rightarrow> Some (space, h)
       | Some _ \<Rightarrow> do {
           table \<leftarrow> tab_upd (unat index) (\<lambda>e. e\<lparr>ie_bits := ie_bits e OR IE_BITS_COLLISION\<rparr>) (is_table space);
           (tree, _, h) \<leftarrow> ipc_splay_tree_join (is_tree space) collisions h;
           Some (space\<lparr>is_table := table, is_tree := tree\<rparr>, h) });
     (tree, _, h) \<leftarrow> ipc_splay_tree_join (is_tree space) small h;
     Some (w\<lparr>w_space := space\<lparr>is_tree := tree\<rparr>, w_hash := gl, w_heap := h\<rparr>) }"

definition dealloc_free :: "bool \<Rightarrow> u32 \<Rightarrow> ipc_space \<Rightarrow> ipc_space option" where
  "dealloc_free g index space = do {
     head \<leftarrow> tab_get (is_table space) 0;
     table \<leftarrow> tab_upd (unat index) (\<lambda>e. e\<lparr>ie_bits := ie_bits e AND IE_BITS_GEN_MASK g,
        ie_request := ie_next head\<rparr>) (is_table space);
     table \<leftarrow> tab_upd 0 (\<lambda>e. e\<lparr>ie_request := index\<rparr>) table;
     Some (set_table table space) }"

definition dealloc_tree :: "bool \<Rightarrow> u32 list \<Rightarrow> u32 \<Rightarrow> u32 \<Rightarrow> ptr \<Rightarrow> world \<Rightarrow> world option" where
  "dealloc_tree g sizes name index tentry w = do {
     let space = w_space w;
     te \<leftarrow> ite_get (w_heap w) tentry;
     oassert (ite_space te = is_addr space);
     (tree, h) \<leftarrow> ipc_splay_tree_delete name tentry (is_tree space) (w_heap w);
     let space = space\<lparr>is_tree := tree\<rparr>;
     oassert (is_tree_total space > 0);
     let space = space\<lparr>is_tree_total := is_tree_total space - 1\<rparr>;
     (space, h) \<leftarrow>
       (if index < is_table_size space then do {
          ientry \<leftarrow> tab_get (is_table space) (unat index);
          oassert (ie_bits ientry AND IE_BITS_COLLISION \<noteq> 0);
          (c, space, h) \<leftarrow> ipc_entry_tree_collision g space name h;
          if \<not> c then do {
            table \<leftarrow> tab_upd (unat index) (\<lambda>e. e\<lparr>ie_bits := ie_bits e AND NOT IE_BITS_COLLISION\<rparr>) (is_table space);
            Some (set_table table space, h) }
          else Some (space, h) }
        else do {
          its_size \<leftarrow> its_get sizes (is_table_next space);
          if index < its_size then do {
            (c, space, h) \<leftarrow> ipc_entry_tree_collision g space name h;
            if \<not> c then do {
              oassert (is_tree_small space > 0);
              Some (space\<lparr>is_tree_small := is_tree_small space - 1\<rparr>, h) }
            else Some (space, h) }
          else Some (space, h) });
     Some (w\<lparr>w_space := space, w_heap := h\<rparr>) }"

definition ipc_entry_dealloc :: "bool \<Rightarrow> u32 list \<Rightarrow> u32 \<Rightarrow> ipc_entry_t \<Rightarrow> world \<Rightarrow> world option" where
  "ipc_entry_dealloc g sizes name entry w = do {
     let space = w_space w;
     oassert (is_active space);
     c \<leftarrow> entry_clear space (w_heap w) entry;
     oassert c;
     let index = MACH_PORT_INDEX g name;
     if in_table g space name entry then do {
       e \<leftarrow> tab_get (is_table space) (unat index);
       oassert (IE_BITS_GEN g (ie_bits e) = MACH_PORT_GEN g name);
       if ie_bits e AND IE_BITS_COLLISION \<noteq> 0 then dealloc_collision g index w
       else do {
         space \<leftarrow> dealloc_free g index space;
         Some (w\<lparr>w_space := space\<rparr>) } }
     else do {
       tentry \<leftarrow> tree_ptr entry;
       dealloc_tree g sizes name index tentry w } }"

end
