(* ===== verification/Ipc_Entry_Grow.thy ===== *)
theory Ipc_Entry_Grow
  imports Ipc_Entry
begin

text \<open>
  Growing the table of a space, and the allocations that may grow it:
  \<^verbatim>\<open>ipc_entry_grow_table\<close>, \<^verbatim>\<open>ipc_entry_alloc\<close>, \<^verbatim>\<open>ipc_entry_alloc_name\<close> of
  \<^verbatim>\<open>ipc_entry.c\<close>. Whether the new table is a copy of the old one or a remapping of its
  pages, its first part holds the old entries when the space is locked again.
\<close>

section \<open>Moving entries into the new table\<close>

definition zero_entry :: ipc_entry where
  "zero_entry = \<lparr>ie_bits = 0, ie_object = IO_NULL, ie_request = 0, ie_index = 0\<rparr>"

text \<open>The old entries with their hash slots cleared, and zeros.\<close>

definition grown_table :: "ipc_entry list \<Rightarrow> nat \<Rightarrow> nat \<Rightarrow> ipc_entry list" where
  "grown_table otable osize sz =
     map (\<lambda>e. e\<lparr>ie_index := 0\<rparr>) (take osize otable) @ replicate (sz - osize) zero_entry"

text \<open>Put the old entries that are pure send rights into the reverse hash table.\<close>

function rehash :: "nat \<Rightarrow> nat \<Rightarrow> ipc_space \<Rightarrow> ipc_space option" where
  "rehash i osize space =
     (if i < osize then do {
        entry \<leftarrow> tab_get (is_table space) i;
        space \<leftarrow> (if IE_BITS_TYPE (ie_bits entry) = MACH_PORT_TYPE_SEND
                  then ipc_hash_local_insert space (ie_object entry) (of_nat i) (Table_entry i)
                  else Some space);
        rehash (Suc i) osize space }
      else Some space)"
  by pat_completeness auto
termination by (relation "measure (\<lambda>(i, osize, space). osize - i)") auto

declare rehash.simps [simp del]

text \<open>The body of the loop over the entries to move; the flag tells whether the tree entry is to
  be deleted.\<close>

definition move_entry :: "bool \<Rightarrow> u32 \<Rightarrow> u32 \<Rightarrow> ptr \<Rightarrow> world \<Rightarrow> (bool \<times> world) option" where
  "move_entry g osize sz tentry w = do {
     let space = w_space w;
     te \<leftarrow> ite_get (w_heap w) tentry;
     let name = ite_name te;
     let gen = MACH_PORT_GEN g name;
     let index = MACH_PORT_INDEX g name;
     oassert (ite_space te = is_addr space);
     oassert (osize \<le> index \<and> index < sz);
     entry \<leftarrow> tab_get (is_table space) (unat index);
     let bits = ie_bits entry;
     if bits \<noteq> 0 then do {
       oassert (IE_BITS_TYPE bits \<noteq> 0);
       oassert (IE_BITS_GEN g bits \<noteq> gen);
       table \<leftarrow> tab_upd (unat index) (\<lambda>e. e\<lparr>ie_bits := bits OR IE_BITS_COLLISION\<rparr>) (is_table space);
       Some (False, w\<lparr>w_space := set_table table space\<rparr>) }
     else do {
       let bits = ite_bits te;
       let type = IE_BITS_TYPE bits;
       oassert (type \<noteq> MACH_PORT_TYPE_NONE);
       let obj = ite_object te;
       table \<leftarrow> tab_upd (unat index) (\<lambda>e. e\<lparr>ie_bits := bits OR gen, ie_object := obj,
          ie_request := ite_request te\<rparr>) (is_table space);
       let space = set_table table space;
       (space, gl, h) \<leftarrow>
         (if type = MACH_PORT_TYPE_SEND then do {
            (space, gl, h) \<leftarrow> ipc_hash_global_delete space obj name tentry (w_hash w) (w_heap w);
            space \<leftarrow> ipc_hash_local_insert space obj index (Table_entry (unat index));
            Some (space, gl, h) }
          else Some (space, w_hash w, w_heap w));
       let space = space\<lparr>is_tree_total := is_tree_total space - 1\<rparr>;
       Some (True, w\<lparr>w_space := space, w_hash := gl, w_heap := h\<rparr>) } }"

partial_function (option) move_loop ::
  "bool \<Rightarrow> u32 \<Rightarrow> u32 \<Rightarrow> ptr \<Rightarrow> ipc_splay_tree \<Rightarrow> world \<Rightarrow> (ipc_splay_tree \<times> world) option" where
  "move_loop g osize sz tentry move w =
     (if tentry = ITE_NULL then Some (move, w)
      else do {
        (del, w) \<leftarrow> move_entry g osize sz tentry w;
        (tentry, move, h) \<leftarrow> ipc_splay_traverse_next del move (w_heap w);
        move_loop g osize sz tentry move (w\<lparr>w_heap := h\<rparr>) })"

text \<open>The number of distinct indices among the entries of a tree.\<close>

partial_function (option) count_loop ::
  "bool \<Rightarrow> ptr \<Rightarrow> u32 \<Rightarrow> u32 \<Rightarrow> ipc_splay_tree \<Rightarrow> ite_heap \<Rightarrow> (u32 \<times> ipc_splay_tree \<times> ite_heap) option" where
  "count_loop g tentry nosmall index small h =
     (if tentry = ITE_NULL then Some (nosmall, small, h)
      else do {
        te \<leftarrow> ite_get h tentry;
        let nindex = MACH_PORT_INDEX g (ite_name te);
        let (nosmall, index) = (if nindex \<noteq> index then (nosmall + 1, nindex) else (nosmall, index));
        (tentry, small, h) \<leftarrow> ipc_splay_traverse_next False small h;
        count_loop g tentry nosmall index small h })"

text \<open>The tree falls into four regions, by index: below \<open>osize\<close>, to be moved, to be counted,
  and beyond \<open>nsize\<close>.\<close>

definition move_tree_entries :: "bool \<Rightarrow> u32 \<Rightarrow> u32 \<Rightarrow> u32 \<Rightarrow> world \<Rightarrow> world option" where
  "move_tree_entries g osize sz nsize w = do {
     let space = w_space w;
     (tree, small, h) \<leftarrow> ipc_splay_tree_split (MACH_PORT_MAKE g nsize 0) (is_tree space) uninit_tree (w_heap w);
     (small, move, h) \<leftarrow> ipc_splay_tree_split (MACH_PORT_MAKE g sz 0) small uninit_tree h;
     (move, ignore, h) \<leftarrow> ipc_splay_tree_split (MACH_PORT_MAKE g osize 0) move uninit_tree h;
     (tentry, move, h) \<leftarrow> ipc_splay_traverse_start move h;
     (move, w) \<leftarrow> move_loop g osize sz tentry move (w\<lparr>w_space := space\<lparr>is_tree := tree\<rparr>, w_heap := h\<rparr>);
     move \<leftarrow> ipc_splay_traverse_finish move (w_heap w);
     (tentry, small, h) \<leftarrow> ipc_splay_traverse_start small (w_heap w);
     (nosmall, small, h) \<leftarrow> count_loop g tentry 0 0 small h;
     small \<leftarrow> ipc_splay_traverse_finish small h;
     let space = w_space w;
     oassert (nosmall \<le> nsize - sz);
     oassert (nosmall \<le> is_tree_total space);
     (tree, _, h) \<leftarrow> ipc_splay_tree_join (is_tree space) small h;
     (tree, _, h) \<leftarrow> ipc_splay_tree_join tree move h;
     (tree, _, h) \<leftarrow> ipc_splay_tree_join tree ignore h;
     Some (w\<lparr>w_space := space\<lparr>is_tree := tree, is_tree_small := nosmall\<rparr>, w_heap := h\<rparr>) }"

text \<open>Add the unused entries of the new part to the free list, in reverse order:
  \<open>i\<close> entries from \<open>osize\<close> on are still to be looked at.\<close>

fun add_free :: "bool \<Rightarrow> nat \<Rightarrow> nat \<Rightarrow> u32 \<Rightarrow> ipc_entry list \<Rightarrow> (u32 \<times> ipc_entry list) option" where
  "add_free g osize 0 free_index table = Some (free_index, table)"
| "add_free g osize (Suc i) free_index table = do {
     entry \<leftarrow> tab_get table (osize + i);
     if ie_bits entry = 0 then do {
       table \<leftarrow> tab_upd (osize + i) (\<lambda>e. e\<lparr>ie_bits := IE_BITS_GEN_MASK g, ie_request := free_index\<rparr>) table;
       add_free g osize i (of_nat (osize + i)) table }
     else add_free g osize i free_index table }"

section \<open>Growing the table\<close>

text \<open>One successful growth, from the moment the space is locked again.\<close>

definition install_table :: "bool \<Rightarrow> u32 \<Rightarrow> u32 \<Rightarrow> u32 \<Rightarrow> world \<Rightarrow> world option" where
  "install_table g osize sz nsize w = do {
     let space = w_space w;
     let table = grown_table (is_table space) (unat osize) (unat sz);
     let space = space\<lparr>is_table := table, is_table_size := sz, is_table_next := Suc (is_table_next space)\<rparr>;
     space \<leftarrow> rehash 0 (unat osize) space;
     w \<leftarrow> (if is_tree_total space > 0 then move_tree_entries g osize sz nsize (w\<lparr>w_space := space\<rparr>)
           else Some (w\<lparr>w_space := space\<rparr>));
     let space = w_space w;
     head \<leftarrow> tab_get (is_table space) 0;
     (free_index, table) \<leftarrow> add_free g (unat osize) (unat sz - unat osize) (ie_next head) (is_table space);
     table \<leftarrow> tab_upd 0 (\<lambda>e. e\<lparr>ie_request := free_index\<rparr>) table;
     Some (w\<lparr>w_space := set_table table space\<rparr>) }"

text \<open>\<open>env_entries_alloc\<close> tells whether \<^verbatim>\<open>it_entries_alloc\<close> or
  \<^verbatim>\<open>it_entries_realloc\<close> succeeds. After locking the space again the source asserts that
  the table, its size and the next size are the ones of before. Tables have no addresses here: the
  assertion on the address has no counterpart, the other two are kept.\<close>

partial_function (option) ipc_entry_grow_table ::
  "bool \<Rightarrow> u32 list \<Rightarrow> environment \<Rightarrow> world \<Rightarrow> (kern_return \<times> world) option" where
  "ipc_entry_grow_table g sizes env w = do {
     let space = w_space w;
     oassert (is_active space);
     if is_growing space then Some (KERN_SUCCESS, unlocked env w)
     else do {
       let otable = is_table space;
       let its = is_table_next space;
       sz \<leftarrow> its_get sizes its;
       oassert (its > 0);
       osize \<leftarrow> its_get sizes (its - 1);
       nsize \<leftarrow> its_get sizes (its + 1);
       if osize = sz then Some (KERN_NO_SPACE, w)
       else do {
         oassert (osize < sz \<and> sz \<le> nsize);
         let ok = env_entries_alloc env (w_clock w);
         let w = unlocked env (w\<lparr>w_space := space\<lparr>is_growing := True\<rparr>\<rparr>);
         let w = w\<lparr>w_space := (w_space w)\<lparr>is_growing := False\<rparr>\<rparr>;
         let space = w_space w;
         if \<not> ok then Some (KERN_RESOURCE_SHORTAGE, w)
         else if \<not> is_active space then Some (KERN_SUCCESS, unlocked env w)
         else do {
           oassert (is_table_next space = its);
           oassert (is_table_size space = osize);
           w \<leftarrow> install_table g osize sz nsize w;
           let w = unlocked env w;
           let space = w_space w;
           if \<not> is_active space \<or> is_table_next space \<noteq> its + 1 then Some (KERN_SUCCESS, w)
           else if is_tree_small space > 0 \<and>
                   (nsize - sz) * sizeof_ipc_entry < is_tree_small space * sizeof_ipc_tree_entry
           then ipc_entry_grow_table g sizes env w
           else Some (KERN_SUCCESS, w) } } } }"

section \<open>Allocation\<close>

partial_function (option) ipc_entry_alloc ::
  "bool \<Rightarrow> u32 list \<Rightarrow> environment \<Rightarrow> world \<Rightarrow> ((u32 \<times> ipc_entry_t) kres \<times> world) option" where
  "ipc_entry_alloc g sizes env w =
     (if \<not> is_active (w_space w) then Some (Inl KERN_INVALID_TASK, w)
      else do {
        (r, space) \<leftarrow> ipc_entry_get g (w_space w);
        let w = w\<lparr>w_space := space\<rparr>;
        case r of
          Inr x \<Rightarrow> Some (Inr x, w)
        | Inl _ \<Rightarrow> do {
            (kr, w) \<leftarrow> ipc_entry_grow_table g sizes env w;
            if kr \<noteq> KERN_SUCCESS then Some (Inl kr, w)
            else ipc_entry_alloc g sizes env w } })"

text \<open>The search for the predecessor of \<open>index\<close> in the free list.\<close>

partial_function (option) free_pred :: "ipc_entry list \<Rightarrow> u32 \<Rightarrow> u32 \<Rightarrow> u32 option" where
  "free_pred table index free_index = do {
     e \<leftarrow> tab_get table (unat free_index);
     let next_index = ie_next e;
     if next_index \<noteq> index then free_pred table index next_index else Some free_index }"

definition rip_entry :: "u32 \<Rightarrow> u32 \<Rightarrow> ipc_space \<Rightarrow> ipc_space option" where
  "rip_entry index gen space = do {
     let table = is_table space;
     free_index \<leftarrow> free_pred table index 0;
     e \<leftarrow> tab_get table (unat index);
     table \<leftarrow> tab_upd (unat free_index) (\<lambda>f. f\<lparr>ie_request := ie_next e\<rparr>) table;
     table \<leftarrow> tab_upd (unat index) (\<lambda>f. f\<lparr>ie_bits := gen\<rparr>) table;
     oassert (ie_object e = IO_NULL);
     table \<leftarrow> tab_upd (unat index) (\<lambda>f. f\<lparr>ie_request := 0\<rparr>) table;
     Some (set_table table space) }"

text \<open>\<^verbatim>\<open>if (tree_entry) ite_free(tree_entry);\<close>\<close>

definition ite_drop :: "ptr \<Rightarrow> world \<Rightarrow> world option" where
  "ite_drop p w = (if p \<noteq> ITE_NULL then do { h \<leftarrow> ite_free p (w_heap w); Some (w\<lparr>w_heap := h\<rparr>) } else Some w)"

text \<open>Enter the new tree entry under the name.\<close>

definition enter_tree :: "bool \<Rightarrow> u32 \<Rightarrow> u32 \<Rightarrow> u32 \<Rightarrow> ptr \<Rightarrow> world \<Rightarrow> world option" where
  "enter_tree g its_size name index tree_entry w = do {
     let space = w_space w;
     let h = w_heap w;
     let space = space\<lparr>is_tree_total := is_tree_total space + 1\<rparr>;
     (space, h) \<leftarrow>
       (if index < is_table_size space then do {
          table \<leftarrow> tab_upd (unat index) (\<lambda>e. e\<lparr>ie_bits := ie_bits e OR IE_BITS_COLLISION\<rparr>) (is_table space);
          Some (set_table table space, h) }
        else if index < its_size then do {
          (c, space, h) \<leftarrow> ipc_entry_tree_collision g space name h;
          if \<not> c then Some (space\<lparr>is_tree_small := is_tree_small space + 1\<rparr>, h)
          else Some (space, h) }
        else Some (space, h));
     (tree, h) \<leftarrow> ipc_splay_tree_insert name tree_entry (is_tree space) h;
     te \<leftarrow> ite_get h tree_entry;
     let h = h(tree_entry \<mapsto> te\<lparr>ite_bits := 0, ite_object := IO_NULL, ite_request := 0, ite_space := is_addr space\<rparr>);
     Some (w\<lparr>w_space := space\<lparr>is_tree := tree\<rparr>, w_heap := h\<rparr>) }"

partial_function (option) alloc_name_loop ::
  "bool \<Rightarrow> u32 list \<Rightarrow> environment \<Rightarrow> u32 \<Rightarrow> ptr \<Rightarrow> world \<Rightarrow> (ipc_entry_t kres \<times> world) option" where
  "alloc_name_loop g sizes env name tree_entry w = do {
     let space = w_space w;
     let index = MACH_PORT_INDEX g name;
     let gen = MACH_PORT_GEN g name;
     if \<not> is_active space then do {
       w \<leftarrow> ite_drop tree_entry w;
       Some (Inl KERN_INVALID_TASK, w) }
     else do {
       early \<leftarrow>
         (if 0 < index \<and> index < is_table_size space then do {
            entry \<leftarrow> tab_get (is_table space) (unat index);
            if IE_BITS_TYPE (ie_bits entry) \<noteq> 0 then
              (if IE_BITS_GEN g (ie_bits entry) = gen then Some (Some w) else Some None)
            else do {
              space \<leftarrow> rip_entry index gen space;
              Some (Some (w\<lparr>w_space := space\<rparr>)) } }
          else Some None);
       case early of
         Some w \<Rightarrow> do {
           w \<leftarrow> ite_drop tree_entry w;
           Some (Inr (Table_entry (unat index)), w) }
       | None \<Rightarrow> do {
           (tentry, w) \<leftarrow>
             (if is_tree_total space > 0 then do {
                (p, tree, h) \<leftarrow> ipc_splay_tree_lookup name (is_tree space) (w_heap w);
                Some (p, w\<lparr>w_space := space\<lparr>is_tree := tree\<rparr>, w_heap := h\<rparr>) }
              else Some (ITE_NULL, w));
           let space = w_space w;
           if tentry \<noteq> ITE_NULL then do {
             te \<leftarrow> ite_get (w_heap w) tentry;
             oassert (ite_space te = is_addr space);
             oassert (IE_BITS_TYPE (ite_bits te) \<noteq> 0);
             w \<leftarrow> ite_drop tree_entry w;
             Some (Inr (Tree_entry tentry), w) }
           else do {
             its_size \<leftarrow> its_get sizes (is_table_next space);
             if is_table_size space \<le> index \<and> index < its_size \<and>
                (its_size - is_table_size space) * sizeof_ipc_entry <
                  (is_tree_small space + 1) * sizeof_ipc_tree_entry
             then do {
               (kr, w) \<leftarrow> ipc_entry_grow_table g sizes env w;
               oassert (kr \<noteq> KERN_NO_SPACE);
               if kr \<noteq> KERN_SUCCESS then do {
                 w \<leftarrow> ite_drop tree_entry w;
                 Some (Inl kr, w) }
               else alloc_name_loop g sizes env name tree_entry w }
             else if tree_entry \<noteq> ITE_NULL then do {
               w \<leftarrow> enter_tree g its_size name index tree_entry w;
               Some (Inr (Tree_entry tree_entry), w) }
             else do {
               let r = env_ite_alloc env (w_clock w) w;
               let w = unlocked env w;
               case r of
                 None \<Rightarrow> Some (Inl KERN_RESOURCE_SHORTAGE, w)
               | Some (p, e) \<Rightarrow>
                   alloc_name_loop g sizes env name p (w\<lparr>w_heap := (w_heap w)(p \<mapsto> e)\<rparr>) } } } } }"

definition ipc_entry_alloc_name ::
  "bool \<Rightarrow> u32 list \<Rightarrow> environment \<Rightarrow> u32 \<Rightarrow> world \<Rightarrow> (ipc_entry_t kres \<times> world) option" where
  "ipc_entry_alloc_name g sizes env name w = do {
     oassert (MACH_PORT_VALID name);
     alloc_name_loop g sizes env name ITE_NULL w }"

end
