(* ===== verification/Kern.thy ===== *)
theory Kern
  imports Ipc_Entry_Grow
begin

text \<open>
  The state of the IPC system that ports, port sets and message queues share: the structures of
  \<^verbatim>\<open>ipc_port.h\<close>, \<^verbatim>\<open>ipc_pset.h\<close>, \<^verbatim>\<open>ipc_target.h\<close>,
  \<^verbatim>\<open>ipc_mqueue.h\<close> and the parts of \<^verbatim>\<open>ipc_kmsg.h\<close> and
  \<^verbatim>\<open>kern/thread.h\<close> that they use, each kind on a heap of its own.

  Each operation runs with the locks it takes in the source, so a call is one step. The union
  \<^verbatim>\<open>data\<close> of a port is the field \<open>ip_data\<close>, that of a thread \<open>ith_data\<close>; which
  member is meant is written by abbreviations. A queue of messages or threads is the list of its
  elements, first element first; the linked structure is the subject of \<open>Link_Queue\<close>.

  The structures of the source that \<^verbatim>\<open>NORMA_IPC\<close> (0) and
  \<^verbatim>\<open>MIGRATING_THREADS\<close> (not defined) add are left out;
  \<^verbatim>\<open>MACH_IPC_COMPAT\<close> is 1.

  Two kinds of calls leave the model. Waking a thread and freeing a table only add to the log
  \<open>k_events\<close>. A call into code that may change ports or messages (sending a notification,
  destroying a message or a kernel object) adds to the log and then runs the parameter
  \<open>calls\<close>, any function on the state.
\<close>

section \<open>Structures\<close>

datatype mach_msg_return =
    MACH_MSG_SUCCESS | MACH_SEND_IN_PROGRESS | MACH_SEND_INVALID_DATA | MACH_SEND_INVALID_DEST
  | MACH_SEND_TIMED_OUT | MACH_SEND_WILL_NOTIFY | MACH_SEND_NOTIFY_IN_PROGRESS | MACH_SEND_INTERRUPTED
  | MACH_SEND_MSG_TOO_SMALL | MACH_SEND_INVALID_REPLY | MACH_SEND_INVALID_RIGHT | MACH_SEND_INVALID_NOTIFY
  | MACH_SEND_INVALID_MEMORY | MACH_SEND_NO_BUFFER | MACH_SEND_NO_NOTIFY | MACH_SEND_INVALID_TYPE
  | MACH_SEND_INVALID_HEADER | MACH_RCV_IN_PROGRESS | MACH_RCV_INVALID_NAME | MACH_RCV_TIMED_OUT
  | MACH_RCV_TOO_LARGE | MACH_RCV_INTERRUPTED | MACH_RCV_PORT_CHANGED | MACH_RCV_INVALID_NOTIFY
  | MACH_RCV_INVALID_DATA | MACH_RCV_PORT_DIED | MACH_RCV_IN_SET | MACH_RCV_HEADER_ERROR
  | MACH_RCV_BODY_ERROR

datatype wait_result = THREAD_AWAKENED | THREAD_TIMED_OUT | THREAD_INTERRUPTED | THREAD_RESTART

record ipc_mqueue =
  imq_messages :: "ptr list"
  imq_threads :: "ptr list"

record ipc_port_request =
  ipr_notify :: u32
  ipr_name :: u32

abbreviation (input) ipr_next :: "ipc_port_request \<Rightarrow> u32" where "ipr_next \<equiv> ipr_notify"
abbreviation (input) ipr_soright :: "ipc_port_request \<Rightarrow> ptr" where "ipr_soright \<equiv> ipr_notify"

text \<open>A table of dead-name requests: its address, the index of its size in
  \<^verbatim>\<open>ipc_table_dnrequests\<close> (\<^verbatim>\<open>ipr_size\<close> of element 0), and its elements; the
  \<open>ipr_next\<close> field of element 0 is the head of the free list.\<close>

record dn_table =
  dn_addr :: ptr
  ipr_size :: nat
  dn_slots :: "ipc_port_request list"

record ipc_port =
  ip_references :: u32
  ip_bits :: u32
  ip_receiver_name :: u32
  ip_messages :: ipc_mqueue
  ip_cur_target :: ptr
  ip_data :: u32
  ip_kobject :: u32
  ip_mscount :: u32
  ip_srights :: u32
  ip_sorights :: u32
  ip_nsrequest :: ptr
  ip_pdrequest :: ptr
  ip_dnrequests :: "dn_table option"
  ip_pset :: ptr
  ip_seqno :: u32
  ip_msgcount :: u32
  ip_qlimit :: u32
  ip_blocked :: "ptr list"

abbreviation (input) ip_receiver :: "ipc_port \<Rightarrow> ptr" where "ip_receiver \<equiv> ip_data"
abbreviation (input) ip_destination :: "ipc_port \<Rightarrow> ptr" where "ip_destination \<equiv> ip_data"
abbreviation (input) ip_timestamp :: "ipc_port \<Rightarrow> u32" where "ip_timestamp \<equiv> ip_data"

record ipc_pset =
  ips_references :: u32
  ips_bits :: u32
  ips_local_name :: u32
  ips_messages :: ipc_mqueue

record ipc_kmsg =
  msgh_bits :: u32
  msgh_size :: u32
  msgh_remote_port :: ptr
  msgh_local_port :: ptr
  ikm_marequest :: ptr

record ipc_thread =
  ith_state :: mach_msg_return
  ith_data :: u32
  ith_seqno :: u32
  ith_wait_result :: wait_result

abbreviation (input) ith_msize :: "ipc_thread \<Rightarrow> u32" where "ith_msize \<equiv> ith_data"
abbreviation (input) ith_kmsg :: "ipc_thread \<Rightarrow> ptr" where "ith_kmsg \<equiv> ith_data"

abbreviation (input) IP_NULL :: ptr where "IP_NULL \<equiv> 0"
abbreviation (input) IP_DEAD :: ptr where "IP_DEAD \<equiv> - 1"
abbreviation (input) IPS_NULL :: ptr where "IPS_NULL \<equiv> 0"
abbreviation (input) IKM_NULL :: ptr where "IKM_NULL \<equiv> 0"
abbreviation (input) IMAR_NULL :: ptr where "IMAR_NULL \<equiv> 0"

definition IP_VALID :: "ptr \<Rightarrow> bool" where
  "IP_VALID p \<longleftrightarrow> p \<noteq> IP_NULL \<and> p \<noteq> IP_DEAD"

datatype event =
    Notify_no_senders ptr u32
  | Notify_send_once ptr
  | Notify_dead_name ptr u32
  | Notify_port_destroyed ptr ptr
  | Notify_port_destroyed_compat ptr ptr
  | Port_delete_compat ptr ptr u32
  | Kmsg_destroy ptr
  | Kobject_destroy ptr
  | Kobject_server ptr
  | Marequest_destroy ptr
  | Thread_go ptr
  | Dnrequests_free nat ptr

record kern =
  k_world :: world
  k_ports :: "ptr \<Rightarrow> ipc_port option"
  k_psets :: "ptr \<Rightarrow> ipc_pset option"
  k_kmsgs :: "ptr \<Rightarrow> ipc_kmsg option"
  k_threads :: "ptr \<Rightarrow> ipc_thread option"
  k_timestamp :: u32
  k_events :: "event list"

type_synonym calls = "event \<Rightarrow> kern \<Rightarrow> kern"

definition log_event :: "event \<Rightarrow> kern \<Rightarrow> kern" where
  "log_event ev k = k\<lparr>k_events := k_events k @ [ev]\<rparr>"

definition call :: "calls \<Rightarrow> event \<Rightarrow> kern \<Rightarrow> kern" where
  "call calls ev k = calls ev (log_event ev k)"

section \<open>Access\<close>

definition put_port :: "ptr \<Rightarrow> ipc_port \<Rightarrow> kern \<Rightarrow> kern" where
  "put_port p x k = k\<lparr>k_ports := (k_ports k)(p \<mapsto> x)\<rparr>"

definition put_pset :: "ptr \<Rightarrow> ipc_pset \<Rightarrow> kern \<Rightarrow> kern" where
  "put_pset p x k = k\<lparr>k_psets := (k_psets k)(p \<mapsto> x)\<rparr>"

definition put_kmsg :: "ptr \<Rightarrow> ipc_kmsg \<Rightarrow> kern \<Rightarrow> kern" where
  "put_kmsg m x k = k\<lparr>k_kmsgs := (k_kmsgs k)(m \<mapsto> x)\<rparr>"

definition put_thread :: "ptr \<Rightarrow> ipc_thread \<Rightarrow> kern \<Rightarrow> kern" where
  "put_thread th x k = k\<lparr>k_threads := (k_threads k)(th \<mapsto> x)\<rparr>"

definition port_get :: "kern \<Rightarrow> ptr \<Rightarrow> ipc_port option" where
  "port_get k p = (if IP_VALID p then k_ports k p else None)"

definition port_upd :: "ptr \<Rightarrow> (ipc_port \<Rightarrow> ipc_port) \<Rightarrow> kern \<Rightarrow> kern option" where
  "port_upd p f k = do { x \<leftarrow> port_get k p; Some (put_port p (f x) k) }"

definition pset_get :: "kern \<Rightarrow> ptr \<Rightarrow> ipc_pset option" where
  "pset_get k p = (if IP_VALID p then k_psets k p else None)"

definition pset_upd :: "ptr \<Rightarrow> (ipc_pset \<Rightarrow> ipc_pset) \<Rightarrow> kern \<Rightarrow> kern option" where
  "pset_upd p f k = do { x \<leftarrow> pset_get k p; Some (put_pset p (f x) k) }"

definition kmsg_upd :: "ptr \<Rightarrow> (ipc_kmsg \<Rightarrow> ipc_kmsg) \<Rightarrow> kern \<Rightarrow> kern option" where
  "kmsg_upd m f k = do { x \<leftarrow> k_kmsgs k m; Some (put_kmsg m (f x) k) }"

definition thread_upd :: "ptr \<Rightarrow> (ipc_thread \<Rightarrow> ipc_thread) \<Rightarrow> kern \<Rightarrow> kern option" where
  "thread_upd th f k = do { x \<leftarrow> k_threads k th; Some (put_thread th (f x) k) }"

section \<open>Objects\<close>

text \<open>\<^verbatim>\<open>ipc_object.h\<close>: the active bit, types, references. Ports and port sets begin with
  the same structure; the operations on references are given for each.\<close>

definition IO_BITS_ACTIVE :: u32 where "IO_BITS_ACTIVE = 0x80000000"
definition IO_BITS_KOTYPE :: u32 where "IO_BITS_KOTYPE = 0x0000ffff"
definition IO_BITS_OTYPE :: u32 where "IO_BITS_OTYPE = 0x7fff0000"

definition IOT_PORT :: u32 where "IOT_PORT = 0"
definition IOT_PORT_SET :: u32 where "IOT_PORT_SET = 1"

definition io_active :: "u32 \<Rightarrow> bool" where
  "io_active bits \<longleftrightarrow> sint bits < 0"

definition io_otype :: "u32 \<Rightarrow> u32" where
  "io_otype bits = drop_bit 16 (bits AND IO_BITS_OTYPE)"

definition io_kotype :: "u32 \<Rightarrow> u32" where
  "io_kotype bits = bits AND IO_BITS_KOTYPE"

definition io_makebits :: "bool \<Rightarrow> u32 \<Rightarrow> u32 \<Rightarrow> u32" where
  "io_makebits active otype kotype = (if active then IO_BITS_ACTIVE else 0) OR push_bit 16 otype OR kotype"

abbreviation ip_active :: "ipc_port \<Rightarrow> bool" where
  "ip_active port \<equiv> io_active (ip_bits port)"

abbreviation ips_active :: "ipc_pset \<Rightarrow> bool" where
  "ips_active pset \<equiv> io_active (ips_bits pset)"

definition ip_reference :: "ptr \<Rightarrow> kern \<Rightarrow> kern option" where
  "ip_reference p k = port_upd p (\<lambda>x. x\<lparr>ip_references := ip_references x + 1\<rparr>) k"

definition ip_release :: "ptr \<Rightarrow> kern \<Rightarrow> kern option" where
  "ip_release p k = port_upd p (\<lambda>x. x\<lparr>ip_references := ip_references x - 1\<rparr>) k"

definition ip_check_unlock :: "ptr \<Rightarrow> kern \<Rightarrow> kern option" where
  "ip_check_unlock p k = do {
     x \<leftarrow> port_get k p;
     if ip_references x = 0 then Some (k\<lparr>k_ports := (k_ports k)(p := None)\<rparr>) else Some k }"

definition ips_reference :: "ptr \<Rightarrow> kern \<Rightarrow> kern option" where
  "ips_reference p k = pset_upd p (\<lambda>x. x\<lparr>ips_references := ips_references x + 1\<rparr>) k"

definition ips_release :: "ptr \<Rightarrow> kern \<Rightarrow> kern option" where
  "ips_release p k = pset_upd p (\<lambda>x. x\<lparr>ips_references := ips_references x - 1\<rparr>) k"

definition ips_check_unlock :: "ptr \<Rightarrow> kern \<Rightarrow> kern option" where
  "ips_check_unlock p k = do {
     x \<leftarrow> pset_get k p;
     if ips_references x = 0 then Some (k\<lparr>k_psets := (k_psets k)(p := None)\<rparr>) else Some k }"

text \<open>\<^verbatim>\<open>ipc_object_reference\<close> and \<^verbatim>\<open>ipc_object_release\<close> on a port
  (\<^verbatim>\<open>ipc_port_reference\<close>, \<^verbatim>\<open>ipc_port_release\<close>).\<close>

definition ipc_port_reference :: "ptr \<Rightarrow> kern \<Rightarrow> kern option" where
  "ipc_port_reference p k = do {
     x \<leftarrow> port_get k p;
     oassert (ip_references x > 0);
     ip_reference p k }"

definition ipc_port_release :: "ptr \<Rightarrow> kern \<Rightarrow> kern option" where
  "ipc_port_release p k = do {
     x \<leftarrow> port_get k p;
     oassert (ip_references x > 0);
     k \<leftarrow> ip_release p k;
     ip_check_unlock p k }"

section \<open>Waking threads\<close>

definition thread_go :: "ptr \<Rightarrow> kern \<Rightarrow> kern" where
  "thread_go th k = log_event (Thread_go th) k"

text \<open>\<^verbatim>\<open>th->ith_state = mr; thread_go(th);\<close> for each of a list of dequeued threads.\<close>

fun wake_all :: "mach_msg_return \<Rightarrow> ptr list \<Rightarrow> kern \<Rightarrow> kern option" where
  "wake_all mr [] k = Some k"
| "wake_all mr (th # ths) k = do {
     k \<leftarrow> thread_upd th (\<lambda>t. t\<lparr>ith_state := mr\<rparr>) k;
     wake_all mr ths (thread_go th k) }"

section \<open>Facts on the state\<close>

named_theorems kern_simps

lemma port_get_put [simp, kern_simps]:
  "port_get (put_port p x k) q = (if q = p \<and> IP_VALID p then Some x else port_get k q)"
  by (simp add: port_get_def put_port_def)

lemma port_get_valid: "port_get k p = Some x \<Longrightarrow> IP_VALID p"
  by (simp add: port_get_def split: if_splits)

lemma port_get_nonnull: "port_get k p = Some x \<Longrightarrow> p \<noteq> 0"
  by (auto simp: port_get_def IP_VALID_def split: if_splits)

lemma port_upd_Some [simp]: "port_get k p = Some x \<Longrightarrow> port_upd p f k = Some (put_port p (f x) k)"
  by (simp add: port_upd_def)

lemma put_port_put [simp]: "put_port p x (put_port p y k) = put_port p x k"
  by (simp add: put_port_def)

lemma pset_get_put [simp, kern_simps]:
  "pset_get (put_pset p x k) q = (if q = p \<and> IP_VALID p then Some x else pset_get k q)"
  by (simp add: pset_get_def put_pset_def)

lemma pset_upd_Some [simp]: "pset_get k p = Some x \<Longrightarrow> pset_upd p f k = Some (put_pset p (f x) k)"
  by (simp add: pset_upd_def)

lemma pset_get_valid: "pset_get k p = Some x \<Longrightarrow> IP_VALID p"
  by (simp add: pset_get_def split: if_splits)

lemma put_pset_put [simp]: "put_pset p x (put_pset p y k) = put_pset p x k"
  by (simp add: put_pset_def)

lemma thread_upd_Some [simp]: "k_threads k t = Some x \<Longrightarrow> thread_upd t f k = Some (put_thread t (f x) k)"
  by (simp add: thread_upd_def)

lemma kmsg_upd_Some [simp]: "k_kmsgs k m = Some x \<Longrightarrow> kmsg_upd m f k = Some (put_kmsg m (f x) k)"
  by (simp add: kmsg_upd_def)

lemma put_other [simp]:
  "port_get (put_pset s y k) q = port_get k q"
  "port_get (put_thread t z k) q = port_get k q"
  "port_get (put_kmsg m w k) q = port_get k q"
  "port_get (log_event ev k) q = port_get k q"
  "port_get (thread_go t k) q = port_get k q"
  "pset_get (put_port p x k) q = pset_get k q"
  "pset_get (put_thread t z k) q = pset_get k q"
  "pset_get (put_kmsg m w k) q = pset_get k q"
  "pset_get (log_event ev k) q = pset_get k q"
  "pset_get (thread_go t k) q = pset_get k q"
  by (simp_all add: port_get_def pset_get_def put_port_def put_pset_def put_thread_def put_kmsg_def
      log_event_def thread_go_def)

lemma put_fields [simp]:
  "k_threads (put_port p x k) = k_threads k"
  "k_threads (put_pset s y k) = k_threads k"
  "k_threads (put_kmsg m w k) = k_threads k"
  "k_threads (put_thread t z k) = (k_threads k)(t \<mapsto> z)"
  "k_threads (log_event ev k) = k_threads k"
  "k_threads (thread_go t k) = k_threads k"
  "k_kmsgs (put_port p x k) = k_kmsgs k"
  "k_kmsgs (put_pset s y k) = k_kmsgs k"
  "k_kmsgs (put_kmsg m w k) = (k_kmsgs k)(m \<mapsto> w)"
  "k_kmsgs (put_thread t z k) = k_kmsgs k"
  "k_kmsgs (log_event ev k) = k_kmsgs k"
  "k_kmsgs (thread_go t k) = k_kmsgs k"
  "k_events (put_port p x k) = k_events k"
  "k_events (put_pset s y k) = k_events k"
  "k_events (put_kmsg m w k) = k_events k"
  "k_events (put_thread t z k) = k_events k"
  "k_events (log_event ev k) = k_events k @ [ev]"
  "k_events (thread_go t k) = k_events k @ [Thread_go t]"
  "k_world (put_port p x k) = k_world k"
  "k_world (put_thread t z k) = k_world k"
  "k_world (log_event ev k) = k_world k"
  "k_timestamp (put_port p x k) = k_timestamp k"
  "k_timestamp (put_thread t z k) = k_timestamp k"
  "k_timestamp (log_event ev k) = k_timestamp k"
  by (simp_all add: put_port_def put_pset_def put_thread_def put_kmsg_def log_event_def thread_go_def)

lemma get_timestamp [simp]:
  "port_get (k\<lparr>k_timestamp := t\<rparr>) q = port_get k q"
  "pset_get (k\<lparr>k_timestamp := t\<rparr>) q = pset_get k q"
  by (simp_all add: port_get_def pset_get_def)

lemma bit_active: "bit IO_BITS_ACTIVE n \<longleftrightarrow> n = 31"
proof -
  have e: "IO_BITS_ACTIVE = push_bit 31 1" by (simp add: IO_BITS_ACTIVE_def)
  show ?thesis unfolding e bit_push_bit_iff bit_1_iff by (auto simp: possible_bit_def)
qed

lemma io_active_bit: "io_active b \<longleftrightarrow> bit b 31"
  using bit_last_iff [of b] by (simp add: io_active_def)

lemma io_active_clear [simp]: "\<not> io_active (b AND NOT IO_BITS_ACTIVE)"
  by (simp add: io_active_bit bit_simps bit_active)

lemma io_kotype_clear [simp]: "io_kotype (b AND NOT IO_BITS_ACTIVE) = io_kotype b"
proof -
  have e: "IO_BITS_KOTYPE = mask 16" by (simp add: IO_BITS_KOTYPE_def mask_eq_exp_minus_1)
  show ?thesis unfolding io_kotype_def e by (intro bit_word_eqI) (auto simp: bit_simps bit_active)
qed

text \<open>Waking a list of threads: each gets the state, in order; nothing else changes but the log.\<close>

definition woken :: "mach_msg_return \<Rightarrow> ptr list \<Rightarrow> kern \<Rightarrow> kern" where
  "woken mr ths k = k\<lparr>
     k_threads := (\<lambda>th. if th \<in> set ths then map_option (\<lambda>t. t\<lparr>ith_state := mr\<rparr>) (k_threads k th)
                        else k_threads k th),
     k_events := k_events k @ map Thread_go ths\<rparr>"

lemma woken_simps [simp]:
  "port_get (woken mr ths k) q = port_get k q"
  "pset_get (woken mr ths k) q = pset_get k q"
  "k_kmsgs (woken mr ths k) = k_kmsgs k"
  "k_events (woken mr ths k) = k_events k @ map Thread_go ths"
  "k_timestamp (woken mr ths k) = k_timestamp k"
  "k_world (woken mr ths k) = k_world k"
  by (simp_all add: woken_def port_get_def pset_get_def)

lemma wake_all_ok:
  "\<forall>th\<in>set ths. k_threads k th \<noteq> None \<Longrightarrow> wake_all mr ths k = Some (woken mr ths k)"
proof (induction ths arbitrary: k)
  case Nil
  show ?case by (simp add: woken_def)
next
  case (Cons th ths)
  then obtain t where t: "k_threads k th = Some t" by auto
  let ?k = "thread_go th (put_thread th (t\<lparr>ith_state := mr\<rparr>) k)"
  have "\<forall>th\<in>set ths. k_threads ?k th \<noteq> None" using Cons.prems by simp
  hence "wake_all mr ths ?k = Some (woken mr ths ?k)" by (rule Cons.IH)
  moreover have "woken mr ths ?k = woken mr (th # ths) k"
    using t by (auto simp: woken_def thread_go_def log_event_def put_thread_def fun_eq_iff)
  ultimately show ?case using t by simp
qed

end
