(* ===== verification/Ipc_Mqueue.thy ===== *)
theory Ipc_Mqueue
  imports Kern
begin

text \<open>
  Message queues, \<^verbatim>\<open>mach4/kernel/ipc/ipc_mqueue.c\<close>, and port sets,
  \<^verbatim>\<open>mach4/kernel/ipc/ipc_pset.c\<close>. A message queue is the queue of a port or of a port set
  and is named by its owner. Sending and receiving follow in \<open>Ipc_Msg\<close>, because they convert
  names.
\<close>

section \<open>Queues\<close>

datatype mqueue = Port_mqueue ptr | Pset_mqueue ptr

fun mq_get :: "kern \<Rightarrow> mqueue \<Rightarrow> ipc_mqueue option" where
  "mq_get k (Port_mqueue p) = map_option ip_messages (port_get k p)"
| "mq_get k (Pset_mqueue p) = map_option ips_messages (pset_get k p)"

fun mq_upd :: "mqueue \<Rightarrow> (ipc_mqueue \<Rightarrow> ipc_mqueue) \<Rightarrow> kern \<Rightarrow> kern option" where
  "mq_upd (Port_mqueue p) f k = port_upd p (\<lambda>x. x\<lparr>ip_messages := f (ip_messages x)\<rparr>) k"
| "mq_upd (Pset_mqueue p) f k = pset_upd p (\<lambda>x. x\<lparr>ips_messages := f (ips_messages x)\<rparr>) k"

definition ipc_mqueue_init :: ipc_mqueue where
  "ipc_mqueue_init = \<lparr>imq_messages = [], imq_threads = []\<rparr>"

text \<open>Hand a message to the first waiting receiver with room for it; receivers whose buffer is too
  small are woken with the size. This loop is in \<^verbatim>\<open>ipc_mqueue_move\<close> and, with
  \<^verbatim>\<open>thread_go\<close> called after the assignments, in \<^verbatim>\<open>ipc_mqueue_send\<close>; the list is
  the queue of waiting threads.\<close>

fun offer :: "mqueue \<Rightarrow> ptr \<Rightarrow> ptr \<Rightarrow> ptr list \<Rightarrow> kern \<Rightarrow> (bool \<times> kern) option" where
  "offer mq port kmsg [] k = Some (False, k)"
| "offer mq port kmsg (th # ths) k = do {
     k \<leftarrow> mq_upd mq (\<lambda>q. q\<lparr>imq_threads := ths\<rparr>) k;
     q \<leftarrow> mq_get k mq;
     oassert (imq_messages q = []);
     let k = thread_go th k;
     m \<leftarrow> k_kmsgs k kmsg;
     t \<leftarrow> k_threads k th;
     if msgh_size m \<le> ith_msize t then do {
       x \<leftarrow> port_get k port;
       k \<leftarrow> thread_upd th (\<lambda>t. t\<lparr>ith_state := MACH_MSG_SUCCESS, ith_data := kmsg, ith_seqno := ip_seqno x\<rparr>) k;
       k \<leftarrow> port_upd port (\<lambda>x. x\<lparr>ip_seqno := ip_seqno x + 1\<rparr>) k;
       Some (True, k) }
     else do {
       k \<leftarrow> thread_upd th (\<lambda>t. t\<lparr>ith_state := MACH_RCV_TOO_LARGE, ith_data := msgh_size m\<rparr>) k;
       offer mq port kmsg ths k } }"

text \<open>Deliver a message: to a receiver, or to the end of the queue.\<close>

definition deliver :: "mqueue \<Rightarrow> ptr \<Rightarrow> ptr \<Rightarrow> kern \<Rightarrow> kern option" where
  "deliver mq port kmsg k = do {
     q \<leftarrow> mq_get k mq;
     (taken, k) \<leftarrow> offer mq port kmsg (imq_threads q) k;
     if taken then Some k
     else mq_upd mq (\<lambda>q. q\<lparr>imq_messages := imq_messages q @ [kmsg]\<rparr>) k }"

fun move_messages :: "mqueue \<Rightarrow> mqueue \<Rightarrow> ptr \<Rightarrow> ptr list \<Rightarrow> kern \<Rightarrow> kern option" where
  "move_messages dest source port [] k = Some k"
| "move_messages dest source port (kmsg # rest) k = do {
     m \<leftarrow> k_kmsgs k kmsg;
     if msgh_remote_port m \<noteq> port then move_messages dest source port rest k
     else do {
       k \<leftarrow> mq_upd source (\<lambda>q. q\<lparr>imq_messages := remove1 kmsg (imq_messages q)\<rparr>) k;
       k \<leftarrow> deliver dest port kmsg k;
       move_messages dest source port rest k } }"

definition ipc_mqueue_move :: "mqueue \<Rightarrow> mqueue \<Rightarrow> ptr \<Rightarrow> kern \<Rightarrow> kern option" where
  "ipc_mqueue_move dest source port k = do {
     q \<leftarrow> mq_get k source;
     move_messages dest source port (imq_messages q) k }"

definition ipc_mqueue_changed :: "mqueue \<Rightarrow> mach_msg_return \<Rightarrow> kern \<Rightarrow> kern option" where
  "ipc_mqueue_changed mq mr k = do {
     q \<leftarrow> mq_get k mq;
     k \<leftarrow> mq_upd mq (\<lambda>q. q\<lparr>imq_threads := []\<rparr>) k;
     wake_all mr (imq_threads q) k }"

section \<open>Port sets\<close>

definition ipc_pset_add :: "ptr \<Rightarrow> ptr \<Rightarrow> kern \<Rightarrow> kern option" where
  "ipc_pset_add pset port k = do {
     s \<leftarrow> pset_get k pset;
     x \<leftarrow> port_get k port;
     oassert (ips_active s);
     oassert (ip_active x);
     oassert (ip_pset x = IPS_NULL);
     k \<leftarrow> port_upd port (\<lambda>x. x\<lparr>ip_pset := pset, ip_cur_target := pset\<rparr>) k;
     k \<leftarrow> ips_reference pset k;
     k \<leftarrow> ipc_mqueue_move (Pset_mqueue pset) (Port_mqueue port) port k;
     q \<leftarrow> mq_get k (Port_mqueue port);
     oassert (imq_messages q = []);
     k \<leftarrow> ipc_mqueue_changed (Port_mqueue port) MACH_RCV_PORT_CHANGED k;
     q \<leftarrow> mq_get k (Port_mqueue port);
     oassert (imq_threads q = []);
     Some k }"

definition ipc_pset_remove :: "ptr \<Rightarrow> ptr \<Rightarrow> kern \<Rightarrow> kern option" where
  "ipc_pset_remove pset port k = do {
     x \<leftarrow> port_get k port;
     oassert (ip_active x);
     oassert (ip_pset x = pset);
     k \<leftarrow> port_upd port (\<lambda>x. x\<lparr>ip_pset := IPS_NULL, ip_cur_target := port\<rparr>) k;
     k \<leftarrow> ips_release pset k;
     ipc_mqueue_move (Port_mqueue port) (Pset_mqueue pset) port k }"

definition ipc_pset_move :: "ptr \<Rightarrow> ptr \<Rightarrow> kern \<Rightarrow> (kern_return \<times> kern) option" where
  "ipc_pset_move port nset k = do {
     x \<leftarrow> port_get k port;
     oassert (ip_active x);
     let oset = ip_pset x;
     (oset, k) \<leftarrow>
       (if oset = nset then Some (oset, k)
        else if oset = IPS_NULL then do {
          s \<leftarrow> pset_get k nset;
          oassert (ips_active s);
          k \<leftarrow> ipc_pset_add nset port k;
          Some (oset, k) }
        else if nset = IPS_NULL then do {
          k \<leftarrow> ipc_pset_remove oset port k;
          s \<leftarrow> pset_get k oset;
          if ips_active s then Some (oset, k)
          else do {
            k \<leftarrow> ips_check_unlock oset k;
            Some (IPS_NULL, k) } }
        else do {
          s \<leftarrow> pset_get k nset;
          oassert (ips_active s);
          k \<leftarrow> ipc_pset_remove oset port k;
          k \<leftarrow> ipc_pset_add nset port k;
          k \<leftarrow> ips_check_unlock oset k;
          Some (oset, k) });
     Some (if nset = IPS_NULL \<and> oset = IPS_NULL then KERN_NOT_IN_SET else KERN_SUCCESS, k) }"

definition ipc_pset_destroy :: "ptr \<Rightarrow> kern \<Rightarrow> kern option" where
  "ipc_pset_destroy pset k = do {
     s \<leftarrow> pset_get k pset;
     oassert (ips_active s);
     k \<leftarrow> pset_upd pset (\<lambda>s. s\<lparr>ips_bits := ips_bits s AND NOT IO_BITS_ACTIVE\<rparr>) k;
     k \<leftarrow> ipc_mqueue_changed (Pset_mqueue pset) MACH_RCV_PORT_DIED k;
     k \<leftarrow> ips_release pset k;
     ips_check_unlock pset k }"

end
