(* ===== verification/Ipc_Msg.thy ===== *)
theory Ipc_Msg
  imports Ipc_Mqueue
begin

text \<open>
  Sending and receiving, the second half of \<^verbatim>\<open>mach4/kernel/ipc/ipc_mqueue.c\<close>.

  A call may block any number of times. What the other threads do while the caller sleeps, up to
  the moment it runs again, is a function on the state; the parameter \<open>wakeups\<close> lists these
  functions for the wakeups that happen. A call that blocks more often than the list is long is
  still asleep: its result is \<open>Asleep\<close>.

  \<open>server\<close> stands for \<^verbatim>\<open>ipc_kobject_server\<close>, which performs a kernel call and returns
  the reply message or null; \<open>kspace\<close> is \<^verbatim>\<open>ipc_space_kernel\<close>, \<open>self\<close> the calling
  thread.
\<close>

datatype 'a outcome = Returned 'a | Asleep

type_synonym wakeups = "(kern \<Rightarrow> kern) list"

definition MACH_SEND_TIMEOUT :: u32 where "MACH_SEND_TIMEOUT = 0x10"
definition MACH_RCV_TIMEOUT :: u32 where "MACH_RCV_TIMEOUT = 0x100"
definition MACH_SEND_ALWAYS :: u32 where "MACH_SEND_ALWAYS = 0x10000"
definition MACH_MSGH_BITS_CIRCULAR :: u32 where "MACH_MSGH_BITS_CIRCULAR = 0x40000000"
definition MACH_MSG_TYPE_PORT_SEND_ONCE :: u32 where "MACH_MSG_TYPE_PORT_SEND_ONCE = 18"

definition MACH_MSGH_BITS_REMOTE :: "u32 \<Rightarrow> u32" where
  "MACH_MSGH_BITS_REMOTE bits = bits AND 0xff"

section \<open>Sending\<close>

text \<open>The first loop of \<^verbatim>\<open>ipc_mqueue_send\<close> ends with the port ready (\<open>Proceed\<close>) or
  with a return.\<close>

datatype send_step = Proceed | Return mach_msg_return

definition send_now :: "u32 \<Rightarrow> ipc_kmsg \<Rightarrow> ipc_port \<Rightarrow> bool" where
  "send_now opt m x \<longleftrightarrow> ip_msgcount x < ip_qlimit x \<or> opt AND MACH_SEND_ALWAYS \<noteq> 0 \<or>
     MACH_MSGH_BITS_REMOTE (msgh_bits m) = MACH_MSG_TYPE_PORT_SEND_ONCE"

fun send_wait ::
  "calls \<Rightarrow> ptr \<Rightarrow> ptr \<Rightarrow> ptr \<Rightarrow> u32 \<Rightarrow> u32 \<Rightarrow> wakeups \<Rightarrow> kern \<Rightarrow> (send_step outcome \<times> kern) option" where
  "send_wait calls self port kmsg opt time_out ws k = do {
     x \<leftarrow> port_get k port;
     m \<leftarrow> k_kmsgs k kmsg;
     if \<not> ip_active x then do {
       k \<leftarrow> ip_release port k;
       k \<leftarrow> ip_check_unlock port k;
       k \<leftarrow> kmsg_upd kmsg (\<lambda>m. m\<lparr>msgh_remote_port := MACH_PORT_NULL\<rparr>) k;
       Some (Returned (Return MACH_MSG_SUCCESS), call calls (Kmsg_destroy kmsg) k) }
     else if send_now opt m x then Some (Returned Proceed, k)
     else if opt AND MACH_SEND_TIMEOUT \<noteq> 0 \<and> time_out = 0 then
       Some (Returned (Return MACH_SEND_TIMED_OUT), k)
     else do {
       k \<leftarrow> port_upd port (\<lambda>x. x\<lparr>ip_blocked := ip_blocked x @ [self]\<rparr>) k;
       k \<leftarrow> thread_upd self (\<lambda>t. t\<lparr>ith_state := MACH_SEND_IN_PROGRESS\<rparr>) k;
       case ws of
         [] \<Rightarrow> Some (Asleep, k)
       | w # ws \<Rightarrow> do {
           let k = w k;
           t \<leftarrow> k_threads k self;
           if ith_state t = MACH_MSG_SUCCESS then send_wait calls self port kmsg opt time_out ws k
           else do {
             oassert (ith_state t = MACH_SEND_IN_PROGRESS);
             x \<leftarrow> port_get k port;
             oassert (ip_blocked x \<noteq> []);
             k \<leftarrow> port_upd port (\<lambda>x. x\<lparr>ip_blocked := remove1 self (ip_blocked x)\<rparr>) k;
             case ith_wait_result t of
               THREAD_INTERRUPTED \<Rightarrow> Some (Returned (Return MACH_SEND_INTERRUPTED), k)
             | THREAD_TIMED_OUT \<Rightarrow> do {
                 oassert (opt AND MACH_SEND_TIMEOUT \<noteq> 0);
                 send_wait calls self port kmsg opt 0 ws k }
             | _ \<Rightarrow> None } } } }"

declare send_wait.simps [simp del]

text \<open>The rest of \<^verbatim>\<open>ipc_mqueue_send\<close>: queue the message or hand it over.\<close>

definition send_queue :: "calls \<Rightarrow> ptr \<Rightarrow> ptr \<Rightarrow> kern \<Rightarrow> kern option" where
  "send_queue calls port kmsg k = do {
     m \<leftarrow> k_kmsgs k kmsg;
     if msgh_bits m AND MACH_MSGH_BITS_CIRCULAR \<noteq> 0 then Some (call calls (Kmsg_destroy kmsg) k)
     else do {
       k \<leftarrow> port_upd port (\<lambda>x. x\<lparr>ip_msgcount := ip_msgcount x + 1\<rparr>) k;
       x \<leftarrow> port_get k port;
       oassert (ip_msgcount x > 0);
       deliver (if ip_pset x = IPS_NULL then Port_mqueue port else Pset_mqueue (ip_pset x)) port kmsg k } }"

partial_function (option) ipc_mqueue_send ::
  "ptr \<Rightarrow> calls \<Rightarrow> (ptr \<Rightarrow> kern \<Rightarrow> ptr \<times> kern) \<Rightarrow> ptr \<Rightarrow> ptr \<Rightarrow> u32 \<Rightarrow> u32 \<Rightarrow> wakeups \<Rightarrow> kern \<Rightarrow>
   (mach_msg_return outcome \<times> kern) option" where
  "ipc_mqueue_send kspace calls server self kmsg opt time_out ws k = do {
     m \<leftarrow> k_kmsgs k kmsg;
     let port = msgh_remote_port m;
     x \<leftarrow> port_get k port;
     if ip_receiver x = kspace then do {
       oassert (ip_active x);
       let (reply, k) = server kmsg k;
       if reply \<noteq> IKM_NULL then do {
         (r, k) \<leftarrow> ipc_mqueue_send kspace calls server self reply MACH_SEND_ALWAYS 0 ws k;
         oassert (r = Returned MACH_MSG_SUCCESS);
         Some (Returned MACH_MSG_SUCCESS, k) }
       else Some (Returned MACH_MSG_SUCCESS, k) }
     else do {
       (r, k) \<leftarrow> send_wait calls self port kmsg opt time_out ws k;
       case r of
         Asleep \<Rightarrow> Some (Asleep, k)
       | Returned (Return mr) \<Rightarrow> Some (Returned mr, k)
       | Returned Proceed \<Rightarrow> do {
           k \<leftarrow> send_queue calls port kmsg k;
           Some (Returned MACH_MSG_SUCCESS, k) } } }"

definition ipc_mqueue_send_always ::
  "ptr \<Rightarrow> calls \<Rightarrow> (ptr \<Rightarrow> kern \<Rightarrow> ptr \<times> kern) \<Rightarrow> ptr \<Rightarrow> ptr \<Rightarrow> wakeups \<Rightarrow> kern \<Rightarrow> kern option" where
  "ipc_mqueue_send_always kspace calls server self kmsg ws k = do {
     (r, k) \<leftarrow> ipc_mqueue_send kspace calls server self kmsg MACH_SEND_ALWAYS 0 ws k;
     oassert (r = Returned MACH_MSG_SUCCESS);
     Some k }"

section \<open>Finding a queue to receive from\<close>

definition ipc_mqueue_copyin ::
  "bool \<Rightarrow> u32 \<Rightarrow> kern \<Rightarrow> ((mach_msg_return + mqueue \<times> ptr) \<times> kern) option" where
  "ipc_mqueue_copyin g name k = do {
     let w = k_world k;
     if \<not> is_active (w_space w) then Some (Inl MACH_RCV_INVALID_NAME, k)
     else do {
       (entry, space, h) \<leftarrow> ipc_entry_lookup g (w_space w) name (w_heap w);
       let k = k\<lparr>k_world := w\<lparr>w_space := space, w_heap := h\<rparr>\<rparr>;
       if entry = IE_NULL then Some (Inl MACH_RCV_INVALID_NAME, k)
       else do {
         bits \<leftarrow> entry_bits space h entry;
         object \<leftarrow> entry_object space h entry;
         if bits AND MACH_PORT_TYPE_RECEIVE \<noteq> 0 then do {
           x \<leftarrow> port_get k object;
           oassert (ip_active x);
           oassert (ip_receiver_name x = name);
           oassert (ip_receiver x = is_addr space);
           let pset = ip_pset x;
           (in_set, k) \<leftarrow>
             (if pset \<noteq> IPS_NULL then do {
                s \<leftarrow> pset_get k pset;
                if ips_active s then Some (True, k)
                else do {
                  k \<leftarrow> ipc_pset_remove pset object k;
                  k \<leftarrow> ips_check_unlock pset k;
                  x \<leftarrow> port_get k object;
                  oassert (ip_pset x = IPS_NULL);
                  Some (False, k) } }
              else Some (False, k));
           if in_set then Some (Inl MACH_RCV_IN_SET, k)
           else do {
             k \<leftarrow> ip_reference object k;
             Some (Inr (Port_mqueue object, object), k) } }
         else if bits AND MACH_PORT_TYPE_PORT_SET \<noteq> 0 then do {
           s \<leftarrow> pset_get k object;
           oassert (ips_active s);
           oassert (ips_local_name s = name);
           k \<leftarrow> ips_reference object k;
           Some (Inr (Pset_mqueue object, object), k) }
         else Some (Inl MACH_RCV_INVALID_NAME, k) } } }"

section \<open>Receiving\<close>

datatype rcv_result = Received ptr u32 | Too_large u32 | Failed mach_msg_return
datatype rcv_step = Got ptr u32 | Give_up rcv_result | Retry

text \<open>After \<^verbatim>\<open>after_thread_block\<close>: why did the thread wake up?\<close>

definition rcv_wake :: "ptr \<Rightarrow> mqueue \<Rightarrow> u32 \<Rightarrow> kern \<Rightarrow> (rcv_step \<times> kern) option" where
  "rcv_wake self mq opt k = do {
     t \<leftarrow> k_threads k self;
     case ith_state t of
       MACH_MSG_SUCCESS \<Rightarrow> Some (Got (ith_kmsg t) (ith_seqno t), k)
     | MACH_RCV_TOO_LARGE \<Rightarrow> Some (Give_up (Too_large (ith_msize t)), k)
     | MACH_RCV_PORT_DIED \<Rightarrow> Some (Give_up (Failed MACH_RCV_PORT_DIED), k)
     | MACH_RCV_PORT_CHANGED \<Rightarrow> Some (Give_up (Failed MACH_RCV_PORT_CHANGED), k)
     | MACH_RCV_IN_PROGRESS \<Rightarrow> do {
         q \<leftarrow> mq_get k mq;
         oassert (imq_threads q \<noteq> []);
         k \<leftarrow> mq_upd mq (\<lambda>q. q\<lparr>imq_threads := remove1 self (imq_threads q)\<rparr>) k;
         case ith_wait_result t of
           THREAD_INTERRUPTED \<Rightarrow> Some (Give_up (Failed MACH_RCV_INTERRUPTED), k)
         | THREAD_TIMED_OUT \<Rightarrow> do {
             oassert (opt AND MACH_RCV_TIMEOUT \<noteq> 0);
             Some (Retry, k) }
         | _ \<Rightarrow> None }
     | _ \<Rightarrow> None }"

text \<open>The loop. With a continuation (\<open>cont\<close>) the call ends when the thread blocks, and the
  continuation makes a new call with \<open>resume\<close> set.\<close>

fun rcv_loop ::
  "bool \<Rightarrow> ptr \<Rightarrow> mqueue \<Rightarrow> u32 \<Rightarrow> u32 \<Rightarrow> u32 \<Rightarrow> wakeups \<Rightarrow> kern \<Rightarrow> (rcv_step outcome \<times> kern) option" where
  "rcv_loop cont self mq opt max_size time_out ws k = do {
     q \<leftarrow> mq_get k mq;
     case imq_messages q of
       kmsg # rest \<Rightarrow> do {
         m \<leftarrow> k_kmsgs k kmsg;
         if max_size < msgh_size m then Some (Returned (Give_up (Too_large (msgh_size m))), k)
         else do {
           k \<leftarrow> mq_upd mq (\<lambda>q. q\<lparr>imq_messages := rest\<rparr>) k;
           x \<leftarrow> port_get k (msgh_remote_port m);
           k \<leftarrow> port_upd (msgh_remote_port m) (\<lambda>x. x\<lparr>ip_seqno := ip_seqno x + 1\<rparr>) k;
           Some (Returned (Got kmsg (ip_seqno x)), k) } }
     | [] \<Rightarrow>
         if opt AND MACH_RCV_TIMEOUT \<noteq> 0 \<and> time_out = 0 then
           Some (Returned (Give_up (Failed MACH_RCV_TIMED_OUT)), k)
         else do {
           k \<leftarrow> mq_upd mq (\<lambda>q. q\<lparr>imq_threads := imq_threads q @ [self]\<rparr>) k;
           k \<leftarrow> thread_upd self (\<lambda>t. t\<lparr>ith_state := MACH_RCV_IN_PROGRESS, ith_data := max_size\<rparr>) k;
           if cont then Some (Asleep, k)
           else case ws of
             [] \<Rightarrow> Some (Asleep, k)
           | w # ws \<Rightarrow> do {
               (r, k) \<leftarrow> rcv_wake self mq opt (w k);
               case r of
                 Retry \<Rightarrow> rcv_loop cont self mq opt max_size 0 ws k
               | _ \<Rightarrow> Some (Returned r, k) } } }"

declare rcv_loop.simps [simp del]

text \<open>With a message in hand: its port has room for one more, so one blocked sender is woken.\<close>

definition rcv_finish :: "calls \<Rightarrow> u32 \<Rightarrow> ptr \<Rightarrow> kern \<Rightarrow> kern option" where
  "rcv_finish calls max_size kmsg k = do {
     m \<leftarrow> k_kmsgs k kmsg;
     let port = msgh_remote_port m;
     oassert (msgh_size m \<le> max_size);
     k \<leftarrow> (if ikm_marequest m \<noteq> IMAR_NULL
            then kmsg_upd kmsg (\<lambda>m. m\<lparr>ikm_marequest := IMAR_NULL\<rparr>) (call calls (Marequest_destroy (ikm_marequest m)) k)
            else Some k);
     m \<leftarrow> k_kmsgs k kmsg;
     oassert (msgh_bits m AND MACH_MSGH_BITS_CIRCULAR = 0);
     oassert (port = msgh_remote_port m);
     x \<leftarrow> port_get k port;
     if ip_active x then do {
       oassert (ip_msgcount x > 0);
       k \<leftarrow> port_upd port (\<lambda>x. x\<lparr>ip_msgcount := ip_msgcount x - 1\<rparr>) k;
       x \<leftarrow> port_get k port;
       case ip_blocked x of
         [] \<Rightarrow> Some k
       | sender # rest \<Rightarrow>
           if ip_msgcount x < ip_qlimit x then do {
             k \<leftarrow> port_upd port (\<lambda>x. x\<lparr>ip_blocked := rest\<rparr>) k;
             wake_all MACH_MSG_SUCCESS [sender] k }
           else Some k }
     else Some k }"

definition ipc_mqueue_receive ::
  "calls \<Rightarrow> bool \<Rightarrow> ptr \<Rightarrow> mqueue \<Rightarrow> u32 \<Rightarrow> u32 \<Rightarrow> u32 \<Rightarrow> bool \<Rightarrow> wakeups \<Rightarrow> kern \<Rightarrow>
   (rcv_result outcome \<times> kern) option" where
  "ipc_mqueue_receive calls cont self mq opt max_size time_out resume ws k = do {
     (r, k) \<leftarrow>
       (if resume then do {
          (r, k) \<leftarrow> rcv_wake self mq opt k;
          case r of
            Retry \<Rightarrow> rcv_loop cont self mq opt max_size 0 ws k
          | _ \<Rightarrow> Some (Returned r, k) }
        else rcv_loop cont self mq opt max_size time_out ws k);
     case r of
       Asleep \<Rightarrow> Some (Asleep, k)
     | Returned (Got kmsg seqno) \<Rightarrow> do {
         k \<leftarrow> rcv_finish calls max_size kmsg k;
         Some (Returned (Received kmsg seqno), k) }
     | Returned (Give_up res) \<Rightarrow> Some (Returned res, k)
     | Returned Retry \<Rightarrow> None }"

end
