(* ===== verification/Mqueue_Correct.thy ===== *)
theory Mqueue_Correct
  imports Ipc_Msg
begin

text \<open>
  Message queues: what moving, delivering and waking do to the queues as lists. \<open>put_mq\<close> is the
  state with one queue replaced; the operations are shown to be such replacements.
\<close>

definition put_mq :: "mqueue \<Rightarrow> ipc_mqueue \<Rightarrow> kern \<Rightarrow> kern" where
  "put_mq mq q k = (case mq of
      Port_mqueue p \<Rightarrow> (case port_get k p of None \<Rightarrow> k | Some x \<Rightarrow> put_port p (x\<lparr>ip_messages := q\<rparr>) k)
    | Pset_mqueue s \<Rightarrow> (case pset_get k s of None \<Rightarrow> k | Some x \<Rightarrow> put_pset s (x\<lparr>ips_messages := q\<rparr>) k))"

lemma mq_upd_Some [simp]: "mq_get k mq = Some q \<Longrightarrow> mq_upd mq f k = Some (put_mq mq (f q) k)"
  by (cases mq) (auto simp: put_mq_def)

lemma mq_get_put [simp]:
  "mq_get k mq = Some q0 \<Longrightarrow> mq_get (put_mq mq q k) mq' = (if mq' = mq then Some q else mq_get k mq')"
  by (cases mq; cases mq') (auto simp: put_mq_def dest: port_get_valid pset_get_valid)

lemma put_mq_fields [simp]:
  "k_kmsgs (put_mq mq q k) = k_kmsgs k" "k_threads (put_mq mq q k) = k_threads k"
  "k_events (put_mq mq q k) = k_events k"
  by (cases mq; simp add: put_mq_def split: option.splits)+

lemma port_get_put_mq [simp]:
  "port_get (put_mq mq q k) p =
     map_option (\<lambda>x. if mq = Port_mqueue p then x\<lparr>ip_messages := q\<rparr> else x) (port_get k p)"
  by (cases mq; cases "port_get k p") (auto simp: put_mq_def split: option.splits dest: port_get_valid)

lemma pset_get_put_mq [simp]:
  "pset_get (put_mq mq q k) s =
     map_option (\<lambda>x. if mq = Pset_mqueue s then x\<lparr>ips_messages := q\<rparr> else x) (pset_get k s)"
  by (cases mq; cases "pset_get k s") (auto simp: put_mq_def split: option.splits dest: pset_get_valid)

lemma put_mq_twice [simp]: "put_mq mq q (put_mq mq q' k) = put_mq mq q k"
  by (cases mq) (auto simp: put_mq_def split: option.splits dest: port_get_valid pset_get_valid)

lemma put_mq_id: "mq_get k mq = Some q \<Longrightarrow> put_mq mq q k = k"
  by (cases mq) (auto simp: put_mq_def put_port_def put_pset_def port_get_def pset_get_def
      map_upd_triv split: if_splits)

lemma put_mq_twist:
  assumes "mq \<noteq> mq'"
  shows "put_mq mq q (put_mq mq' q' k) = put_mq mq' q' (put_mq mq q k)"
  using assms
  by (cases mq; cases mq')
    (auto simp: put_mq_def put_port_def put_pset_def port_get_def pset_get_def fun_upd_twist
      split: option.splits if_splits)

lemma mq_get_frame [simp]:
  "mq_get (put_thread t z k) mq = mq_get k mq"
  "mq_get (put_kmsg m w k) mq = mq_get k mq"
  "mq_get (thread_go t k) mq = mq_get k mq"
  "mq_get (log_event ev k) mq = mq_get k mq"
  "mq_get (woken mr ths k) mq = mq_get k mq"
  by (cases mq; simp)+

section \<open>Delivery\<close>

lemma deliver_queues:
  assumes "mq_get k mq = Some q" "imq_threads q = []"
  shows "deliver mq port m k = Some (put_mq mq (q\<lparr>imq_messages := imq_messages q @ [m]\<rparr>) k)"
  using assms by (simp add: deliver_def)

text \<open>Receivers wait: those with too small a buffer are turned away, the first with room gets the
  message, the others go on waiting.\<close>

definition too_small :: "kern \<Rightarrow> u32 \<Rightarrow> ptr \<Rightarrow> bool" where
  "too_small k sz th \<longleftrightarrow> (case k_threads k th of Some t \<Rightarrow> ith_msize t < sz | None \<Rightarrow> False)"

definition turned_away :: "u32 \<Rightarrow> ptr list \<Rightarrow> kern \<Rightarrow> kern" where
  "turned_away sz ths k = k\<lparr>
     k_threads := (\<lambda>th. if th \<in> set ths
        then map_option (\<lambda>t. t\<lparr>ith_state := MACH_RCV_TOO_LARGE, ith_data := sz\<rparr>) (k_threads k th)
        else k_threads k th),
     k_events := k_events k @ map Thread_go ths\<rparr>"

definition handed :: "ptr \<Rightarrow> ptr \<Rightarrow> ptr \<Rightarrow> kern \<Rightarrow> kern" where
  "handed port m th k = (case (port_get k port, k_threads k th) of
      (Some x, Some t) \<Rightarrow>
        put_port port (x\<lparr>ip_seqno := ip_seqno x + 1\<rparr>)
         (put_thread th (t\<lparr>ith_state := MACH_MSG_SUCCESS, ith_data := m, ith_seqno := ip_seqno x\<rparr>)
           (thread_go th k))
    | _ \<Rightarrow> k)"

lemma turned_away_simps [simp]:
  "port_get (turned_away sz ths k) p = port_get k p"
  "pset_get (turned_away sz ths k) p = pset_get k p"
  "mq_get (turned_away sz ths k) mq = mq_get k mq"
  "k_kmsgs (turned_away sz ths k) = k_kmsgs k"
  "k_events (turned_away sz ths k) = k_events k @ map Thread_go ths"
  "th \<notin> set ths \<Longrightarrow> k_threads (turned_away sz ths k) th = k_threads k th"
  "turned_away sz [] k = k"
  by (auto simp: turned_away_def port_get_def pset_get_def) (cases mq; simp add: port_get_def pset_get_def)

lemma turned_away_Cons:
  assumes "k_threads k th = Some t" "th \<notin> set ths"
  shows "turned_away sz ths (put_thread th (t\<lparr>ith_state := MACH_RCV_TOO_LARGE, ith_data := sz\<rparr>) (thread_go th k)) =
    turned_away sz (th # ths) k"
  using assms by (auto simp: turned_away_def put_thread_def thread_go_def log_event_def fun_eq_iff)

lemma too_small_frame:
  "th \<noteq> th' \<Longrightarrow> too_small (put_thread th t (thread_go th (put_mq mq q k))) sz th' = too_small k sz th'"
  by (simp add: too_small_def)

lemma put_mq_thread:
  "put_mq mq q (put_thread th t (thread_go th' k)) = put_thread th t (thread_go th' (put_mq mq q k))"
  by (cases mq) (auto simp: put_mq_def put_thread_def thread_go_def log_event_def put_port_def put_pset_def
      port_get_def pset_get_def split: option.splits)

lemma handed_simps:
  assumes "port_get k port = Some x" "k_threads k th = Some t"
  shows "mq_get (handed port m th k) mq = mq_get k mq"
    "k_threads (handed port m th k) =
       (k_threads k)(th \<mapsto> t\<lparr>ith_state := MACH_MSG_SUCCESS, ith_data := m, ith_seqno := ip_seqno x\<rparr>)"
    "k_events (handed port m th k) = k_events k @ [Thread_go th]"
  using assms by (cases mq; simp add: handed_def)+

lemma turned_away_thread: "th \<in> set ths \<Longrightarrow> k_threads k th = Some t \<Longrightarrow>
    k_threads (turned_away sz ths k) th = Some (t\<lparr>ith_state := MACH_RCV_TOO_LARGE, ith_data := sz\<rparr>)"
  by (simp add: turned_away_def)

text \<open>The outcome of offering a message to the waiting threads of a queue.\<close>

definition offered :: "mqueue \<Rightarrow> ptr \<Rightarrow> ptr \<Rightarrow> u32 \<Rightarrow> ptr list \<Rightarrow> ipc_mqueue \<Rightarrow> kern \<Rightarrow> bool \<times> kern" where
  "offered mq port m sz ths q k = (let rej = takeWhile (too_small k sz) ths in
     case dropWhile (too_small k sz) ths of
       [] \<Rightarrow> (False, turned_away sz rej (put_mq mq (q\<lparr>imq_threads := []\<rparr>) k))
     | th # rest \<Rightarrow> (True, handed port m th (turned_away sz rej (put_mq mq (q\<lparr>imq_threads := rest\<rparr>) k))))"

lemma offer_ok:
  assumes "mq_get k mq = Some q" "imq_threads q = ths" "imq_messages q = []" "k_kmsgs k m = Some km"
    "distinct ths" "\<forall>th\<in>set ths. k_threads k th \<noteq> None" "port_get k port = Some x"
  shows "offer mq port m ths k = Some (offered mq port m (msgh_size km) ths q k)"
  using assms
proof (induction ths arbitrary: k q x)
  case Nil
  moreover have "q\<lparr>imq_threads := []\<rparr> = q" using Nil by simp
  ultimately show ?case by (simp add: offered_def put_mq_id)
next
  case (Cons th ths)
  obtain t where t: "k_threads k th = Some t" using Cons.prems by auto
  let ?q = "q\<lparr>imq_threads := ths\<rparr>"
  let ?k = "put_mq mq ?q k"
  let ?sz = "msgh_size km"
  have x: "port_get ?k port \<noteq> None" using Cons.prems(7) by simp
  then obtain y where y: "port_get ?k port = Some y" by blast
  show ?case
  proof (cases "too_small k ?sz th")
    case False
    hence "msgh_size km \<le> ith_msize t" using t by (simp add: too_small_def)
    thus ?thesis using Cons.prems False t y
      by (simp add: offered_def handed_def)
  next
    case True
    hence lt: "\<not> msgh_size km \<le> ith_msize t" using t by (simp add: too_small_def)
    let ?k1 = "put_thread th (t\<lparr>ith_state := MACH_RCV_TOO_LARGE, ith_data := ?sz\<rparr>) (thread_go th ?k)"
    have "offer mq port m (th # ths) k = offer mq port m ths ?k1"
      using Cons.prems t lt by simp
    also have "\<dots> = Some (offered mq port m ?sz ths ?q ?k1)"
      by (rule Cons.IH) (use Cons.prems y in auto)
    also have "offered mq port m ?sz ths ?q ?k1 = offered mq port m ?sz (th # ths) q k"
    proof -
      have same: "too_small ?k1 ?sz th' = too_small k ?sz th'" if "th' \<in> set ths" for th'
        by (rule too_small_frame) (use that Cons.prems(5) in auto)
      have c: "takeWhile (too_small ?k1 ?sz) ths = takeWhile (too_small k ?sz) ths"
        "dropWhile (too_small ?k1 ?sz) ths = dropWhile (too_small k ?sz) ths"
        by (auto intro!: takeWhile_cong dropWhile_cong simp: same)
      have n: "th \<notin> set (takeWhile (too_small k ?sz) ths)"
        using Cons.prems(5) set_takeWhileD by fastforce
      have "turned_away ?sz (takeWhile (too_small k ?sz) ths) (put_mq mq q' ?k1) =
          turned_away ?sz (th # takeWhile (too_small k ?sz) ths) (put_mq mq q' k)" for q'
        using turned_away_Cons [of "put_mq mq q' k" th t, OF _ n] t by (simp add: put_mq_thread)
      thus ?thesis using True c by (simp add: offered_def Let_def del: dropWhile_eq_Nil_conv split: list.split)
    qed
    finally show ?thesis .
  qed
qed

lemma deliver_offers:
  assumes "mq_get k mq = Some q" "imq_messages q = []" "k_kmsgs k m = Some km"
    "distinct (imq_threads q)" "\<forall>th\<in>set (imq_threads q). k_threads k th \<noteq> None" "port_get k port = Some x"
  shows "deliver mq port m k =
    (let (taken, k') = offered mq port m (msgh_size km) (imq_threads q) q k
     in if taken then Some k' else mq_upd mq (\<lambda>q. q\<lparr>imq_messages := imq_messages q @ [m]\<rparr>) k')"
  using offer_ok [OF assms(1) refl assms(2-6)] assms(1) by (simp add: deliver_def split: prod.split)

section \<open>Moving messages\<close>

definition to_port :: "kern \<Rightarrow> ptr \<Rightarrow> ptr \<Rightarrow> bool" where
  "to_port k port m \<longleftrightarrow> (case k_kmsgs k m of Some km \<Rightarrow> msgh_remote_port km = port | None \<Rightarrow> False)"

definition live_msgs :: "kern \<Rightarrow> ptr list \<Rightarrow> bool" where
  "live_msgs k ms \<longleftrightarrow> distinct ms \<and> (\<forall>m\<in>set ms. k_kmsgs k m \<noteq> None)"

lemma move_messages_ok:
  assumes "dest \<noteq> source" "mq_get k dest = Some dq" "imq_threads dq = []" "mq_get k source = Some sq"
    "imq_messages sq = pre @ ms" "live_msgs k (pre @ ms)"
  shows "move_messages dest source port ms k = Some (
    put_mq dest (dq\<lparr>imq_messages := imq_messages dq @ filter (to_port k port) ms\<rparr>)
     (put_mq source (sq\<lparr>imq_messages := pre @ filter (\<lambda>m. \<not> to_port k port m) ms\<rparr>) k))"
  using assms
proof (induction ms arbitrary: k pre dq sq)
  case Nil
  moreover have "sq\<lparr>imq_messages := pre\<rparr> = sq" using Nil by simp
  ultimately show ?case by (simp add: put_mq_id)
next
  case (Cons m ms)
  obtain km where km: "k_kmsgs k m = Some km" using Cons.prems by (auto simp: live_msgs_def)
  show ?case
  proof (cases "msgh_remote_port km = port")
    case False
    thus ?thesis using Cons.IH [of k dq sq "pre @ [m]"] Cons.prems km by (simp add: to_port_def)
  next
    case True
    let ?sq = "sq\<lparr>imq_messages := pre @ ms\<rparr>"
    let ?dq = "dq\<lparr>imq_messages := imq_messages dq @ [m]\<rparr>"
    let ?k = "put_mq dest ?dq (put_mq source ?sq k)"
    have r: "remove1 m (pre @ m # ms) = pre @ ms"
      using Cons.prems(6) by (auto simp: live_msgs_def remove1_append)
    have "move_messages dest source port (m # ms) k = move_messages dest source port ms ?k"
      using Cons.prems km True r deliver_queues [of "put_mq source ?sq k" dest dq port m] by simp
    also have "\<dots> = Some (
      put_mq dest (?dq\<lparr>imq_messages := imq_messages ?dq @ filter (to_port ?k port) ms\<rparr>)
       (put_mq source (?sq\<lparr>imq_messages := pre @ filter (\<lambda>m. \<not> to_port ?k port m) ms\<rparr>) ?k))"
      by (rule Cons.IH) (use Cons.prems in \<open>auto simp: live_msgs_def\<close>)
    also have "to_port ?k port = to_port k port" by (simp add: to_port_def fun_eq_iff)
    finally show ?thesis using km True Cons.prems(1)
      by (simp add: to_port_def put_mq_twist [of source dest])
  qed
qed

lemma mqueue_move_ok:
  assumes "dest \<noteq> source" "mq_get k dest = Some dq" "imq_threads dq = []" "mq_get k source = Some sq"
    "live_msgs k (imq_messages sq)"
  shows "ipc_mqueue_move dest source port k = Some (
    put_mq dest (dq\<lparr>imq_messages := imq_messages dq @ filter (to_port k port) (imq_messages sq)\<rparr>)
     (put_mq source (sq\<lparr>imq_messages := filter (\<lambda>m. \<not> to_port k port m) (imq_messages sq)\<rparr>) k))"
  using move_messages_ok [OF assms(1-4), of "[]" "imq_messages sq"] assms(4,5)
  by (simp add: ipc_mqueue_move_def)

lemma mqueue_changed_ok:
  assumes "mq_get k mq = Some q" "\<forall>th\<in>set (imq_threads q). k_threads k th \<noteq> None"
  shows "ipc_mqueue_changed mq mr k = Some (woken mr (imq_threads q) (put_mq mq (q\<lparr>imq_threads := []\<rparr>) k))"
  using assms by (simp add: ipc_mqueue_changed_def wake_all_ok)

end
