(* ===== verification/Pset_Correct.thy ===== *)
theory Pset_Correct
  imports Mqueue_Correct
begin

text \<open>
  Port sets. Putting a port into a set moves its messages behind those of the set and tells its
  receivers; taking it out moves exactly its own messages back, in order.
\<close>

lemma put_port_pset: "put_pset s y (put_port p x k) = put_port p x (put_pset s y k)"
  by (simp add: put_port_def put_pset_def)

lemma put_mq_port: "IP_VALID p \<Longrightarrow> put_mq (Port_mqueue p) q (put_port p x k) = put_port p (x\<lparr>ip_messages := q\<rparr>) k"
  by (simp add: put_mq_def)

lemma put_mq_pset: "IP_VALID s \<Longrightarrow> put_mq (Pset_mqueue s) q (put_pset s y k) = put_pset s (y\<lparr>ips_messages := q\<rparr>) k"
  by (simp add: put_mq_def)

lemma put_mq_pset_port: "put_mq (Pset_mqueue s) q (put_port p x k) = put_port p x (put_mq (Pset_mqueue s) q k)"
  by (simp add: put_mq_def put_port_pset split: option.split)

lemma mqueue_fields: "(q :: ipc_mqueue)\<lparr>imq_messages := ms, imq_threads := ths\<rparr> = \<lparr>imq_messages = ms, imq_threads = ths\<rparr>"
  by (cases q) simp

lemmas put_normal = put_port_pset put_mq_port put_mq_pset put_mq_pset_port

lemma to_port_frame [simp]:
  "to_port (put_port p x k) = to_port k" "to_port (put_pset s y k) = to_port k"
  "to_port (woken mr ths k) = to_port k" "to_port (put_mq mq q k) = to_port k"
  by (simp_all add: to_port_def fun_eq_iff)

lemma live_msgs_frame [simp]:
  "live_msgs (put_port p x k) ms = live_msgs k ms" "live_msgs (put_pset s y k) ms = live_msgs k ms"
  "live_msgs (woken mr ths k) ms = live_msgs k ms"
  by (simp_all add: live_msgs_def)

definition in_set :: "ptr \<Rightarrow> ipc_port \<Rightarrow> ipc_port" where
  "in_set s x = x\<lparr>ip_pset := s, ip_cur_target := s, ip_messages := ipc_mqueue_init\<rparr>"

lemma pset_add_ok:
  assumes s: "pset_get k s = Some ps" "ips_active ps" "imq_threads (ips_messages ps) = []"
    and p: "port_get k p = Some x" "ip_active x" "ip_pset x = 0"
    and m: "live_msgs k (imq_messages (ip_messages x))" "\<forall>m\<in>set (imq_messages (ip_messages x)). to_port k p m"
    and th: "\<forall>th\<in>set (imq_threads (ip_messages x)). k_threads k th \<noteq> None"
  shows "ipc_pset_add s p k = Some (woken MACH_RCV_PORT_CHANGED (imq_threads (ip_messages x))
    (put_port p (in_set s x)
      (put_pset s (ps\<lparr>ips_references := ips_references ps + 1,
         ips_messages := (ips_messages ps)\<lparr>imq_messages := imq_messages (ips_messages ps) @ imq_messages (ip_messages x)\<rparr>\<rparr>) k)))"
proof -
  note v = port_get_valid [OF p(1)] pset_get_valid [OF s(1)]
  let ?x = "x\<lparr>ip_pset := s, ip_cur_target := s\<rparr>"
  let ?ps = "ps\<lparr>ips_references := ips_references ps + 1\<rparr>"
  let ?k1 = "put_pset s ?ps (put_port p ?x k)"
  let ?ms = "imq_messages (ip_messages x)"
  let ?dq = "(ips_messages ps)\<lparr>imq_messages := imq_messages (ips_messages ps) @ ?ms\<rparr>"
  let ?k2 = "put_port p (?x\<lparr>ip_messages := (ip_messages x)\<lparr>imq_messages := []\<rparr>\<rparr>) (put_pset s (?ps\<lparr>ips_messages := ?dq\<rparr>) k)"
  have f: "filter (to_port k p) ?ms = ?ms" "filter (\<lambda>m. \<not> to_port k p m) ?ms = []"
    using m(2) by (auto simp: filter_id_conv filter_empty_conv)
  have "ipc_mqueue_move (Pset_mqueue s) (Port_mqueue p) p ?k1 = Some ?k2"
    using mqueue_move_ok [of "Pset_mqueue s" "Port_mqueue p" ?k1 "ips_messages ps" "ip_messages x" p] s(3) v m(1) f
    by (simp add: put_normal)
  moreover have "ipc_mqueue_changed (Port_mqueue p) MACH_RCV_PORT_CHANGED ?k2 =
      Some (woken MACH_RCV_PORT_CHANGED (imq_threads (ip_messages x)) (put_port p (in_set s x) (put_pset s (?ps\<lparr>ips_messages := ?dq\<rparr>) k)))"
    using mqueue_changed_ok [of ?k2 "Port_mqueue p" "(ip_messages x)\<lparr>imq_messages := []\<rparr>" MACH_RCV_PORT_CHANGED] v th
    by (simp add: put_normal in_set_def ipc_mqueue_init_def mqueue_fields)
  ultimately show ?thesis using s(1,2) p v
    by (simp add: ipc_pset_add_def ips_reference_def put_normal in_set_def ipc_mqueue_init_def)
qed

lemma pset_remove_ok:
  assumes s: "pset_get k s = Some ps" and p: "port_get k p = Some x" "ip_active x" "ip_pset x = s"
    "imq_threads (ip_messages x) = []" and m: "live_msgs k (imq_messages (ips_messages ps))"
  shows "ipc_pset_remove s p k = Some
    (put_port p (x\<lparr>ip_pset := 0, ip_cur_target := p, ip_messages := (ip_messages x)\<lparr>imq_messages :=
        imq_messages (ip_messages x) @ filter (to_port k p) (imq_messages (ips_messages ps))\<rparr>\<rparr>)
      (put_pset s (ps\<lparr>ips_references := ips_references ps - 1,
         ips_messages := (ips_messages ps)\<lparr>imq_messages := filter (\<lambda>m. \<not> to_port k p m) (imq_messages (ips_messages ps))\<rparr>\<rparr>) k))"
proof -
  note v = port_get_valid [OF p(1)] pset_get_valid [OF s]
  let ?x = "x\<lparr>ip_pset := 0, ip_cur_target := p\<rparr>"
  let ?ps = "ps\<lparr>ips_references := ips_references ps - 1\<rparr>"
  let ?k1 = "put_pset s ?ps (put_port p ?x k)"
  show ?thesis
    using mqueue_move_ok [of "Port_mqueue p" "Pset_mqueue s" ?k1 "ip_messages x" "ips_messages ps" p] s p v m
    by (simp add: ipc_pset_remove_def ips_release_def put_normal)
qed

end
