(* ===== verification/Msg_Correct.thy ===== *)
theory Msg_Correct
  imports Pset_Correct
begin

text \<open>
  Sending and receiving through a port's own queue: messages leave in the order they came, the
  count of queued messages follows, a full queue puts the sender to sleep, and a receive that makes
  room wakes it.
\<close>

text \<open>A message that can be sent to the port: addressed to it and not marked circular.\<close>

definition sendable :: "kern \<Rightarrow> ptr \<Rightarrow> ptr \<Rightarrow> ipc_kmsg \<Rightarrow> bool" where
  "sendable k p m km \<longleftrightarrow> k_kmsgs k m = Some km \<and> msgh_remote_port km = p \<and>
     msgh_bits km AND MACH_MSGH_BITS_CIRCULAR = 0"

text \<open>A live port outside the kernel's space and outside any set.\<close>

definition plain_port :: "ptr \<Rightarrow> kern \<Rightarrow> ptr \<Rightarrow> ipc_port \<Rightarrow> bool" where
  "plain_port kspace k p x \<longleftrightarrow> port_get k p = Some x \<and> ip_active x \<and> ip_receiver x \<noteq> kspace \<and> ip_pset x = 0"

definition queued :: "ptr \<Rightarrow> ipc_port \<Rightarrow> ipc_port" where
  "queued m x = x\<lparr>ip_msgcount := ip_msgcount x + 1,
     ip_messages := (ip_messages x)\<lparr>imq_messages := imq_messages (ip_messages x) @ [m]\<rparr>\<rparr>"

lemma word_gt_0_Suc: "(x :: u32) + 1 \<noteq> 0 \<Longrightarrow> 0 < x + 1"
  by (simp add: word_gt_0)

lemma send_queue_ok:
  assumes p: "plain_port kspace k p x" and m: "sendable k p m km" and c: "ip_msgcount x + 1 \<noteq> 0"
    and r: "imq_threads (ip_messages x) = []"
  shows "send_queue calls p m k = Some (put_port p (queued m x) k)"
proof -
  have x: "port_get k p = Some x" "ip_pset x = 0" using p by (simp_all add: plain_port_def)
  note v = port_get_valid [OF x(1)]
  let ?k = "put_port p (x\<lparr>ip_msgcount := ip_msgcount x + 1\<rparr>) k"
  have "deliver (Port_mqueue p) p m ?k =
      Some (put_mq (Port_mqueue p) ((ip_messages x)\<lparr>imq_messages := imq_messages (ip_messages x) @ [m]\<rparr>) ?k)"
    using deliver_queues [of ?k "Port_mqueue p" "ip_messages x"] r v by simp
  thus ?thesis using x m v word_gt_0_Suc [OF c]
    by (simp add: send_queue_def sendable_def put_normal queued_def)
qed

lemma send_ok:
  assumes p: "plain_port kspace k p x" and m: "sendable k p m km" and c: "ip_msgcount x + 1 \<noteq> 0"
    and r: "imq_threads (ip_messages x) = []" and now: "send_now opt km x"
  shows "ipc_mqueue_send kspace calls server self m opt time_out ws k =
    Some (Returned MACH_MSG_SUCCESS, put_port p (queued m x) k)"
  using send_queue_ok [OF p m c r, of calls] p m now
  by (simp add: ipc_mqueue_send.simps [of kspace] plain_port_def sendable_def
      send_wait.simps [of calls self p m opt time_out ws k])

text \<open>Asleep on a full queue.\<close>

definition asleep :: "ptr \<Rightarrow> ptr \<Rightarrow> ipc_port \<Rightarrow> ipc_thread \<Rightarrow> kern \<Rightarrow> kern" where
  "asleep self p x t k =
     put_thread self (t\<lparr>ith_state := MACH_SEND_IN_PROGRESS\<rparr>) (put_port p (x\<lparr>ip_blocked := ip_blocked x @ [self]\<rparr>) k)"

lemma send_sleeps:
  assumes p: "plain_port kspace k p x" and m: "sendable k p m km" and full: "\<not> send_now opt km x"
    and t: "k_threads k self = Some t" and o: "opt AND MACH_SEND_TIMEOUT = 0 \<or> time_out \<noteq> 0"
  shows "ipc_mqueue_send kspace calls server self m opt time_out [] k = Some (Asleep, asleep self p x t k)"
  using p m full t o
  by (auto simp: ipc_mqueue_send.simps [of kspace] plain_port_def sendable_def asleep_def
      send_wait.simps [of calls self p m opt time_out "[]" k])

section \<open>Receiving\<close>

definition dequeued :: "ptr list \<Rightarrow> ipc_port \<Rightarrow> ipc_port" where
  "dequeued rest x = x\<lparr>ip_messages := (ip_messages x)\<lparr>imq_messages := rest\<rparr>, ip_seqno := ip_seqno x + 1,
     ip_msgcount := ip_msgcount x - 1\<rparr>"

definition received :: "ptr \<Rightarrow> ptr list \<Rightarrow> ipc_port \<Rightarrow> kern \<Rightarrow> kern" where
  "received p rest x k = (case ip_blocked x of
      [] \<Rightarrow> put_port p (dequeued rest x) k
    | s # ss \<Rightarrow> if ip_msgcount x - 1 < ip_qlimit x
        then woken MACH_MSG_SUCCESS [s] (put_port p ((dequeued rest x)\<lparr>ip_blocked := ss\<rparr>) k)
        else put_port p (dequeued rest x) k)"

lemma receive_ok:
  assumes p: "port_get k p = Some x" "ip_active x" "0 < ip_msgcount x"
    and q: "imq_messages (ip_messages x) = m # rest" and m: "sendable k p m km" "ikm_marequest km = 0"
    and sz: "msgh_size km \<le> max_size" and b: "\<forall>th\<in>set (ip_blocked x). k_threads k th \<noteq> None"
  shows "ipc_mqueue_receive calls cont self (Port_mqueue p) opt max_size time_out False ws k =
    Some (Returned (Received m (ip_seqno x)), received p rest x k)"
proof -
  note v = port_get_valid [OF p(1)]
  let ?y = "x\<lparr>ip_messages := (ip_messages x)\<lparr>imq_messages := rest\<rparr>, ip_seqno := ip_seqno x + 1\<rparr>"
  have pm: "put_mq (Port_mqueue p) q k = put_port p (x\<lparr>ip_messages := q\<rparr>) k" for q
    using p(1) by (simp add: put_mq_def)
  have "rcv_loop cont self (Port_mqueue p) opt max_size time_out ws k =
      Some (Returned (Got m (ip_seqno x)), put_port p ?y k)"
    using p q m sz v
    by (subst rcv_loop.simps) (simp add: sendable_def pm not_less)
  moreover have "rcv_finish calls max_size m (put_port p ?y k) = Some (received p rest x k)"
  proof (cases "ip_blocked x")
    case Nil
    thus ?thesis using p m sz v by (simp add: rcv_finish_def sendable_def received_def dequeued_def)
  next
    case (Cons s ss)
    hence "k_threads k s \<noteq> None" using b by simp
    hence "wake_all MACH_MSG_SUCCESS [s] (put_port p ((dequeued rest x)\<lparr>ip_blocked := ss\<rparr>) k) =
        Some (woken MACH_MSG_SUCCESS [s] (put_port p ((dequeued rest x)\<lparr>ip_blocked := ss\<rparr>) k))"
      by (intro wake_all_ok) simp
    thus ?thesis using Cons p m sz v
      by (simp add: rcv_finish_def sendable_def received_def dequeued_def del: wake_all.simps)
  qed
  ultimately show ?thesis by (simp add: ipc_mqueue_receive_def)
qed

lemma word_pred_less: "0 < (x :: u32) \<Longrightarrow> x - 1 < x"
  by (auto simp: word_gt_0 word_less_nat_alt unat_minus_one unat_gt_0)

section \<open>A sender and a receiver\<close>

text \<open>A receive by another thread, as what happens while the sender sleeps.\<close>

definition receive_step :: "calls \<Rightarrow> ptr \<Rightarrow> ptr \<Rightarrow> u32 \<Rightarrow> kern \<Rightarrow> kern" where
  "receive_step calls rcv p max_size k =
     (case ipc_mqueue_receive calls False rcv (Port_mqueue p) 0 max_size 0 False [] k of
        Some (_, k') \<Rightarrow> k' | None \<Rightarrow> k)"

lemma blocked_send_ok:
  assumes p: "plain_port kspace k p x" and m: "sendable k p m km"
    and full: "ip_msgcount x = ip_qlimit x" "0 < ip_qlimit x" and nb: "ip_blocked x = []"
    and nso: "MACH_MSGH_BITS_REMOTE (msgh_bits km) \<noteq> MACH_MSG_TYPE_PORT_SEND_ONCE"
    and r: "imq_threads (ip_messages x) = []" and q: "imq_messages (ip_messages x) = m0 # rest"
    and m0: "sendable k p m0 km0" "ikm_marequest km0 = 0" "msgh_size km0 \<le> max_size"
    and t: "k_threads k self = Some t"
  shows "ipc_mqueue_send kspace calls server self m 0 0 [receive_step calls rcv p max_size] k =
    Some (Returned MACH_MSG_SUCCESS,
      put_port p (queued m (dequeued (rest) x)) (received p rest (x\<lparr>ip_blocked := [self]\<rparr>) (asleep self p x t k)))"
proof -
  have x: "port_get k p = Some x" "ip_active x" "ip_receiver x \<noteq> kspace" using p by (simp_all add: plain_port_def)
  note v = port_get_valid [OF x(1)]
  let ?x = "x\<lparr>ip_blocked := [self]\<rparr>"
  let ?k1 = "asleep self p x t k"
  let ?k2 = "received p rest ?x ?k1"
  let ?y = "dequeued rest x"
  have now: "\<not> send_now 0 km x" using full nso by (simp add: send_now_def)
  have x1: "port_get ?k1 p = Some ?x" using v nb by (simp add: asleep_def)
  have m1: "sendable ?k1 p m0 km0" "sendable ?k1 p m km" using m0 m by (simp_all add: sendable_def asleep_def)
  have "ipc_mqueue_receive calls False rcv (Port_mqueue p) 0 max_size 0 False [] ?k1 =
      Some (Returned (Received m0 (ip_seqno ?x)), ?k2)"
    by (rule receive_ok [where km = km0]) (use x1 x full q m0 m1 in \<open>simp_all add: asleep_def\<close>)
  hence w: "receive_step calls rcv p max_size ?k1 = ?k2" by (simp add: receive_step_def)
  have lt: "ip_qlimit x - 1 < ip_qlimit x" using full(2) by (rule word_pred_less)
  have x2: "port_get ?k2 p = Some ?y" using v full lt nb by (simp add: received_def dequeued_def asleep_def)
  have t2: "k_threads ?k2 self = Some (t\<lparr>ith_state := MACH_MSG_SUCCESS\<rparr>)"
    using full lt by (simp add: received_def woken_def asleep_def)
  have m2: "k_kmsgs ?k2 = k_kmsgs k" using full lt by (simp add: received_def asleep_def)
  have now2: "send_now 0 km ?y" using full lt by (simp add: send_now_def dequeued_def)
  have y: "ip_active ?y" using x by (simp add: dequeued_def)
  have "send_wait calls self p m 0 0 [receive_step calls rcv p max_size] k = send_wait calls self p m 0 0 [] ?k2"
    using x m now t w t2 v
    by (subst send_wait.simps) (simp add: sendable_def asleep_def)
  also have "\<dots> = Some (Returned Proceed, ?k2)"
    using x2 y m m2 now2 by (subst send_wait.simps) (simp add: sendable_def)
  finally have sw: "send_wait calls self p m 0 0 [receive_step calls rcv p max_size] k = Some (Returned Proceed, ?k2)" .
  have "send_queue calls p m ?k2 = Some (put_port p (queued m ?y) ?k2)"
    by (rule send_queue_ok [where kspace = kspace and km = km])
      (use x2 y m m2 p r full in \<open>simp_all add: plain_port_def sendable_def dequeued_def word_gt_0\<close>)
  thus ?thesis using x m sw by (simp add: ipc_mqueue_send.simps [of kspace] sendable_def)
qed

end
