(* ===== verification/Ipc_Port.thy ===== *)
theory Ipc_Port
  imports Ipc_Mqueue
begin

text \<open>
  Ports, \<^verbatim>\<open>mach4/kernel/ipc/ipc_port.c\<close> and the macros of \<^verbatim>\<open>ipc_port.h\<close>.
  Where an operation unlocks the port to allocate memory, what other threads do meanwhile is the
  parameter \<open>step\<close>; the result of \<^verbatim>\<open>ip_lock_try\<close>, which another thread may make
  fail, is the parameter \<open>try\<close>.
\<close>

section \<open>Timestamps\<close>

definition ipc_port_timestamp :: "kern \<Rightarrow> u32 \<times> kern" where
  "ipc_port_timestamp k = (k_timestamp k, k\<lparr>k_timestamp := k_timestamp k + 1\<rparr>)"

definition IP_TIMESTAMP_ORDER :: "u32 \<Rightarrow> u32 \<Rightarrow> bool" where
  "IP_TIMESTAMP_ORDER one two \<longleftrightarrow> sint (one - two) < 0"

section \<open>Dead-name requests\<close>

definition ipr_get :: "dn_table \<Rightarrow> nat \<Rightarrow> ipc_port_request option" where
  "ipr_get t i = (if i < length (dn_slots t) then Some (dn_slots t ! i) else None)"

definition ipr_upd :: "nat \<Rightarrow> (ipc_port_request \<Rightarrow> ipc_port_request) \<Rightarrow> dn_table \<Rightarrow> dn_table option" where
  "ipr_upd i f t = (if i < length (dn_slots t) then Some (t\<lparr>dn_slots := (dn_slots t)[i := f (dn_slots t ! i)]\<rparr>) else None)"

definition ipc_port_dnrequest :: "ptr \<Rightarrow> u32 \<Rightarrow> ptr \<Rightarrow> kern \<Rightarrow> (u32 kres \<times> kern) option" where
  "ipc_port_dnrequest port name soright k = do {
     x \<leftarrow> port_get k port;
     oassert (ip_active x);
     oassert (name \<noteq> MACH_PORT_NULL);
     oassert (soright \<noteq> IP_NULL);
     case ip_dnrequests x of
       None \<Rightarrow> Some (Inl KERN_NO_SPACE, k)
     | Some table \<Rightarrow> do {
         head \<leftarrow> ipr_get table 0;
         let index = ipr_next head;
         if index = 0 then Some (Inl KERN_NO_SPACE, k)
         else do {
           ipr \<leftarrow> ipr_get table (unat index);
           oassert (ipr_name ipr = MACH_PORT_NULL);
           table \<leftarrow> ipr_upd 0 (\<lambda>r. r\<lparr>ipr_notify := ipr_next ipr\<rparr>) table;
           table \<leftarrow> ipr_upd (unat index) (\<lambda>r. r\<lparr>ipr_name := name, ipr_notify := soright\<rparr>) table;
           k \<leftarrow> port_upd port (\<lambda>x. x\<lparr>ip_dnrequests := Some table\<rparr>) k;
           Some (Inr index, k) } } }"

text \<open>The new elements of a grown table, chained into the free list.\<close>

fun dn_chain :: "nat \<Rightarrow> nat \<Rightarrow> u32 \<Rightarrow> ipc_port_request list \<Rightarrow> u32 \<times> ipc_port_request list" where
  "dn_chain i 0 free acc = (free, acc)"
| "dn_chain i (Suc n) free acc =
     dn_chain (Suc i) n (of_nat i) (acc @ [\<lparr>ipr_notify = free, ipr_name = MACH_PORT_NULL\<rparr>])"

text \<open>The elements but the first are copied; reading past the old table is \<open>None\<close>.\<close>

definition dn_grown :: "ptr \<Rightarrow> nat \<Rightarrow> nat \<Rightarrow> nat \<Rightarrow> dn_table option \<Rightarrow> dn_table option" where
  "dn_grown addr its osize nsize otable = do {
     (free, old) \<leftarrow> (case otable of
         None \<Rightarrow> Some (0, [])
       | Some t \<Rightarrow> do {
           head \<leftarrow> ipr_get t 0;
           oassert (osize \<le> length (dn_slots t));
           Some (ipr_next head, take (osize - 1) (tl (dn_slots t))) });
     let (free, new) = dn_chain osize (nsize - osize) free [];
     Some \<lparr>dn_addr = addr, ipr_size = its, dn_slots = \<lparr>ipr_notify = free, ipr_name = 0\<rparr> # old @ new\<rparr> }"

text \<open>\<open>step\<close> is what other threads do while the port is unlocked; \<open>ntable\<close> the address
  \<^verbatim>\<open>it_dnrequests_alloc\<close> returns.\<close>

definition ipc_port_dngrow ::
  "u32 list \<Rightarrow> (kern \<Rightarrow> kern) \<Rightarrow> ptr \<Rightarrow> ptr \<Rightarrow> kern \<Rightarrow> (kern_return \<times> kern) option" where
  "ipc_port_dngrow dnsizes step ntable port k = do {
     x \<leftarrow> port_get k port;
     oassert (ip_active x);
     let otable = ip_dnrequests x;
     let its = (case otable of None \<Rightarrow> 0 | Some t \<Rightarrow> ipr_size t + 1);
     its_size \<leftarrow> its_get dnsizes its;
     k \<leftarrow> ip_reference port k;
     if its_size = 0 \<or> ntable = 0 then do {
       k \<leftarrow> ipc_port_release port (step k);
       Some (KERN_RESOURCE_SHORTAGE, k) }
     else do {
       k \<leftarrow> ip_release port (step k);
       y \<leftarrow> port_get k port;
       if ip_active y \<and> map_option dn_addr (ip_dnrequests y) = map_option dn_addr otable \<and>
          (case ip_dnrequests y of None \<Rightarrow> True | Some t \<Rightarrow> ipr_size t + 1 = its)
       then do {
         osize \<leftarrow> (case ip_dnrequests y of None \<Rightarrow> Some 1 | Some t \<Rightarrow> its_get dnsizes (ipr_size t));
         oassert (osize < its_size);
         t \<leftarrow> dn_grown ntable its (unat osize) (unat its_size) (ip_dnrequests y);
         k \<leftarrow> port_upd port (\<lambda>x. x\<lparr>ip_dnrequests := Some t\<rparr>) k;
         Some (KERN_SUCCESS, case ip_dnrequests y of None \<Rightarrow> k
           | Some t \<Rightarrow> log_event (Dnrequests_free (ipr_size t) (dn_addr t)) k) }
       else do {
         k \<leftarrow> ip_check_unlock port k;
         Some (KERN_SUCCESS, log_event (Dnrequests_free its ntable) k) } } }"

definition ipc_port_dncancel :: "ptr \<Rightarrow> u32 \<Rightarrow> u32 \<Rightarrow> kern \<Rightarrow> (ptr \<times> kern) option" where
  "ipc_port_dncancel port name index k = do {
     x \<leftarrow> port_get k port;
     oassert (ip_active x);
     oassert (name \<noteq> MACH_PORT_NULL);
     oassert (index \<noteq> 0);
     table \<leftarrow> ip_dnrequests x;
     ipr \<leftarrow> ipr_get table (unat index);
     let dnrequest = ipr_soright ipr;
     oassert (ipr_name ipr = name);
     head \<leftarrow> ipr_get table 0;
     table \<leftarrow> ipr_upd (unat index) (\<lambda>r. r\<lparr>ipr_name := MACH_PORT_NULL, ipr_notify := ipr_next head\<rparr>) table;
     table \<leftarrow> ipr_upd 0 (\<lambda>r. r\<lparr>ipr_notify := index\<rparr>) table;
     k \<leftarrow> port_upd port (\<lambda>x. x\<lparr>ip_dnrequests := Some table\<rparr>) k;
     Some (dnrequest, k) }"

text \<open>The macro does not check the index. Element 0 holds \<^verbatim>\<open>ipr_size\<close> in place of a
  name, and with index 0 the macro would overwrite it; \<open>dn_table\<close> does not represent a
  damaged size, so the result is then \<open>None\<close>, as for every invalid access.\<close>

definition ipc_port_dnrename :: "ptr \<Rightarrow> u32 \<Rightarrow> u32 \<Rightarrow> u32 \<Rightarrow> kern \<Rightarrow> kern option" where
  "ipc_port_dnrename port index oname nname k = do {
     x \<leftarrow> port_get k port;
     oassert (ip_active x);
     oassert (index \<noteq> 0);
     table \<leftarrow> ip_dnrequests x;
     ipr \<leftarrow> ipr_get table (unat index);
     oassert (ipr_name ipr = oname);
     table \<leftarrow> ipr_upd (unat index) (\<lambda>r. r\<lparr>ipr_name := nname\<rparr>) table;
     port_upd port (\<lambda>x. x\<lparr>ip_dnrequests := Some table\<rparr>) k }"

section \<open>Port-deleted and no-senders requests, queue limit\<close>

definition ipc_port_pdrequest :: "ptr \<Rightarrow> ptr \<Rightarrow> kern \<Rightarrow> (ptr \<times> kern) option" where
  "ipc_port_pdrequest port notify k = do {
     x \<leftarrow> port_get k port;
     oassert (ip_active x);
     k \<leftarrow> port_upd port (\<lambda>x. x\<lparr>ip_pdrequest := notify\<rparr>) k;
     Some (ip_pdrequest x, k) }"

definition ipc_port_nsrequest :: "calls \<Rightarrow> ptr \<Rightarrow> u32 \<Rightarrow> ptr \<Rightarrow> kern \<Rightarrow> (ptr \<times> kern) option" where
  "ipc_port_nsrequest calls port sync notify k = do {
     x \<leftarrow> port_get k port;
     oassert (ip_active x);
     let previous = ip_nsrequest x;
     let mscount = ip_mscount x;
     if ip_srights x = 0 \<and> sync \<le> mscount \<and> notify \<noteq> IP_NULL then do {
       k \<leftarrow> port_upd port (\<lambda>x. x\<lparr>ip_nsrequest := IP_NULL\<rparr>) k;
       Some (previous, call calls (Notify_no_senders notify mscount) k) }
     else do {
       k \<leftarrow> port_upd port (\<lambda>x. x\<lparr>ip_nsrequest := notify\<rparr>) k;
       Some (previous, k) } }"

text \<open>The loop that wakes at most \<open>n\<close> blocked senders; it ends early when the queue is
  empty.\<close>

fun wake_senders :: "nat \<Rightarrow> ptr \<Rightarrow> kern \<Rightarrow> kern option" where
  "wake_senders 0 port k = Some k"
| "wake_senders (Suc n) port k = do {
     x \<leftarrow> port_get k port;
     case ip_blocked x of
       [] \<Rightarrow> Some k
     | th # ths \<Rightarrow> do {
         k \<leftarrow> port_upd port (\<lambda>x. x\<lparr>ip_blocked := ths\<rparr>) k;
         k \<leftarrow> thread_upd th (\<lambda>t. t\<lparr>ith_state := MACH_MSG_SUCCESS\<rparr>) k;
         wake_senders n port (thread_go th k) } }"

definition ipc_port_set_qlimit :: "ptr \<Rightarrow> u32 \<Rightarrow> kern \<Rightarrow> kern option" where
  "ipc_port_set_qlimit port qlimit k = do {
     x \<leftarrow> port_get k port;
     oassert (ip_active x);
     k \<leftarrow> (if ip_qlimit x < qlimit then wake_senders (unat (qlimit - ip_qlimit x)) port k else Some k);
     port_upd port (\<lambda>x. x\<lparr>ip_qlimit := qlimit\<rparr>) k }"

definition ipc_port_set_mscount :: "ptr \<Rightarrow> u32 \<Rightarrow> kern \<Rightarrow> kern option" where
  "ipc_port_set_mscount port mscount k = do {
     x \<leftarrow> port_get k port;
     oassert (ip_active x);
     port_upd port (\<lambda>x. x\<lparr>ip_mscount := mscount\<rparr>) k }"

section \<open>Receivers\<close>

definition ipc_port_lock_mqueue :: "ptr \<Rightarrow> kern \<Rightarrow> (mqueue \<times> kern) option" where
  "ipc_port_lock_mqueue port k = do {
     x \<leftarrow> port_get k port;
     let pset = ip_pset x;
     if pset \<noteq> IPS_NULL then do {
       s \<leftarrow> pset_get k pset;
       if ips_active s then Some (Pset_mqueue pset, k)
       else do {
         k \<leftarrow> ipc_pset_remove pset port k;
         k \<leftarrow> ips_check_unlock pset k;
         Some (Port_mqueue port, k) } }
     else Some (Port_mqueue port, k) }"

definition ipc_port_set_seqno :: "ptr \<Rightarrow> u32 \<Rightarrow> kern \<Rightarrow> kern option" where
  "ipc_port_set_seqno port seqno k = do {
     (mq, k) \<leftarrow> ipc_port_lock_mqueue port k;
     port_upd port (\<lambda>x. x\<lparr>ip_seqno := seqno\<rparr>) k }"

definition ipc_port_clear_receiver :: "ptr \<Rightarrow> kern \<Rightarrow> kern option" where
  "ipc_port_clear_receiver port k = do {
     x \<leftarrow> port_get k port;
     oassert (ip_active x);
     let pset = ip_pset x;
     k \<leftarrow> (if pset \<noteq> IPS_NULL then do {
              k \<leftarrow> ipc_pset_remove pset port k;
              ips_check_unlock pset k }
            else ipc_mqueue_changed (Port_mqueue port) MACH_RCV_PORT_DIED k);
     k \<leftarrow> ipc_port_set_mscount port 0 k;
     port_upd port (\<lambda>x. x\<lparr>ip_seqno := 0\<rparr>) k }"

definition MACH_PORT_QLIMIT_DEFAULT :: u32 where "MACH_PORT_QLIMIT_DEFAULT = 5"

text \<open>\<^verbatim>\<open>ipc_target_init\<close> sets the name and the message queue.\<close>

definition ipc_port_init :: "ptr \<Rightarrow> ptr \<Rightarrow> u32 \<Rightarrow> kern \<Rightarrow> kern option" where
  "ipc_port_init port space name k = port_upd port (\<lambda>x. x\<lparr>
     ip_receiver_name := name, ip_messages := ipc_mqueue_init, ip_cur_target := port,
     ip_data := space, ip_mscount := 0, ip_srights := 0, ip_sorights := 0,
     ip_nsrequest := IP_NULL, ip_pdrequest := IP_NULL, ip_dnrequests := None,
     ip_pset := IPS_NULL, ip_seqno := 0, ip_msgcount := 0,
     ip_qlimit := MACH_PORT_QLIMIT_DEFAULT, ip_blocked := []\<rparr>) k"

section \<open>Circularity\<close>

definition not_in_transit :: "ipc_port \<Rightarrow> bool" where
  "not_in_transit x \<longleftrightarrow>
     \<not> ip_active x \<or> ip_receiver_name x \<noteq> MACH_PORT_NULL \<or> ip_destination x = IP_NULL"

definition in_limbo :: "ipc_port \<Rightarrow> bool" where
  "in_limbo x \<longleftrightarrow> ip_active x \<and> ip_receiver_name x = MACH_PORT_NULL \<and> ip_destination x = IP_NULL"

partial_function (option) chain_base :: "kern \<Rightarrow> ptr \<Rightarrow> ptr option" where
  "chain_base k base = do {
     x \<leftarrow> port_get k base;
     if not_in_transit x then Some base else chain_base k (ip_destination x) }"

text \<open>The two loops that unlock the chain, with their assertions.\<close>

partial_function (option) unlock_circle :: "kern \<Rightarrow> ptr \<Rightarrow> unit option" where
  "unlock_circle k dest =
     (if dest \<noteq> IP_NULL then do {
        x \<leftarrow> port_get k dest;
        oassert (ip_active x);
        oassert (ip_receiver_name x = MACH_PORT_NULL);
        unlock_circle k (ip_destination x) }
      else Some ())"

partial_function (option) unlock_chain :: "kern \<Rightarrow> ptr \<Rightarrow> ptr \<Rightarrow> unit option" where
  "unlock_chain k base port =
     (if port \<noteq> base then do {
        x \<leftarrow> port_get k port;
        oassert (ip_active x);
        oassert (ip_receiver_name x = MACH_PORT_NULL);
        oassert (ip_destination x \<noteq> IP_NULL);
        unlock_chain k base (ip_destination x) }
      else do {
        x \<leftarrow> port_get k base;
        oassert (not_in_transit x) })"

definition ipc_port_check_circularity :: "bool \<Rightarrow> ptr \<Rightarrow> ptr \<Rightarrow> kern \<Rightarrow> (bool \<times> kern) option" where
  "ipc_port_check_circularity try port dest k = do {
     oassert (port \<noteq> IP_NULL);
     oassert (dest \<noteq> IP_NULL);
     if port = dest then Some (True, k)
     else do {
       x \<leftarrow> port_get k port;
       d \<leftarrow> port_get k dest;
       base \<leftarrow> (if try \<and> not_in_transit d then Some dest else chain_base k dest);
       if port = base then do {
         oassert (in_limbo x);
         unlock_circle k dest;
         Some (True, k) }
       else do {
         oassert (in_limbo x);
         k \<leftarrow> ip_reference dest k;
         k \<leftarrow> port_upd port (\<lambda>x. x\<lparr>ip_data := dest\<rparr>) k;
         unlock_chain k base port;
         Some (False, k) } } }"

section \<open>Rights\<close>

definition ipc_port_lookup_notify :: "bool \<Rightarrow> u32 \<Rightarrow> kern \<Rightarrow> (ptr \<times> kern) option" where
  "ipc_port_lookup_notify g name k = do {
     let w = k_world k;
     oassert (is_active (w_space w));
     (entry, space, h) \<leftarrow> ipc_entry_lookup g (w_space w) name (w_heap w);
     let k = k\<lparr>k_world := w\<lparr>w_space := space, w_heap := h\<rparr>\<rparr>;
     if entry = IE_NULL then Some (IP_NULL, k)
     else do {
       bits \<leftarrow> entry_bits space h entry;
       if bits AND MACH_PORT_TYPE_RECEIVE = 0 then Some (IP_NULL, k)
       else do {
         port \<leftarrow> entry_object space h entry;
         x \<leftarrow> port_get k port;
         oassert (ip_active x);
         oassert (ip_receiver_name x = name);
         oassert (ip_receiver x = is_addr space);
         k \<leftarrow> ip_reference port k;
         k \<leftarrow> port_upd port (\<lambda>x. x\<lparr>ip_sorights := ip_sorights x + 1\<rparr>) k;
         Some (port, k) } } }"

definition ipc_port_make_send :: "ptr \<Rightarrow> kern \<Rightarrow> (ptr \<times> kern) option" where
  "ipc_port_make_send port k = do {
     oassert (IP_VALID port);
     x \<leftarrow> port_get k port;
     oassert (ip_active x);
     k \<leftarrow> port_upd port (\<lambda>x. x\<lparr>ip_mscount := ip_mscount x + 1, ip_srights := ip_srights x + 1\<rparr>) k;
     k \<leftarrow> ip_reference port k;
     Some (port, k) }"

definition ipc_port_copy_send :: "ptr \<Rightarrow> kern \<Rightarrow> (ptr \<times> kern) option" where
  "ipc_port_copy_send port k =
     (if \<not> IP_VALID port then Some (port, k)
      else do {
        x \<leftarrow> port_get k port;
        if ip_active x then do {
          oassert (ip_srights x > 0);
          k \<leftarrow> ip_reference port k;
          k \<leftarrow> port_upd port (\<lambda>x. x\<lparr>ip_srights := ip_srights x + 1\<rparr>) k;
          Some (port, k) }
        else Some (IP_DEAD, k) })"

definition ipc_port_release_send :: "calls \<Rightarrow> ptr \<Rightarrow> kern \<Rightarrow> kern option" where
  "ipc_port_release_send calls port k = do {
     oassert (IP_VALID port);
     k \<leftarrow> ip_release port k;
     x \<leftarrow> port_get k port;
     if \<not> ip_active x then ip_check_unlock port k
     else do {
       oassert (ip_srights x > 0);
       k \<leftarrow> port_upd port (\<lambda>x. x\<lparr>ip_srights := ip_srights x - 1\<rparr>) k;
       if ip_srights x - 1 = 0 \<and> ip_nsrequest x \<noteq> IP_NULL then do {
         k \<leftarrow> port_upd port (\<lambda>x. x\<lparr>ip_nsrequest := IP_NULL\<rparr>) k;
         Some (call calls (Notify_no_senders (ip_nsrequest x) (ip_mscount x)) k) }
       else Some k } }"

definition ipc_port_make_sonce :: "ptr \<Rightarrow> kern \<Rightarrow> (ptr \<times> kern) option" where
  "ipc_port_make_sonce port k = do {
     oassert (IP_VALID port);
     x \<leftarrow> port_get k port;
     oassert (ip_active x);
     k \<leftarrow> port_upd port (\<lambda>x. x\<lparr>ip_sorights := ip_sorights x + 1\<rparr>) k;
     k \<leftarrow> ip_reference port k;
     Some (port, k) }"

definition ipc_port_release_sonce :: "ptr \<Rightarrow> kern \<Rightarrow> kern option" where
  "ipc_port_release_sonce port k = do {
     oassert (IP_VALID port);
     x \<leftarrow> port_get k port;
     oassert (ip_sorights x > 0);
     k \<leftarrow> port_upd port (\<lambda>x. x\<lparr>ip_sorights := ip_sorights x - 1\<rparr>) k;
     k \<leftarrow> ip_release port k;
     if \<not> ip_active x then ip_check_unlock port k else Some k }"

definition ipc_port_copyout_receiver :: "ptr \<Rightarrow> ptr \<Rightarrow> kern \<Rightarrow> (u32 \<times> kern) option" where
  "ipc_port_copyout_receiver port space k =
     (if \<not> IP_VALID port then Some (MACH_PORT_NULL, k)
      else do {
        x \<leftarrow> port_get k port;
        name \<leftarrow> (if ip_receiver x = space then do {
                   oassert (MACH_PORT_VALID (ip_receiver_name x));
                   Some (ip_receiver_name x) }
                 else Some MACH_PORT_NULL);
        k \<leftarrow> ip_release port k;
        k \<leftarrow> ip_check_unlock port k;
        Some (name, k) })"

section \<open>Destruction\<close>

text \<open>The low bit of a \<open>pdrequest\<close> marks a send right, that of a \<open>soright\<close> a space.\<close>

definition ip_pdsendp :: "ptr \<Rightarrow> bool" where "ip_pdsendp soright \<longleftrightarrow> soright AND 1 \<noteq> 0"
definition ip_pdsend :: "ptr \<Rightarrow> ptr" where "ip_pdsend soright = soright AND NOT 1"
definition ipr_spacep :: "ptr \<Rightarrow> bool" where "ipr_spacep soright \<longleftrightarrow> soright AND 1 \<noteq> 0"
definition ipr_space :: "ptr \<Rightarrow> ptr" where "ipr_space soright = soright AND NOT 1"
definition ipr_spacem :: "ptr \<Rightarrow> ptr" where "ipr_spacem space = space OR 1"

text \<open>The backup port: \<open>True\<close> when the port has been sent to it, and so is not destroyed.\<close>

definition destroy_backup :: "calls \<Rightarrow> bool \<Rightarrow> ptr \<Rightarrow> ptr \<Rightarrow> kern \<Rightarrow> (bool \<times> kern) option" where
  "destroy_backup calls try port pdrequest k = do {
     k \<leftarrow> port_upd port (\<lambda>x. x\<lparr>ip_pdrequest := IP_NULL, ip_receiver_name := MACH_PORT_NULL, ip_data := IP_NULL\<rparr>) k;
     (sent, k) \<leftarrow>
       (if ip_pdsendp pdrequest then do {
          let sright = ip_pdsend pdrequest;
          (circ, k) \<leftarrow> ipc_port_check_circularity try port sright k;
          if \<not> circ then Some (True, call calls (Notify_port_destroyed_compat sright port) k)
          else do {
            k \<leftarrow> ipc_port_release_send calls sright k;
            Some (False, k) } }
        else do {
          (circ, k) \<leftarrow> ipc_port_check_circularity try port pdrequest k;
          if \<not> circ then Some (True, call calls (Notify_port_destroyed pdrequest port) k)
          else do {
            k \<leftarrow> ipc_port_release_sonce pdrequest k;
            Some (False, k) } });
     if sent then Some (True, k)
     else do {
       x \<leftarrow> port_get k port;
       oassert (ip_active x);
       oassert (ip_pset x = IPS_NULL);
       oassert (ip_mscount x = 0);
       oassert (ip_seqno x = 0);
       oassert (ip_pdrequest x = IP_NULL);
       oassert (ip_receiver_name x = MACH_PORT_NULL);
       oassert (ip_destination x = IP_NULL);
       Some (False, k) } }"

partial_function (option) destroy_messages :: "calls \<Rightarrow> ptr \<Rightarrow> kern \<Rightarrow> kern option" where
  "destroy_messages calls port k = do {
     x \<leftarrow> port_get k port;
     case imq_messages (ip_messages x) of
       [] \<Rightarrow> Some k
     | kmsg # rest \<Rightarrow> do {
         k \<leftarrow> mq_upd (Port_mqueue port) (\<lambda>q. q\<lparr>imq_messages := rest\<rparr>) k;
         m \<leftarrow> k_kmsgs k kmsg;
         oassert (msgh_remote_port m = port);
         k \<leftarrow> ipc_port_release port k;
         k \<leftarrow> kmsg_upd kmsg (\<lambda>m. m\<lparr>msgh_remote_port := MACH_PORT_NULL\<rparr>) k;
         destroy_messages calls port (call calls (Kmsg_destroy kmsg) k) } }"

text \<open>The loop over the table of requests, from \<open>index\<close> up to \<open>size\<close>. Each round reads
  the element of the table at \<open>addr\<close>; the table of a port is that of its field, and any other
  address would be that of a freed table.\<close>

function dead_names :: "calls \<Rightarrow> ptr \<Rightarrow> ptr \<Rightarrow> nat \<Rightarrow> nat \<Rightarrow> kern \<Rightarrow> kern option" where
  "dead_names calls port addr sz index k =
     (if index < sz then do {
        x \<leftarrow> port_get k port;
        dnrequests \<leftarrow> ip_dnrequests x;
        oassert (dn_addr dnrequests = addr);
        ipr \<leftarrow> ipr_get dnrequests index;
        let name = ipr_name ipr;
        if name = MACH_PORT_NULL then dead_names calls port addr sz (Suc index) k
        else do {
          let soright = ipr_soright ipr;
          oassert (soright \<noteq> IP_NULL);
          dead_names calls port addr sz (Suc index)
            (if ipr_spacep soright then call calls (Port_delete_compat port (ipr_space soright) name) k
             else call calls (Notify_dead_name soright name) k) } }
      else Some k)"
  by pat_completeness auto
termination
  by (relation "measure (\<lambda>(calls, port, addr, sz, index, k). sz - index)") auto

declare dead_names.simps [simp del]

definition IKOT_NONE :: u32 where "IKOT_NONE = 0"

text \<open>The part of \<^verbatim>\<open>ipc_port_destroy\<close> after the check for a backup port.
  \<^verbatim>\<open>ipc_target_terminate\<close> has an empty body.\<close>

definition destroy_port :: "calls \<Rightarrow> u32 list \<Rightarrow> ptr \<Rightarrow> kern \<Rightarrow> kern option" where
  "destroy_port calls dnsizes port k = do {
     x \<leftarrow> port_get k port;
     k \<leftarrow> port_upd port (\<lambda>x. x\<lparr>ip_blocked := []\<rparr>) k;
     k \<leftarrow> wake_all MACH_MSG_SUCCESS (ip_blocked x) k;
     let (timestamp, k) = ipc_port_timestamp k;
     k \<leftarrow> port_upd port (\<lambda>x. x\<lparr>ip_bits := ip_bits x AND NOT IO_BITS_ACTIVE, ip_data := timestamp\<rparr>) k;
     x \<leftarrow> port_get k port;
     let k = (if ip_nsrequest x \<noteq> IP_NULL then call calls (Notify_send_once (ip_nsrequest x)) k else k);
     x \<leftarrow> port_get k port;
     oassert (imq_threads (ip_messages x) = []);
     k \<leftarrow> destroy_messages calls port k;
     x \<leftarrow> port_get k port;
     k \<leftarrow> (case ip_dnrequests x of
         None \<Rightarrow> Some k
       | Some t \<Rightarrow> do {
           sz \<leftarrow> its_get dnsizes (ipr_size t);
           k \<leftarrow> dead_names calls port (dn_addr t) (unat sz) 1 k;
           Some (log_event (Dnrequests_free (ipr_size t) (dn_addr t)) k) });
     x \<leftarrow> port_get k port;
     let k = (if io_kotype (ip_bits x) \<noteq> IKOT_NONE then call calls (Kobject_destroy port) k else k);
     ipc_port_release port k }"

definition ipc_port_destroy :: "calls \<Rightarrow> u32 list \<Rightarrow> bool \<Rightarrow> ptr \<Rightarrow> kern \<Rightarrow> kern option" where
  "ipc_port_destroy calls dnsizes try port k = do {
     x \<leftarrow> port_get k port;
     oassert (ip_active x);
     oassert (ip_pset x = IPS_NULL);
     oassert (ip_mscount x = 0);
     oassert (ip_seqno x = 0);
     (sent, k) \<leftarrow> (if ip_pdrequest x \<noteq> IP_NULL then destroy_backup calls try port (ip_pdrequest x) k
                    else Some (False, k));
     if sent then Some k else destroy_port calls dnsizes port k }"

definition ipc_port_release_receive :: "calls \<Rightarrow> u32 list \<Rightarrow> bool \<Rightarrow> ptr \<Rightarrow> kern \<Rightarrow> kern option" where
  "ipc_port_release_receive calls dnsizes try port k = do {
     oassert (IP_VALID port);
     x \<leftarrow> port_get k port;
     oassert (ip_active x);
     oassert (ip_receiver_name x = MACH_PORT_NULL);
     let dest = ip_destination x;
     k \<leftarrow> ipc_port_destroy calls dnsizes try port k;
     if dest \<noteq> IP_NULL then ipc_port_release dest k else Some k }"

section \<open>Special spaces\<close>

text \<open>\<open>port\<close> is the result of \<^verbatim>\<open>io_alloc\<close>, null when there is no memory; \<open>raw\<close> what
  the memory held.\<close>

definition ipc_port_alloc_special :: "ptr \<Rightarrow> ipc_port \<Rightarrow> ptr \<Rightarrow> kern \<Rightarrow> (ptr \<times> kern) option" where
  "ipc_port_alloc_special port raw space k =
     (if port = IP_NULL then Some (IP_NULL, k)
      else do {
        let k = k\<lparr>k_ports := (k_ports k)(port \<mapsto> raw\<lparr>ip_references := 1, ip_bits := io_makebits True IOT_PORT 0\<rparr>)\<rparr>;
        k \<leftarrow> ipc_port_init port space port k;
        Some (port, k) })"

definition ipc_port_dealloc_special :: "calls \<Rightarrow> u32 list \<Rightarrow> bool \<Rightarrow> ptr \<Rightarrow> ptr \<Rightarrow> kern \<Rightarrow> kern option" where
  "ipc_port_dealloc_special calls dnsizes try port space k = do {
     x \<leftarrow> port_get k port;
     oassert (ip_active x);
     oassert (ip_receiver_name x \<noteq> MACH_PORT_NULL);
     oassert (ip_receiver x = space);
     k \<leftarrow> port_upd port (\<lambda>x. x\<lparr>ip_receiver_name := MACH_PORT_NULL, ip_data := IS_NULL\<rparr>) k;
     k \<leftarrow> ipc_port_clear_receiver port k;
     ipc_port_destroy calls dnsizes try port k }"

end
