(* ===== verification/Port_Circular.thy ===== *)
theory Port_Circular
  imports Ipc_Port
begin

text \<open>
  Ports in transit. A receive right that is being sent in a message hangs on the port the message
  is sent to; the relation \<open>transit\<close> has these edges. The check of
  \<^verbatim>\<open>ipc_port_check_circularity\<close> keeps it free of circles, and because it is, the search
  for the end of a chain ends.
\<close>

definition transit :: "kern \<Rightarrow> (ptr \<times> ptr) set" where
  "transit k = {(p, q). \<exists>x. port_get k p = Some x \<and> \<not> not_in_transit x \<and> q = ip_destination x}"

definition transit_ok :: "kern \<Rightarrow> bool" where
  "transit_ok k \<longleftrightarrow> finite (dom (k_ports k)) \<and> acyclic (transit k) \<and>
     (\<forall>(p, q) \<in> transit k. port_get k q \<noteq> None)"

lemma transitI: "port_get k p = Some x \<Longrightarrow> \<not> not_in_transit x \<Longrightarrow> (p, ip_destination x) \<in> transit k"
  by (auto simp: transit_def)

lemma transitE:
  assumes "(p, q) \<in> transit k"
  obtains x where "port_get k p = Some x" "\<not> not_in_transit x" "q = ip_destination x"
  using assms by (auto simp: transit_def)

lemma not_in_transitD:
  "\<not> not_in_transit x \<Longrightarrow> ip_active x"
  "\<not> not_in_transit x \<Longrightarrow> ip_receiver_name x = MACH_PORT_NULL"
  "\<not> not_in_transit x \<Longrightarrow> ip_destination x \<noteq> 0"
  by (simp_all add: not_in_transit_def)

lemma limbo_not_in_transit: "in_limbo x \<Longrightarrow> not_in_transit x"
  by (simp add: in_limbo_def not_in_transit_def)

lemma transit_stop: "port_get k p = Some x \<Longrightarrow> not_in_transit x \<Longrightarrow> (p, q) \<notin> transit k"
  by (auto simp: transit_def)

lemma wf_transit:
  assumes "transit_ok k" shows "wf ((transit k)\<inverse>)"
proof -
  have "transit k \<subseteq> (\<lambda>p. (p, ip_destination (the (k_ports k p)))) ` dom (k_ports k)"
    by (auto simp: transit_def port_get_def image_iff dom_def split: if_splits)
  hence "finite (transit k)" using assms by (meson finite_imageI finite_subset transit_ok_def)
  thus ?thesis using assms by (simp add: finite_acyclic_wf_converse transit_ok_def)
qed

lemma transit_live: "transit_ok k \<Longrightarrow> (p, q) \<in> transit k \<Longrightarrow> port_get k q \<noteq> None"
  by (auto simp: transit_ok_def)

text \<open>A chain has one end.\<close>

lemma chain_end_unique:
  assumes "(p, b) \<in> (transit k)\<^sup>*" "(p, c) \<in> (transit k)\<^sup>*" "\<forall>q. (b, q) \<notin> transit k" "\<forall>q. (c, q) \<notin> transit k"
  shows "b = c"
  using assms
proof (induction rule: converse_rtrancl_induct)
  case base
  thus ?case by (metis converse_rtranclE)
next
  case (step y z)
  have "(z, c) \<in> (transit k)\<^sup>*"
  proof (cases "y = c")
    case True
    thus ?thesis using step by blast
  next
    case False
    then obtain z' where "(y, z') \<in> transit k" "(z', c) \<in> (transit k)\<^sup>*"
      using step.prems(1) by (metis converse_rtranclE)
    thus ?thesis using step.hyps(1) by (auto simp: transit_def)
  qed
  thus ?case using step by blast
qed

lemma chain_base_ok:
  assumes ok: "transit_ok k"
  shows "port_get k p \<noteq> None \<Longrightarrow>
    \<exists>b x. chain_base k p = Some b \<and> (p, b) \<in> (transit k)\<^sup>* \<and> port_get k b = Some x \<and> not_in_transit x"
proof (induction p rule: wf_induct_rule [OF wf_transit [OF ok]])
  case (1 p)
  then obtain x where x: "port_get k p = Some x" by auto
  show ?case
  proof (cases "not_in_transit x")
    case True
    thus ?thesis using x by (auto simp: chain_base.simps [of k p])
  next
    case False
    have e: "(p, ip_destination x) \<in> transit k" by (rule transitI [OF x False])
    then obtain b y where "chain_base k (ip_destination x) = Some b" "(ip_destination x, b) \<in> (transit k)\<^sup>*"
      "port_get k b = Some y" "not_in_transit y"
      using 1(1) [of "ip_destination x"] transit_live [OF ok e] by auto
    thus ?thesis using x False e
      by (auto simp: chain_base.simps [of k p] intro: converse_rtrancl_into_rtrancl)
  qed
qed

lemma unlock_circle_ok:
  assumes "(d, p) \<in> (transit k)\<^sup>*" "port_get k p = Some x" "in_limbo x"
  shows "unlock_circle k d = Some ()"
  using assms
proof (induction rule: converse_rtrancl_induct)
  case base
  thus ?case
    by (simp add: unlock_circle.simps [of k p] unlock_circle.simps [of k 0] port_get_nonnull in_limbo_def)
next
  case (step y z)
  obtain u where "port_get k y = Some u" "\<not> not_in_transit u" "z = ip_destination u"
    using step.hyps(1) by (rule transitE)
  thus ?case using step
    by (simp add: unlock_circle.simps [of k y] port_get_nonnull not_in_transitD)
qed

lemma unlock_chain_ok:
  assumes "(p, b) \<in> (transit k)\<^sup>*" "port_get k b = Some x" "not_in_transit x"
  shows "unlock_chain k b p = Some ()"
  using assms
proof (induction rule: converse_rtrancl_induct)
  case base
  thus ?case by (simp add: unlock_chain.simps [of k b b])
next
  case (step y z)
  obtain u where u: "port_get k y = Some u" "\<not> not_in_transit u" "z = ip_destination u"
    using step.hyps(1) by (rule transitE)
  have "y \<noteq> b" using u step.prems by auto
  thus ?case using step u by (simp add: unlock_chain.simps [of k b y] not_in_transitD)
qed

section \<open>Hanging a port on another\<close>

text \<open>The state after a successful check: a reference for the destination, and the new edge.\<close>

definition hung :: "ptr \<Rightarrow> ptr \<Rightarrow> ipc_port \<Rightarrow> ipc_port \<Rightarrow> kern \<Rightarrow> kern" where
  "hung port dest x d k =
     put_port port (x\<lparr>ip_data := dest\<rparr>) (put_port dest (d\<lparr>ip_references := ip_references d + 1\<rparr>) k)"

lemma transit_hung:
  assumes "port_get k port = Some x" "port_get k dest = Some d" "port \<noteq> dest" "in_limbo x"
  shows "transit (hung port dest x d k) = insert (port, dest) (transit k)"
proof -
  have "IP_VALID port" "IP_VALID dest" "dest \<noteq> 0"
    using assms by (auto dest: port_get_valid port_get_nonnull)
  thus ?thesis using assms
    by (auto simp: transit_def hung_def in_limbo_def not_in_transit_def split: if_splits)
qed

lemma transit_ok_hung:
  assumes ok: "transit_ok k" and x: "port_get k port = Some x" and d: "port_get k dest = Some d"
    and ne: "port \<noteq> dest" and l: "in_limbo x" and free: "(dest, port) \<notin> (transit k)\<^sup>*"
  shows "transit_ok (hung port dest x d k)"
proof -
  note t = transit_hung [OF x d ne l]
  have "IP_VALID port" "IP_VALID dest" using x d by (auto dest: port_get_valid)
  hence live: "port_get k q \<noteq> None \<Longrightarrow> port_get (hung port dest x d k) q \<noteq> None" for q
    by (simp add: hung_def)
  have "finite (dom (k_ports (hung port dest x d k)))"
    using ok by (simp add: transit_ok_def hung_def put_port_def)
  moreover have "acyclic (transit (hung port dest x d k))"
    using ok free by (simp add: t acyclic_insert transit_ok_def)
  moreover have "port_get (hung port dest x d k) q \<noteq> None" if "(p, q) \<in> insert (port, dest) (transit k)" for p q
    using that live d transit_live [OF ok] by blast
  ultimately show ?thesis by (auto simp: transit_ok_def t)
qed

lemma check_circularity_ok:
  assumes ok: "transit_ok k" and x: "port_get k port = Some x" and l: "in_limbo x"
    and d: "port_get k dest = Some d"
  shows "ipc_port_check_circularity try port dest k =
    (if (dest, port) \<in> (transit k)\<^sup>* then Some (True, k) else Some (False, hung port dest x d k))"
proof (cases "port = dest")
  case True
  thus ?thesis using port_get_nonnull [OF d] by (simp add: ipc_port_check_circularity_def)
next
  case ne: False
  obtain b y where b: "chain_base k dest = Some b" "(dest, b) \<in> (transit k)\<^sup>*" "port_get k b = Some y"
    "not_in_transit y" using chain_base_ok [OF ok, of dest] d by auto
  have bq: "(if try \<and> not_in_transit d then Some dest else chain_base k dest) = Some b"
    using b(1) d by (auto simp: chain_base.simps [of k dest])
  have stop: "\<forall>q. (b, q) \<notin> transit k" "\<forall>q. (port, q) \<notin> transit k"
    using b transit_stop x limbo_not_in_transit [OF l] by metis+
  have iff: "(dest, port) \<in> (transit k)\<^sup>* \<longleftrightarrow> b = port"
    using b(2) stop chain_end_unique by blast
  show ?thesis
  proof (cases "b = port")
    case True
    thus ?thesis using ne x d l bq iff unlock_circle_ok [of dest port k x]
      by (simp add: ipc_port_check_circularity_def port_get_nonnull)
  next
    case False
    let ?k = "hung port dest x d k"
    have v: "IP_VALID port" "IP_VALID dest" using x d by (auto dest: port_get_valid)
    have "(port, dest) \<in> transit ?k" "(dest, b) \<in> (transit ?k)\<^sup>*"
      using b(2) by (auto simp: transit_hung [OF x d ne l] elim: rtrancl_mono [THEN subsetD, rotated])
    hence "(port, b) \<in> (transit ?k)\<^sup>*" by (rule converse_rtrancl_into_rtrancl)
    moreover obtain z where "port_get ?k b = Some z" "not_in_transit z"
      using b(3,4) d False v by (cases "b = dest") (auto simp: hung_def not_in_transit_def)
    ultimately have "unlock_chain ?k b port = Some ()" by (rule unlock_chain_ok)
    thus ?thesis using False ne x d l bq iff v
      by (simp add: ipc_port_check_circularity_def port_get_nonnull ip_reference_def hung_def)
  qed
qed

end
