(* ===== verification/Free_List.thy ===== *)
theory Free_List
  imports Mach_Prelude
begin

text \<open>
  Free lists threaded through a table. Both the table of a space and a port's table of dead-name
  requests keep their unused elements on a list of indices that starts in element 0 and ends with
  index 0. \<open>nxt\<close> reads the link of an element, \<open>fre\<close> tells whether it is unused;
  \<open>free_list nxt fre s fs\<close> says that \<open>fs\<close> are the indices on the list of the table
  \<open>s\<close>, in order, and that they are exactly the unused elements other than element 0.
\<close>

fun fl_chain :: "('a \<Rightarrow> u32) \<Rightarrow> ('a \<Rightarrow> bool) \<Rightarrow> 'a list \<Rightarrow> u32 \<Rightarrow> u32 list \<Rightarrow> bool" where
  "fl_chain nxt fre s i [] \<longleftrightarrow> i = 0"
| "fl_chain nxt fre s i (f # fs) \<longleftrightarrow>
     i = f \<and> f \<noteq> 0 \<and> unat f < length s \<and> fre (s ! unat f) \<and> fl_chain nxt fre s (nxt (s ! unat f)) fs"

definition free_list :: "('a \<Rightarrow> u32) \<Rightarrow> ('a \<Rightarrow> bool) \<Rightarrow> 'a list \<Rightarrow> u32 list \<Rightarrow> bool" where
  "free_list nxt fre s fs \<longleftrightarrow> s \<noteq> [] \<and> length s < 2 ^ 32 \<and> distinct fs \<and> fl_chain nxt fre s (nxt (s ! 0)) fs \<and>
     (\<forall>i. 0 < i \<and> i < length s \<and> fre (s ! i) \<longrightarrow> of_nat i \<in> set fs)"

lemma fl_chain_in: "fl_chain nxt fre s i fs \<Longrightarrow> f \<in> set fs \<Longrightarrow> f \<noteq> 0 \<and> unat f < length s \<and> fre (s ! unat f)"
  by (induction fs arbitrary: i) auto

lemma fl_chain_cong:
  assumes "length s = length s'"
    "\<And>f. f \<in> set fs \<Longrightarrow> fre (s' ! unat f) = fre (s ! unat f) \<and> nxt (s' ! unat f) = nxt (s ! unat f)"
  shows "fl_chain nxt fre s' i fs = fl_chain nxt fre s i fs"
  using assms by (induction fs arbitrary: i) auto

lemma fl_chain_upd: "\<forall>f\<in>set fs. unat f \<noteq> j \<Longrightarrow> fl_chain nxt fre (s[j := r]) i fs = fl_chain nxt fre s i fs"
  by (rule fl_chain_cong) auto

lemma free_list_empty: "free_list nxt fre s fs \<Longrightarrow> nxt (s ! 0) = 0 \<longleftrightarrow> fs = []"
  by (cases fs) (auto simp: free_list_def)

lemma free_list_first: "free_list nxt fre s (f # fs) \<Longrightarrow>
   nxt (s ! 0) = f \<and> f \<noteq> 0 \<and> unat f < length s \<and> fre (s ! unat f)"
  by (simp add: free_list_def)

lemma free_list_in: "free_list nxt fre s fs \<Longrightarrow> f \<in> set fs \<Longrightarrow> f \<noteq> 0 \<and> unat f < length s \<and> fre (s ! unat f)"
  by (auto simp: free_list_def dest: fl_chain_in)

lemma free_list_mem:
  assumes "free_list nxt fre s fs" "0 < i" "i < length s"
  shows "of_nat i \<in> set fs \<longleftrightarrow> fre (s ! i)"
proof
  assume "of_nat i \<in> set fs"
  hence "fre (s ! unat (of_nat i :: u32))" using free_list_in [OF assms(1)] by blast
  moreover have "unat (of_nat i :: u32) = i" using assms by (simp add: unat_of_nat32 free_list_def)
  ultimately show "fre (s ! i)" by simp
qed (use assms in \<open>auto simp: free_list_def\<close>)

text \<open>Taking the first element off the list.\<close>

lemma free_list_pop:
  assumes l: "free_list nxt fre s (f # fs)" and r0: "nxt r0 = nxt (s ! unat f)" and r: "\<not> fre r"
  shows "free_list nxt fre (s[0 := r0, unat f := r]) fs"
proof -
  have f: "f \<noteq> 0" "unat f < length s" "f \<notin> set fs" using l by (auto simp: free_list_def)
  have u: "unat f \<noteq> 0" using f(1) by (simp add: unat_eq_zero)
  have nz: "\<forall>g\<in>set fs. unat g \<noteq> 0"
    using l by (auto simp: free_list_def dest!: fl_chain_in simp: unat_eq_zero)
  have nf: "\<forall>g\<in>set fs. unat g \<noteq> unat f" using f(3) by (metis word_unat_eq_iff)
  have "fl_chain nxt fre (s[0 := r0, unat f := r]) (nxt (s ! unat f)) fs"
    using l nz nf by (simp add: free_list_def fl_chain_upd)
  moreover have "of_nat i \<in> set fs"
    if "0 < i" "i < length s" "fre (s[0 := r0, unat f := r] ! i)" for i
  proof -
    have "i \<noteq> unat f" using that r f by auto
    hence "fre (s ! i)" using that by simp
    hence "of_nat i \<in> set (f # fs)" using l that(1,2) unfolding free_list_def by blast
    moreover have "i < 2 ^ 32" using l that(2) by (simp add: free_list_def)
    hence "(of_nat i :: u32) \<noteq> f" using \<open>i \<noteq> unat f\<close> by (metis unat_of_nat32)
    ultimately show ?thesis by simp
  qed
  ultimately show ?thesis using l f u r0 by (simp add: free_list_def)
qed

text \<open>Putting an element at the front.\<close>

lemma free_list_push:
  assumes l: "free_list nxt fre s fs" and i: "0 < i" "i < length s" "\<not> fre (s ! i)"
    and r0: "nxt r0 = of_nat i" and r: "nxt r = nxt (s ! 0)" "fre r"
  shows "free_list nxt fre (s[i := r, 0 := r0]) (of_nat i # fs)"
proof -
  have ui: "unat (of_nat i :: u32) = i" using l i by (simp add: unat_of_nat32 free_list_def)
  have ni: "(of_nat i :: u32) \<notin> set fs" using free_list_mem [OF l i(1,2)] i(3) by simp
  have nf: "\<forall>g\<in>set fs. unat g \<noteq> i" using ni ui by (metis word_unat_eq_iff)
  have nz: "\<forall>g\<in>set fs. unat g \<noteq> 0"
    using l by (auto simp: free_list_def dest!: fl_chain_in simp: unat_eq_zero)
  have n0: "(of_nat i :: u32) \<noteq> 0" using ui i by auto
  have "fl_chain nxt fre (s[i := r, 0 := r0]) (nxt (s ! 0)) fs"
    using l nf nz by (simp add: free_list_def fl_chain_upd)
  moreover have "of_nat j \<in> set (of_nat i # fs)"
    if "0 < j" "j < length s" "fre (s[i := r, 0 := r0] ! j)" for j
    using that l by (cases "j = i") (auto simp: free_list_def)
  hence "\<forall>j. 0 < j \<and> j < length s \<and> fre (s[i := r, 0 := r0] ! j) \<longrightarrow> of_nat j \<in> set (of_nat i # fs)"
    by blast
  ultimately show ?thesis using l i ui n0 ni r0 r by (simp add: free_list_def)
qed

text \<open>Changing an element without touching its link and its state, or one that is in use.\<close>

lemma free_list_frame:
  assumes l: "free_list nxt fre s fs" and r: "nxt r = nxt (s ! j)" "fre r = fre (s ! j)"
  shows "free_list nxt fre (s[j := r]) fs"
proof (cases "j < length s")
  case True
  have "fl_chain nxt fre (s[j := r]) i fs = fl_chain nxt fre s i fs" for i
    by (rule fl_chain_cong) (use r True in \<open>auto simp: nth_list_update\<close>)
  thus ?thesis using l r True by (auto simp: free_list_def nth_list_update)
qed (use l in \<open>simp add: list_update_beyond\<close>)

lemma free_list_used:
  assumes l: "free_list nxt fre s fs" and j: "0 < j" "\<not> fre (s ! j)" "\<not> fre r"
  shows "free_list nxt fre (s[j := r]) fs"
proof (cases "j < length s")
  case True
  have "\<forall>f\<in>set fs. unat f \<noteq> j" using free_list_in [OF l] j by blast
  thus ?thesis using l j True by (auto simp: free_list_def fl_chain_upd nth_list_update)
qed (use l in \<open>simp add: list_update_beyond\<close>)

text \<open>Element 0 may change its link only together with the list.\<close>

lemma free_list_head:
  assumes l: "free_list nxt fre s fs" and r: "nxt r = nxt (s ! 0)"
  shows "free_list nxt fre (s[0 := r]) fs"
proof -
  have "\<forall>f\<in>set fs. unat f \<noteq> 0"
    using l by (auto simp: free_list_def dest!: fl_chain_in simp: unat_eq_zero)
  thus ?thesis using l r by (simp add: free_list_def fl_chain_upd nth_list_update)
qed

text \<open>Appending unused elements in front of the list: the new part of a grown table.\<close>

lemma fl_chain_append_slots: "fl_chain nxt fre s i fs \<Longrightarrow> fl_chain nxt fre (s @ t) i fs"
  by (induction fs arbitrary: i) (auto simp: nth_append)

lemma fl_chain_run:
  assumes "fl_chain nxt fre s free fs" "j \<le> n" "n \<le> length s" "length s < 2 ^ 32" "0 < j"
    "\<forall>i. j \<le> i \<and> i < n \<longrightarrow> fre (s ! i) \<and> nxt (s ! i) = (if i = j then free else of_nat (i - 1))"
  shows "fl_chain nxt fre s (if n = j then free else of_nat (n - 1)) (map of_nat (rev [j..<n]) @ fs)"
  using assms(2,3,6)
proof (induction n)
  case 0
  thus ?case using assms by simp
next
  case (Suc n)
  show ?case
  proof (cases "Suc n = j")
    case True
    thus ?thesis using assms(1) by simp
  next
    case False
    hence jn: "j \<le> n" using Suc.prems by simp
    have un: "unat (of_nat n :: u32) = n" using Suc.prems assms(4) by (simp add: unat_of_nat32)
    have "(of_nat n :: u32) \<noteq> 0" using un jn assms(5) by auto
    moreover have "fl_chain nxt fre s (if n = j then free else of_nat (n - 1)) (map of_nat (rev [j..<n]) @ fs)"
      using Suc jn by simp
    ultimately show ?thesis using Suc.prems jn un by simp
  qed
qed

lemma free_list_grow:
  assumes l: "free_list nxt fre s fs" and r0: "nxt r0 = (if new = [] then nxt (s ! 0) else of_nat (length s + length new - 1))"
    and len: "length s + length new < 2 ^ 32"
    and new: "\<forall>i < length new. fre (new ! i) \<and> nxt (new ! i) = (if i = 0 then nxt (s ! 0) else of_nat (length s + i - 1))"
  shows "free_list nxt fre (r0 # tl s @ new) (map of_nat (rev [length s..<length s + length new]) @ fs)"
proof -
  let ?s = "r0 # tl s @ new"
  let ?n = "length s + length new"
  have s: "s \<noteq> []" using l by (simp add: free_list_def)
  have ls: "length ?s = ?n" using s by (cases s) auto
  have nz: "\<forall>g\<in>set fs. unat g \<noteq> 0"
    using l by (auto simp: free_list_def dest!: fl_chain_in simp: unat_eq_zero)
  have eq: "?s = (s @ new)[0 := r0]" using s by (cases s) auto
  have old: "fl_chain nxt fre ?s (nxt (s ! 0)) fs"
    using l nz by (simp add: eq fl_chain_upd free_list_def fl_chain_append_slots)
  have el: "?s ! i = new ! (i - length s)" if "length s \<le> i" "i < ?n" for i
    using that s by (cases s) (auto simp: nth_append nth_Cons')
  have "fl_chain nxt fre ?s (if ?n = length s then nxt (s ! 0) else of_nat (?n - 1))
      (map of_nat (rev [length s..<?n]) @ fs)"
  proof (rule fl_chain_run [OF old])
    show "\<forall>i. length s \<le> i \<and> i < ?n \<longrightarrow>
      fre (?s ! i) \<and> nxt (?s ! i) = (if i = length s then nxt (s ! 0) else of_nat (i - 1))"
    proof (intro allI impI)
      fix i assume i: "length s \<le> i \<and> i < ?n"
      hence "i - length s < length new" by auto
      thus "fre (?s ! i) \<and> nxt (?s ! i) = (if i = length s then nxt (s ! 0) else of_nat (i - 1))"
        using new i el [of i] by auto
    qed
    show "?n \<le> length ?s" "length ?s < 2 ^ 32" unfolding ls using len by simp_all
  qed (use s in auto)
  moreover have "\<forall>i. 0 < i \<and> i < ?n \<and> fre (?s ! i) \<longrightarrow> of_nat i \<in> set (map of_nat (rev [length s..<?n]) @ fs)"
  proof (intro allI impI, elim conjE)
    fix i assume that: "0 < i" "i < ?n" "fre (?s ! i)"
    show "of_nat i \<in> set (map of_nat (rev [length s..<?n]) @ fs)"
    proof (cases "i < length s")
      case True
      hence "?s ! i = s ! i" using that s by (cases s) (auto simp: nth_append nth_Cons')
      thus ?thesis using l that True by (auto simp: free_list_def)
    qed (use that in auto)
  qed
  moreover have "distinct (map (of_nat :: nat \<Rightarrow> u32) (rev [length s..<?n]) @ fs)"
  proof -
    have "inj_on (of_nat :: nat \<Rightarrow> u32) {length s..<?n}"
      by (rule inj_onI) (metis atLeastLessThan_iff len less_trans unat_of_nat32)
    moreover have "(of_nat i :: u32) \<notin> set fs" if "length s \<le> i" "i < ?n" for i
      using free_list_in [OF l, of "of_nat i"] that len by (auto simp: unat_of_nat32)
    ultimately show ?thesis using l by (auto simp: free_list_def distinct_map)
  qed
  ultimately show ?thesis
    unfolding free_list_def ls using len r0 by (cases "new = []") (simp_all del: set_append set_map set_rev nth_Cons_Suc append_is_Nil_conv add: nth_Cons')
qed

end
