(* ===== verification/Port_Requests.thy ===== *)
theory Port_Requests
  imports Ipc_Port Free_List
begin

text \<open>
  Dead-name requests. A port's table of requests is a finite map from indices to pairs of a name
  and a send-once right; the rest of the table is its free list. Registering, cancelling and
  growing are shown on the table first and then on the port.
\<close>

abbreviation (input) ipr_unused :: "ipc_port_request \<Rightarrow> bool" where
  "ipr_unused r \<equiv> ipr_name r = MACH_PORT_NULL"

definition dn_inv :: "dn_table \<Rightarrow> u32 list \<Rightarrow> bool" where
  "dn_inv t fs \<longleftrightarrow> free_list ipr_notify ipr_unused (dn_slots t) fs"

definition dn_map :: "dn_table \<Rightarrow> u32 \<Rightarrow> (u32 \<times> ptr) option" where
  "dn_map t i = (if i \<noteq> 0 \<and> unat i < length (dn_slots t) \<and> \<not> ipr_unused (dn_slots t ! unat i)
     then Some (ipr_name (dn_slots t ! unat i), ipr_soright (dn_slots t ! unat i)) else None)"

lemma dn_invD: "dn_inv t fs \<Longrightarrow> dn_slots t \<noteq> [] \<and> length (dn_slots t) < 2 ^ 32"
  by (simp add: dn_inv_def free_list_def)

lemma dn_first: "dn_inv t (f # fs) \<Longrightarrow> ipr_notify (dn_slots t ! 0) = f \<and> f \<noteq> 0 \<and>
   unat f < length (dn_slots t) \<and> ipr_unused (dn_slots t ! unat f) \<and> 0 < unat f"
  unfolding dn_inv_def by (drule free_list_first) (auto simp: unat_gt_0)

lemma ipr_get_Some [simp]: "i < length (dn_slots t) \<Longrightarrow> ipr_get t i = Some (dn_slots t ! i)"
  by (simp add: ipr_get_def)

lemma ipr_upd_Some [simp]:
  "i < length (dn_slots t) \<Longrightarrow> ipr_upd i f t = Some (t\<lparr>dn_slots := (dn_slots t)[i := f (dn_slots t ! i)]\<rparr>)"
  by (simp add: ipr_upd_def)

text \<open>The table after a request and after a cancellation.\<close>

definition requested :: "u32 \<Rightarrow> u32 \<Rightarrow> ptr \<Rightarrow> dn_table \<Rightarrow> dn_table" where
  "requested f name soright t = (let s = dn_slots t in
     t\<lparr>dn_slots := s[0 := (s ! 0)\<lparr>ipr_notify := ipr_notify (s ! unat f)\<rparr>,
                     unat f := (s ! unat f)\<lparr>ipr_name := name, ipr_notify := soright\<rparr>]\<rparr>)"

definition cancelled :: "u32 \<Rightarrow> dn_table \<Rightarrow> dn_table" where
  "cancelled f t = (let s = dn_slots t in
     t\<lparr>dn_slots := s[unat f := (s ! unat f)\<lparr>ipr_name := MACH_PORT_NULL, ipr_notify := ipr_notify (s ! 0)\<rparr>,
                     0 := (s ! 0)\<lparr>ipr_notify := f\<rparr>]\<rparr>)"

lemma requested_ok:
  assumes "dn_inv t (f # fs)" "name \<noteq> MACH_PORT_NULL"
  shows "dn_inv (requested f name soright t) fs"
  using free_list_pop [where f = f and fs = fs and s = "dn_slots t"] assms
  by (simp add: dn_inv_def requested_def Let_def)

lemma requested_map:
  assumes "dn_inv t (f # fs)" "name \<noteq> MACH_PORT_NULL"
  shows "dn_map (requested f name soright t) = (dn_map t)(f \<mapsto> (name, soright))" "dn_map t f = None"
proof -
  have f: "f \<noteq> 0" "unat f < length (dn_slots t)" "ipr_unused (dn_slots t ! unat f)"
    using dn_first [OF assms(1)] by auto
  thus "dn_map t f = None" by (simp add: dn_map_def)
  show "dn_map (requested f name soright t) = (dn_map t)(f \<mapsto> (name, soright))"
    using f assms(2) by (auto simp: dn_map_def requested_def Let_def fun_eq_iff nth_list_update unat_eq_zero
        word_unat_eq_iff [symmetric] split: if_splits)
qed

lemma cancelled_ok:
  assumes "dn_inv t fs" "dn_map t f = Some r"
  shows "dn_inv (cancelled f t) (f # fs)" "dn_map (cancelled f t) = (dn_map t)(f := None)"
proof -
  have f: "f \<noteq> 0" "unat f < length (dn_slots t)" "\<not> ipr_unused (dn_slots t ! unat f)"
    using assms(2) by (auto simp: dn_map_def split: if_splits)
  have u: "0 < unat f" using f(1) by (simp add: unat_gt_0)
  show "dn_inv (cancelled f t) (f # fs)"
    using free_list_push [of ipr_notify ipr_unused "dn_slots t" fs "unat f"] assms(1) f u
    by (simp add: dn_inv_def cancelled_def Let_def)
  show "dn_map (cancelled f t) = (dn_map t)(f := None)"
    using f u by (auto simp: dn_map_def cancelled_def Let_def fun_eq_iff nth_list_update unat_eq_zero
        word_unat_eq_iff [symmetric] split: if_splits)
qed

section \<open>Growing\<close>

lemma dn_chain_eq:
  "dn_chain i n free acc =
     (if n = 0 then free else of_nat (i + n - 1),
      acc @ map (\<lambda>j. \<lparr>ipr_notify = if j = 0 then free else of_nat (i + j - 1), ipr_name = MACH_PORT_NULL\<rparr>) [0..<n])"
proof (induction n arbitrary: i free acc)
  case (Suc n)
  have "[0..<Suc n] = 0 # map Suc [0..<n]" by (simp add: map_Suc_upt upt_conv_Cons)
  thus ?case using Suc by (auto simp: comp_def)
qed simp

lemma dn_map_grow:
  assumes "dn_slots t \<noteq> []" "\<forall>r\<in>set new. ipr_unused r"
    "dn_slots t' = r0 # tl (dn_slots t) @ new"
  shows "dn_map t' = dn_map t"
proof
  fix i
  show "dn_map t' i = dn_map t i"
  proof (cases "i = 0 \<or> unat i < length (dn_slots t)")
    case True
    moreover have "i = 0 \<or> (\<exists>m. unat i = Suc m)" using unat_gt_0 [of i] gr0_conv_Suc by blast
    ultimately show ?thesis using assms by (cases "dn_slots t") (auto simp: dn_map_def nth_append)
  next
    case False
    have "dn_slots t' ! unat i = new ! (unat i - length (dn_slots t))" if "unat i < length (dn_slots t')"
      using assms False that by (cases "dn_slots t") (auto simp: nth_append nth_Cons')
    moreover have "new ! (unat i - length (dn_slots t)) \<in> set new" if "unat i < length (dn_slots t')"
      by (rule nth_mem) (use assms False that in \<open>cases "dn_slots t"; auto\<close>)
    ultimately show ?thesis using assms(2) False by (auto simp: dn_map_def)
  qed
qed

lemma dn_grown_ok:
  assumes t: "dn_inv t fs" and o: "length (dn_slots t) \<le> nsize" "nsize < 2 ^ 32"
  obtains t' where "dn_grown addr its (length (dn_slots t)) nsize (Some t) = Some t'" "dn_addr t' = addr" "ipr_size t' = its"
    "dn_inv t' (map of_nat (rev [length (dn_slots t)..<nsize]) @ fs)" "dn_map t' = dn_map t" "length (dn_slots t') = nsize"
proof -
  let ?n = "length (dn_slots t)"
  let ?s = "dn_slots t"
  let ?new = "map (\<lambda>j. \<lparr>ipr_notify = if j = 0 then ipr_notify (?s ! 0) else of_nat (?n + j - 1),
                       ipr_name = MACH_PORT_NULL\<rparr>) [0..<nsize - ?n]"
  let ?r0 = "\<lparr>ipr_notify = (if nsize - ?n = 0 then ipr_notify (?s ! 0) else of_nat (?n + (nsize - ?n) - 1)), ipr_name = 0\<rparr>"
  let ?t = "\<lparr>dn_addr = addr, ipr_size = its, dn_slots = ?r0 # tl ?s @ ?new\<rparr>"
  have s: "?s \<noteq> []" using dn_invD [OF t] by simp
  have "dn_grown addr its ?n nsize (Some t) = Some ?t"
    using s o by (simp add: dn_grown_def dn_chain_eq)
  moreover have "free_list ipr_notify ipr_unused (?r0 # tl ?s @ ?new) (map of_nat (rev [?n..<?n + length ?new]) @ fs)"
    by (rule free_list_grow) (use t o in \<open>auto simp: dn_inv_def\<close>)
  hence "dn_inv ?t (map of_nat (rev [?n..<nsize]) @ fs)" using o unfolding dn_inv_def by simp
  moreover have "dn_map ?t = dn_map t" by (rule dn_map_grow [OF s]) auto
  moreover have "length (dn_slots ?t) = nsize" using s o by (cases ?s) auto
  ultimately show ?thesis using that by force
qed

text \<open>A first table.\<close>

definition no_requests :: dn_table where
  "no_requests = \<lparr>dn_addr = 0, ipr_size = 0, dn_slots = [\<lparr>ipr_notify = 0, ipr_name = 0\<rparr>]\<rparr>"

lemma no_requests: "dn_inv no_requests []" "dn_map no_requests = Map.empty" "length (dn_slots no_requests) = 1"
  by (auto simp: no_requests_def dn_inv_def free_list_def dn_map_def fun_eq_iff unat_eq_zero)

lemma dn_grown_first: "dn_grown addr its 1 nsize None = dn_grown addr its 1 nsize (Some no_requests)"
  by (simp add: dn_grown_def no_requests_def)

section \<open>On the port\<close>

lemma dnrequest_eq:
  assumes x: "port_get k p = Some x" "ip_active x" and t: "ip_dnrequests x = Some t" "dn_inv t fs"
    and n: "name \<noteq> MACH_PORT_NULL" "soright \<noteq> 0"
  shows "ipc_port_dnrequest p name soright k =
    (case fs of [] \<Rightarrow> Some (Inl KERN_NO_SPACE, k)
     | f # _ \<Rightarrow> Some (Inr f, put_port p (x\<lparr>ip_dnrequests := Some (requested f name soright t)\<rparr>) k))"
proof -
  note s = dn_invD [OF t(2)]
  show ?thesis
  proof (cases fs)
    case Nil
    thus ?thesis using x t n s free_list_empty [of ipr_notify ipr_unused "dn_slots t" fs]
      by (simp add: ipc_port_dnrequest_def dn_inv_def)
  next
    case (Cons f fs')
    show ?thesis using dn_first [OF t(2) [unfolded Cons]] Cons x t n s
      by (simp add: ipc_port_dnrequest_def requested_def Let_def)
  qed
qed

lemma dncancel_eq:
  assumes x: "port_get k p = Some x" "ip_active x" and t: "ip_dnrequests x = Some t" "dn_inv t fs"
    and f: "dn_map t f = Some (name, soright)"
  shows "ipc_port_dncancel p name f k =
    Some (soright, put_port p (x\<lparr>ip_dnrequests := Some (cancelled f t)\<rparr>) k)"
proof -
  have "f \<noteq> 0" "unat f < length (dn_slots t)" "ipr_name (dn_slots t ! unat f) = name"
    "ipr_soright (dn_slots t ! unat f) = soright" "name \<noteq> MACH_PORT_NULL"
    using f by (auto simp: dn_map_def split: if_splits)
  moreover have "unat f \<noteq> 0" using \<open>f \<noteq> 0\<close> by (simp add: unat_eq_zero)
  ultimately show ?thesis using x t dn_invD [OF t(2)]
    by (simp add: ipc_port_dncancel_def cancelled_def Let_def)
qed

lemma dngrow_ok:
  assumes x: "port_get k p = Some x" "ip_active x" and st: "\<forall>k. port_get (step k) p = port_get k p"
    and t: "t = (case ip_dnrequests x of None \<Rightarrow> no_requests | Some t \<Rightarrow> t)" "dn_inv t fs"
    and its: "its = (case ip_dnrequests x of None \<Rightarrow> 0 | Some t \<Rightarrow> ipr_size t + 1)"
      "its_get dnsizes its = Some sz" "length (dn_slots t) < unat sz"
    and o: "case ip_dnrequests x of None \<Rightarrow> True | Some t \<Rightarrow> its_get dnsizes (ipr_size t) = Some (of_nat (length (dn_slots t)))"
    and n: "ntable \<noteq> 0"
  shows "\<exists>k' t'. ipc_port_dngrow dnsizes step ntable p k = Some (KERN_SUCCESS, k') \<and>
    port_get k' p = Some (x\<lparr>ip_dnrequests := Some t'\<rparr>) \<and> dn_map t' = dn_map t \<and>
    length (dn_slots t') = unat sz \<and> ipr_size t' = its \<and>
    dn_inv t' (map of_nat (rev [length (dn_slots t)..<unat sz]) @ fs)"
proof -
  note v = port_get_valid [OF x(1)]
  let ?n = "length (dn_slots t)"
  have n32: "?n < 2 ^ 32" using dn_invD [OF t(2)] by simp
  have sz: "sz \<noteq> 0" "of_nat ?n < sz" using its(3) n32 by (auto simp: word_less_nat_alt unat_of_nat32)
  obtain t' where t': "dn_grown ntable its ?n (unat sz) (Some t) = Some t'" "ipr_size t' = its"
    "dn_inv t' (map of_nat (rev [?n..<unat sz]) @ fs)" "dn_map t' = dn_map t" "length (dn_slots t') = unat sz"
    using dn_grown_ok [OF t(2), of "unat sz" ntable its] its(3) unat_lt32 [of sz] by auto
  let ?k = "step (put_port p (x\<lparr>ip_references := ip_references x + 1\<rparr>) k)"
  let ?k2 = "put_port p (x\<lparr>ip_dnrequests := Some t'\<rparr>) ?k"
  have k: "port_get ?k p = Some (x\<lparr>ip_references := ip_references x + 1\<rparr>)" using st v by simp
  have "\<exists>k'. ipc_port_dngrow dnsizes step ntable p k = Some (KERN_SUCCESS, k') \<and> port_get k' p = port_get ?k2 p"
  proof (cases "ip_dnrequests x")
    case None
    hence "its = 0" "?n = 1" "t = no_requests" using its(1) t(1) by (simp_all add: no_requests(3))
    thus ?thesis using None x v k n sz its(2) t'(1)
      by (simp add: ipc_port_dngrow_def ip_reference_def ip_release_def dn_grown_first [simplified])
  next
    case (Some u)
    hence "its = Suc (ipr_size u)" "t = u" using its(1) t(1) by simp_all
    thus ?thesis using Some x v k n n32 sz its(2) o t'(1)
      by (simp add: ipc_port_dngrow_def ip_reference_def ip_release_def unat_of_nat32)
  qed
  thus ?thesis using t' v by auto
qed

end
