(* ===== verification/Port_Rights.thy ===== *)
theory Port_Rights
  imports Port_Circular Port_Requests
begin

text \<open>
  Naked rights. The counts a port keeps of its send rights, its send-once rights and its references
  agree with the rights outstanding, over any sequence of operations; when the last send right goes,
  the no-senders request fires once.

  The only call that leaves the model here is the no-senders notification, a message to the port
  \<open>n\<close> registered for it. It is assumed not to change the port \<open>p\<close> whose senders are gone
  (\<open>quiet calls n p\<close>), which holds of a message to another port; nothing is assumed of the
  notification of other ports.
\<close>

definition quiet :: "calls \<Rightarrow> ptr \<Rightarrow> ptr \<Rightarrow> bool" where
  "quiet calls n p \<longleftrightarrow> (\<forall>mscount k. port_get (calls (Notify_no_senders n mscount) k) p = port_get k p)"

lemma quiet_call: "quiet calls n p \<Longrightarrow> port_get (call calls (Notify_no_senders n mscount) k) p = port_get k p"
  by (simp add: quiet_def call_def)

text \<open>The registered request of the port, if there is one, is such a port.\<close>

definition ns_quiet :: "calls \<Rightarrow> ptr \<Rightarrow> kern \<Rightarrow> bool" where
  "ns_quiet calls p k \<longleftrightarrow> (\<forall>x. port_get k p = Some x \<and> ip_nsrequest x \<noteq> 0 \<longrightarrow> quiet calls (ip_nsrequest x) p)"

lemma ns_quiet_step:
  assumes "ns_quiet calls p k" "port_get k p = Some x" "port_get k' p = Some y"
    "ip_nsrequest y = ip_nsrequest x \<or> ip_nsrequest y = 0"
  shows "ns_quiet calls p k'"
  using assms by (auto simp: ns_quiet_def)

section \<open>Counting rights\<close>

text \<open>\<open>s\<close> send rights, \<open>so\<close> send-once rights and \<open>r\<close> other references exist for the
  active port \<open>p\<close>.\<close>

definition rights_inv :: "ptr \<Rightarrow> nat \<Rightarrow> nat \<Rightarrow> nat \<Rightarrow> kern \<Rightarrow> bool" where
  "rights_inv p s so r k \<longleftrightarrow> (\<exists>x. port_get k p = Some x \<and> ip_active x \<and>
     unat (ip_references x) = s + so + r \<and> unat (ip_srights x) = s \<and> unat (ip_sorights x) = so)"

datatype right_op = Make_send | Copy_send | Release_send | Make_sonce | Release_sonce

fun perform :: "calls \<Rightarrow> ptr \<Rightarrow> right_op \<Rightarrow> kern \<Rightarrow> kern option" where
  "perform calls p Make_send k = map_option snd (ipc_port_make_send p k)"
| "perform calls p Copy_send k = map_option snd (ipc_port_copy_send p k)"
| "perform calls p Release_send k = ipc_port_release_send calls p k"
| "perform calls p Make_sonce k = map_option snd (ipc_port_make_sonce p k)"
| "perform calls p Release_sonce k = ipc_port_release_sonce p k"

fun performs :: "calls \<Rightarrow> ptr \<Rightarrow> right_op list \<Rightarrow> kern \<Rightarrow> kern option" where
  "performs calls p [] k = Some k"
| "performs calls p (opn # ops) k = do { k \<leftarrow> perform calls p opn k; performs calls p ops k }"

text \<open>What an operation does to the number of rights; it may only use a right that exists.\<close>

inductive right_step :: "right_op \<Rightarrow> nat \<times> nat \<Rightarrow> nat \<times> nat \<Rightarrow> bool" where
  "right_step Make_send (s, so) (Suc s, so)"
| "right_step Copy_send (Suc s, so) (Suc (Suc s), so)"
| "right_step Release_send (Suc s, so) (s, so)"
| "right_step Make_sonce (s, so) (s, Suc so)"
| "right_step Release_sonce (s, Suc so) (s, so)"

inductive right_steps :: "right_op list \<Rightarrow> nat \<times> nat \<Rightarrow> nat \<times> nat \<Rightarrow> bool" where
  right_steps_Nil: "right_steps [] c c"
| right_steps_Cons: "right_step opn c c' \<Longrightarrow> right_steps ops c' c'' \<Longrightarrow> right_steps (opn # ops) c c''"

code_pred right_steps .

inductive_cases right_stepE: "right_step opn (s, so) c"

lemma unat_Suc: "unat (x :: u32) + 1 < 2 ^ 32 \<Longrightarrow> unat (x + 1) = Suc (unat x)"
  by (simp add: unat_word_ariths(1))

lemma unat_pred: "unat (x :: u32) = Suc n \<Longrightarrow> unat (x - 1) = n"
  by (metis diff_Suc_1 nat.distinct(1) unat_0 unat_minus_one)

lemma unat_Suc_pos: "unat (x :: u32) = Suc n \<Longrightarrow> 0 < x"
  by (cases "x = 0") (auto simp: word_gt_0)

text \<open>Exact effect of giving back a send right.\<close>

lemma release_send_eq:
  assumes "port_get k p = Some x" "ip_active x" "0 < ip_srights x"
  shows "ipc_port_release_send calls p k =
    (let y = x\<lparr>ip_references := ip_references x - 1, ip_srights := ip_srights x - 1\<rparr>
     in if ip_srights x = 1 \<and> ip_nsrequest x \<noteq> 0
        then Some (call calls (Notify_no_senders (ip_nsrequest x) (ip_mscount x)) (put_port p (y\<lparr>ip_nsrequest := 0\<rparr>) k))
        else Some (put_port p y k))"
  using assms port_get_valid [OF assms(1)]
  by (simp add: ipc_port_release_send_def ip_release_def Let_def)

lemma release_send_port:
  assumes x: "port_get k p = Some x" "ip_active x" "0 < ip_srights x" and q: "ns_quiet calls p k"
  shows "\<exists>k' y. ipc_port_release_send calls p k = Some k' \<and> port_get k' p = Some y \<and>
    y = x\<lparr>ip_references := ip_references x - 1, ip_srights := ip_srights x - 1, ip_nsrequest := ip_nsrequest y\<rparr> \<and>
    (ip_nsrequest y = ip_nsrequest x \<or> ip_nsrequest y = 0)"
proof (cases "ip_srights x = 1 \<and> ip_nsrequest x \<noteq> 0")
  case True
  hence "quiet calls (ip_nsrequest x) p" using q x(1) by (auto simp: ns_quiet_def)
  thus ?thesis using True x port_get_valid [OF x(1)] by (simp add: release_send_eq [OF x] Let_def quiet_call)
next
  case False
  thus ?thesis using x port_get_valid [OF x(1)] by (auto simp: release_send_eq [OF x] Let_def)
qed

lemma right_step_ok:
  assumes inv: "rights_inv p s so r k" and st: "right_step opn (s, so) (s', so')"
    and room: "s + so + r + 1 < 2 ^ 32" and q: "ns_quiet calls p k"
  obtains k' where "perform calls p opn k = Some k'" "rights_inv p s' so' r k'" "ns_quiet calls p k'"
proof -
  obtain x where x: "port_get k p = Some x" "ip_active x" and c: "unat (ip_references x) = s + so + r"
    "unat (ip_srights x) = s" "unat (ip_sorights x) = so"
    using inv by (auto simp: rights_inv_def)
  note v = port_get_valid [OF x(1)]
  note nq = ns_quiet_step [OF q x(1)]
  have rs: "unat (ip_references x + 1) = s + so + r + 1" using c room by (subst unat_Suc) auto
  from st show ?thesis
  proof (cases rule: right_step.cases)
    case 1
    moreover have "unat (ip_srights x + 1) = s + 1" using c room by (subst unat_Suc) auto
    ultimately show ?thesis using x v c rs
      by (intro that [of "put_port p (x\<lparr>ip_mscount := ip_mscount x + 1, ip_srights := ip_srights x + 1,
            ip_references := ip_references x + 1\<rparr>) k"])
        (auto simp: ipc_port_make_send_def ip_reference_def rights_inv_def intro!: nq)
  next
    case (2 n)
    moreover have "unat (ip_srights x + 1) = s + 1" using c room by (subst unat_Suc) auto
    moreover have "0 < ip_srights x" using 2 c unat_Suc_pos by auto
    ultimately show ?thesis using x v c rs
      by (intro that [of "put_port p (x\<lparr>ip_references := ip_references x + 1, ip_srights := ip_srights x + 1\<rparr>) k"])
        (auto simp: ipc_port_copy_send_def ip_reference_def rights_inv_def intro!: nq)
  next
    case 3
    have u: "unat (ip_srights x - 1) = s'" "unat (ip_references x - 1) = s' + so + r" "0 < ip_srights x"
      using 3 c by (auto intro!: unat_pred unat_Suc_pos)
    obtain k' y where k': "ipc_port_release_send calls p k = Some k'" "port_get k' p = Some y"
      "y = x\<lparr>ip_references := ip_references x - 1, ip_srights := ip_srights x - 1, ip_nsrequest := ip_nsrequest y\<rparr>"
      "ip_nsrequest y = ip_nsrequest x \<or> ip_nsrequest y = 0"
      using release_send_port [OF x u(3) q] by blast
    have "rights_inv p s' so r k'" unfolding rights_inv_def
      by (intro exI [of _ y]) (use k'(2) u c x(2) in \<open>subst (2 3 4 5) k'(3); simp\<close>)
    thus ?thesis using 3 k' that nq [OF k'(2,4)] by auto
  next
    case 4
    moreover have "unat (ip_sorights x + 1) = so + 1" using c room by (subst unat_Suc) auto
    ultimately show ?thesis using x v c rs
      by (intro that [of "put_port p (x\<lparr>ip_sorights := ip_sorights x + 1, ip_references := ip_references x + 1\<rparr>) k"])
        (auto simp: ipc_port_make_sonce_def ip_reference_def rights_inv_def intro!: nq)
  next
    case 5
    have "unat (ip_sorights x - 1) = so'" "unat (ip_references x - 1) = s + so' + r" "0 < ip_sorights x"
      using 5 c by (auto intro!: unat_pred unat_Suc_pos)
    thus ?thesis using 5 x v c
      by (intro that [of "put_port p (x\<lparr>ip_sorights := ip_sorights x - 1, ip_references := ip_references x - 1\<rparr>) k"])
        (auto simp: ipc_port_release_sonce_def ip_release_def rights_inv_def intro!: nq)
  qed
qed

lemma right_step_total: "right_step opn (s, so) (s', so') \<Longrightarrow> s' + so' \<le> Suc (s + so)"
  by (auto elim: right_step.cases)

lemma rights_run_ok:
  assumes "right_steps ops c c'" "c = (s, so)" "c' = (s', so')" "rights_inv p s so r k"
    "s + so + r + length ops < 2 ^ 32" "ns_quiet calls p k"
  shows "\<exists>k'. performs calls p ops k = Some k' \<and> rights_inv p s' so' r k'"
  using assms
proof (induction arbitrary: s so k rule: right_steps.induct)
  case (right_steps_Nil c)
  thus ?case by simp
next
  case (right_steps_Cons opn c c1 ops c2)
  obtain s1 so1 where c1: "c1 = (s1, so1)" by (cases c1)
  obtain k1 where k1: "perform calls p opn k = Some k1" "rights_inv p s1 so1 r k1" "ns_quiet calls p k1"
    by (rule right_step_ok [of p s so r k opn s1 so1 calls]) (use right_steps_Cons c1 in auto)
  have "s1 + so1 \<le> Suc (s + so)" using right_steps_Cons c1 right_step_total by blast
  hence "s1 + so1 + r + length ops < 2 ^ 32" using right_steps_Cons.prems by simp
  then obtain k' where "performs calls p ops k1 = Some k'" "rights_inv p s' so' r k'"
    using right_steps_Cons.IH [of s1 so1 k1] right_steps_Cons.prems c1 k1 by blast
  thus ?case using k1 by simp
qed

end
