(* ===== verification/Port_Destroy.thy ===== *)
theory Port_Destroy
  imports Port_Rights
begin

text \<open>
  Destruction of ports, \<^verbatim>\<open>ipc_port_destroy\<close>: which calls it makes and in which order, and
  what is left of the port.

  Once the port is dead, the code that \<^verbatim>\<open>ipc_port_destroy\<close> calls may still hold rights
  for it: a queued message may carry one, the port may itself be registered for a notification,
  and \<^verbatim>\<open>vm_object_destroy\<close> gives back the send right of a pager. Giving back a right of a
  dead port takes one reference (\<^verbatim>\<open>ipc_port_release_send\<close>) and, for a send-once right, one
  send-once right (\<^verbatim>\<open>ipc_port_release_sonce\<close>), and does not touch the rest of the port.
  The function \<open>gives\<close> says how many references each call gives back in this way.
\<close>

definition only_releases :: "calls \<Rightarrow> ptr \<Rightarrow> (event \<Rightarrow> nat) \<Rightarrow> event list \<Rightarrow> ptr list \<Rightarrow> bool" where
  "only_releases calls p gives evs ms \<longleftrightarrow> (\<forall>ev\<in>set evs. \<forall>k.
     k_events (calls ev k) = k_events k \<and>
     (\<forall>m\<in>set ms. ev \<noteq> Kmsg_destroy m \<longrightarrow> k_kmsgs (calls ev k) m = k_kmsgs k m) \<and>
     (\<forall>y. port_get k p = Some y \<and> \<not> ip_active y \<and> gives ev < unat (ip_references y) \<longrightarrow>
       (\<exists>so. port_get (calls ev k) p =
          Some (y\<lparr>ip_sorights := so, ip_references := ip_references y - of_nat (gives ev)\<rparr>))))"

abbreviation given :: "(event \<Rightarrow> nat) \<Rightarrow> event list \<Rightarrow> nat" where
  "given gives evs \<equiv> sum_list (map gives evs)"

lemma only_releases_call:
  assumes "only_releases calls p gives evs ms" "ev \<in> set evs" "port_get k p = Some y" "\<not> ip_active y"
    "gives ev < unat (ip_references y)"
  shows "\<exists>so. port_get (call calls ev k) p =
      Some (y\<lparr>ip_sorights := so, ip_references := ip_references y - of_nat (gives ev)\<rparr>)"
    and "k_events (call calls ev k) = k_events k @ [ev]"
    and "m \<in> set ms \<Longrightarrow> ev \<noteq> Kmsg_destroy m \<Longrightarrow> k_kmsgs (call calls ev k) m = k_kmsgs k m"
  using assms unfolding only_releases_def call_def by simp_all

lemma unat_minus_of_nat: "n \<le> unat (w :: u32) \<Longrightarrow> unat (w - of_nat n) = unat w - n"
  using unat_lt32 [of w] unat_sub [of "of_nat n" w] by (simp add: unat_of_nat32 word_le_nat_alt)

section \<open>Queued messages\<close>

lemma port_release_ok:
  assumes "port_get k p = Some x" "1 < unat (ip_references x)"
  shows "ipc_port_release p k = Some (put_port p (x\<lparr>ip_references := ip_references x - 1\<rparr>) k)"
proof -
  have "0 < ip_references x" using assms(2) by (cases "ip_references x = 0") (auto simp: word_gt_0)
  moreover have "ip_references x - 1 \<noteq> 0" using assms(2) by auto
  ultimately show ?thesis using assms port_get_valid [OF assms(1)]
    by (simp add: ipc_port_release_def ip_release_def ip_check_unlock_def)
qed

lemma destroy_messages_ok:
  assumes rel: "only_releases calls p gives evs ms0"
  shows "port_get k p = Some x \<Longrightarrow> \<not> ip_active x \<Longrightarrow> imq_messages (ip_messages x) = ms \<Longrightarrow> distinct ms \<Longrightarrow>
    set ms \<subseteq> set ms0 \<Longrightarrow> Kmsg_destroy ` set ms \<subseteq> set evs \<Longrightarrow>
    (\<forall>m\<in>set ms. \<exists>km. k_kmsgs k m = Some km \<and> msgh_remote_port km = p) \<Longrightarrow>
    length ms + given gives (map Kmsg_destroy ms) < unat (ip_references x) \<Longrightarrow>
    \<exists>k' so. destroy_messages calls p k = Some k' \<and>
      port_get k' p = Some (x\<lparr>ip_messages := (ip_messages x)\<lparr>imq_messages := []\<rparr>, ip_sorights := so,
        ip_references := ip_references x - of_nat (length ms + given gives (map Kmsg_destroy ms))\<rparr>) \<and>
      k_events k' = k_events k @ map Kmsg_destroy ms"
proof (induction ms arbitrary: k x)
  case Nil
  thus ?case by (intro exI [of _ k] exI [of _ "ip_sorights x"]) (simp add: destroy_messages.simps [of calls p k])
next
  case (Cons m ms)
  obtain km where km: "k_kmsgs k m = Some km" "msgh_remote_port km = p" using Cons.prems(7) by auto
  note v = port_get_valid [OF Cons.prems(1)]
  let ?ev = "Kmsg_destroy m"
  let ?y = "x\<lparr>ip_messages := (ip_messages x)\<lparr>imq_messages := ms\<rparr>\<rparr>"
  let ?z = "?y\<lparr>ip_references := ip_references x - 1\<rparr>"
  let ?k1 = "put_port p ?y k"
  let ?k2 = "put_kmsg m (km\<lparr>msgh_remote_port := MACH_PORT_NULL\<rparr>) (put_port p ?z k)"
  let ?k3 = "call calls ?ev ?k2"
  have rl: "ipc_port_release p ?k1 = Some (put_port p ?z k)"
    using port_release_ok [of ?k1 p ?y] v Cons.prems(8) by simp
  have step: "destroy_messages calls p k = destroy_messages calls p ?k3"
    using Cons.prems(1,3) km rl v by (subst destroy_messages.simps) simp
  have u: "unat (ip_references x - 1) = unat (ip_references x) - 1"
    using Cons.prems(8) unat_minus_of_nat [of 1 "ip_references x"] by simp
  have k2: "port_get ?k2 p = Some ?z" "\<not> ip_active ?z" "gives ?ev < unat (ip_references ?z)"
    "?ev \<in> set evs" using v u Cons.prems(2,6,8) by auto
  note c = only_releases_call [OF rel k2(4,1,2,3)]
  obtain so where so: "port_get ?k3 p =
      Some (?z\<lparr>ip_sorights := so, ip_references := ip_references ?z - of_nat (gives ?ev)\<rparr>)"
    using c(1) by blast
  let ?w = "?z\<lparr>ip_sorights := so, ip_references := ip_references ?z - of_nat (gives ?ev)\<rparr>"
  have uw: "unat (ip_references ?w) = unat (ip_references x) - 1 - gives ?ev"
    using k2(3) u unat_minus_of_nat [of "gives ?ev" "ip_references ?z"] by simp
  have kept: "k_kmsgs ?k3 m' = k_kmsgs k m'" if "m' \<in> set ms" for m'
    using c(3) [of m'] that Cons.prems(4,5) by auto
  have "\<exists>k' so. destroy_messages calls p ?k3 = Some k' \<and>
      port_get k' p = Some (?w\<lparr>ip_messages := (ip_messages ?w)\<lparr>imq_messages := []\<rparr>, ip_sorights := so,
        ip_references := ip_references ?w - of_nat (length ms + given gives (map Kmsg_destroy ms))\<rparr>) \<and>
      k_events k' = k_events ?k3 @ map Kmsg_destroy ms"
    by (rule Cons.IH [OF so]) (use Cons.prems uw kept in auto)
  thus ?case using step c(2) by (auto simp: algebra_simps)
qed

section \<open>Dead-name notifications\<close>

fun dn_notice :: "ptr \<Rightarrow> ipc_port_request \<Rightarrow> event list" where
  "dn_notice p ipr = (if ipr_unused ipr then []
     else if ipr_spacep (ipr_soright ipr) then [Port_delete_compat p (ipr_space (ipr_soright ipr)) (ipr_name ipr)]
     else [Notify_dead_name (ipr_soright ipr) (ipr_name ipr)])"

lemma dn_noticeE:
  obtains "ipr_unused ipr" "dn_notice p ipr = []"
  | ev where "\<not> ipr_unused ipr" "dn_notice p ipr = [ev]"
      "(if ipr_spacep (ipr_soright ipr) then call calls (Port_delete_compat p (ipr_space (ipr_soright ipr)) (ipr_name ipr)) k
        else call calls (Notify_dead_name (ipr_soright ipr) (ipr_name ipr)) k) = call calls ev k"
  by (cases "ipr_unused ipr"; cases "ipr_spacep (ipr_soright ipr)") simp_all

declare dn_notice.simps [simp del]

lemma dead_names_ok:
  assumes rel: "only_releases calls p gives evs ms"
  shows "port_get k p = Some x \<Longrightarrow> \<not> ip_active x \<Longrightarrow> ip_dnrequests x = Some t \<Longrightarrow>
    (\<forall>r\<in>set rs. ipr_unused r \<or> ipr_soright r \<noteq> 0) \<Longrightarrow> drop i (dn_slots t) = rs \<Longrightarrow>
    set (concat (map (dn_notice p) rs)) \<subseteq> set evs \<Longrightarrow>
    given gives (concat (map (dn_notice p) rs)) < unat (ip_references x) \<Longrightarrow>
    \<exists>k' so. dead_names calls p (dn_addr t) (length (dn_slots t)) i k = Some k' \<and>
      port_get k' p = Some (x\<lparr>ip_sorights := so,
        ip_references := ip_references x - of_nat (given gives (concat (map (dn_notice p) rs)))\<rparr>) \<and>
      k_events k' = k_events k @ concat (map (dn_notice p) rs)"
proof (induction rs arbitrary: i k x)
  case Nil
  thus ?case
    by (intro exI [of _ k] exI [of _ "ip_sorights x"])
      (simp add: dead_names.simps [of calls p "dn_addr t" "length (dn_slots t)" i k])
next
  case (Cons r rs)
  have "i < length (dn_slots t)" using Cons.prems(5) by (metis drop_all leI list.distinct(1))
  hence i: "i < length (dn_slots t)" "dn_slots t ! i = r" "drop (Suc i) (dn_slots t) = rs"
    using Cons.prems(5) Cons_nth_drop_Suc [of i "dn_slots t"] by simp_all
  note un = dead_names.simps [of calls p "dn_addr t" "length (dn_slots t)" i k]
  show ?case
  proof (rule dn_noticeE [where ipr = r and p = p and calls = calls and k = k])
    assume r: "ipr_unused r" "dn_notice p r = []"
    have "dead_names calls p (dn_addr t) (length (dn_slots t)) i k =
        dead_names calls p (dn_addr t) (length (dn_slots t)) (Suc i) k"
      using r(1) Cons.prems(1,3) i by (subst un) (simp add: ipr_get_def)
    thus ?thesis using Cons.IH [OF Cons.prems(1,2,3) _ i(3)] Cons.prems r(2) by simp
  next
    fix ev
    assume r: "\<not> ipr_unused r" "dn_notice p r = [ev]"
      "(if ipr_spacep (ipr_soright r) then call calls (Port_delete_compat p (ipr_space (ipr_soright r)) (ipr_name r)) k
        else call calls (Notify_dead_name (ipr_soright r) (ipr_name r)) k) = call calls ev k"
    have nz: "ipr_soright r \<noteq> 0" using Cons.prems(4) r(1) by simp
    have st: "dead_names calls p (dn_addr t) (length (dn_slots t)) i k =
        dead_names calls p (dn_addr t) (length (dn_slots t)) (Suc i) (call calls ev k)"
      using r(1) nz Cons.prems(1,3) i unfolding r(3) [symmetric] by (subst un) (simp add: ipr_get_def)
    have ev: "ev \<in> set evs" "gives ev < unat (ip_references x)" using Cons.prems(6,7) r(2) by simp_all
    note c = only_releases_call [OF rel ev(1) Cons.prems(1,2) ev(2)]
    obtain so where so: "port_get (call calls ev k) p =
        Some (x\<lparr>ip_sorights := so, ip_references := ip_references x - of_nat (gives ev)\<rparr>)"
      using c(1) by blast
    let ?y = "x\<lparr>ip_sorights := so, ip_references := ip_references x - of_nat (gives ev)\<rparr>"
    have "unat (ip_references ?y) = unat (ip_references x) - gives ev"
      using ev(2) unat_minus_of_nat [of "gives ev" "ip_references x"] by simp
    hence "\<exists>k' so. dead_names calls p (dn_addr t) (length (dn_slots t)) (Suc i) (call calls ev k) = Some k' \<and>
        port_get k' p = Some (?y\<lparr>ip_sorights := so,
          ip_references := ip_references ?y - of_nat (given gives (concat (map (dn_notice p) rs)))\<rparr>) \<and>
        k_events k' = k_events (call calls ev k) @ concat (map (dn_notice p) rs)"
      by (intro Cons.IH [OF so _ _ _ i(3)]) (use Cons.prems r(2) in auto)
    thus ?thesis using st c(2) r(2) by (auto simp: algebra_simps)
  qed
qed

section \<open>The whole port\<close>

text \<open>The calls that leave the model during the destruction of a port in state \<open>x\<close>, and the
  whole log.\<close>

definition ns_calls :: "ipc_port \<Rightarrow> event list" where
  "ns_calls x = (if ip_nsrequest x \<noteq> 0 then [Notify_send_once (ip_nsrequest x)] else [])"

definition dn_calls :: "ptr \<Rightarrow> ipc_port \<Rightarrow> event list" where
  "dn_calls p x = (case ip_dnrequests x of None \<Rightarrow> [] | Some t \<Rightarrow> concat (map (dn_notice p) (tl (dn_slots t))))"

definition ko_calls :: "ptr \<Rightarrow> ipc_port \<Rightarrow> event list" where
  "ko_calls p x = (if io_kotype (ip_bits x) \<noteq> IKOT_NONE then [Kobject_destroy p] else [])"

definition destroy_calls :: "ptr \<Rightarrow> ipc_port \<Rightarrow> event list" where
  "destroy_calls p x = ns_calls x @ map Kmsg_destroy (imq_messages (ip_messages x)) @ dn_calls p x @ ko_calls p x"

definition destroy_events :: "ptr \<Rightarrow> ipc_port \<Rightarrow> event list" where
  "destroy_events p x = map Thread_go (ip_blocked x) @ ns_calls x @
     map Kmsg_destroy (imq_messages (ip_messages x)) @ dn_calls p x @
     (case ip_dnrequests x of None \<Rightarrow> [] | Some t \<Rightarrow> [Dnrequests_free (ipr_size t) (dn_addr t)]) @ ko_calls p x"

text \<open>The references given back before the caller's own: one for each queued message and those of
  the calls.\<close>

definition refs_given :: "(event \<Rightarrow> nat) \<Rightarrow> ptr \<Rightarrow> ipc_port \<Rightarrow> nat" where
  "refs_given gives p x = length (imq_messages (ip_messages x)) + given gives (destroy_calls p x)"

text \<open>What the destruction relies on: the threads and messages on the queues exist, no receiver
  waits, the request table is as long as its size says, and the port has the references that are
  given back besides the caller's.\<close>

definition destroyable :: "u32 list \<Rightarrow> (event \<Rightarrow> nat) \<Rightarrow> ptr \<Rightarrow> ipc_port \<Rightarrow> kern \<Rightarrow> bool" where
  "destroyable dnsizes gives p x k \<longleftrightarrow>
     (\<forall>th\<in>set (ip_blocked x). k_threads k th \<noteq> None) \<and>
     imq_threads (ip_messages x) = [] \<and>
     distinct (imq_messages (ip_messages x)) \<and>
     (\<forall>m\<in>set (imq_messages (ip_messages x)). \<exists>km. k_kmsgs k m = Some km \<and> msgh_remote_port km = p) \<and>
     refs_given gives p x < unat (ip_references x) \<and>
     (case ip_dnrequests x of None \<Rightarrow> True
      | Some t \<Rightarrow> its_get dnsizes (ipr_size t) = Some (of_nat (length (dn_slots t))) \<and> length (dn_slots t) < 2 ^ 32 \<and>
          (\<forall>r\<in>set (tl (dn_slots t)). ipr_unused r \<or> ipr_soright r \<noteq> 0))"

text \<open>One of the calls that are made only sometimes, \<open>evs\<close> being empty or the call.\<close>

lemma optional_call:
  assumes rel: "only_releases calls p gives evs ms" and y: "port_get k p = Some y" "\<not> ip_active y"
    and g: "given gives (if b then [ev] else []) < unat (ip_references y)" "b \<Longrightarrow> ev \<in> set evs"
  shows "\<exists>so. port_get (if b then call calls ev k else k) p = Some (y\<lparr>ip_sorights := so,
      ip_references := ip_references y - of_nat (given gives (if b then [ev] else []))\<rparr>)"
    and "k_events (if b then call calls ev k else k) = k_events k @ (if b then [ev] else [])"
    and "m \<in> set ms \<Longrightarrow> b \<longrightarrow> ev \<noteq> Kmsg_destroy m \<Longrightarrow> k_kmsgs (if b then call calls ev k else k) m = k_kmsgs k m"
proof -
  have c: "\<exists>so. port_get (call calls ev k) p = Some (y\<lparr>ip_sorights := so, ip_references := ip_references y - of_nat (gives ev)\<rparr>)"
    "k_events (call calls ev k) = k_events k @ [ev]"
    "m \<in> set ms \<Longrightarrow> ev \<noteq> Kmsg_destroy m \<Longrightarrow> k_kmsgs (call calls ev k) m = k_kmsgs k m" if b
    using only_releases_call [OF rel g(2) [OF that] y] g(1) that by simp_all
  show "\<exists>so. port_get (if b then call calls ev k else k) p = Some (y\<lparr>ip_sorights := so,
      ip_references := ip_references y - of_nat (given gives (if b then [ev] else []))\<rparr>)"
    using c(1) y(1) by (cases b) (simp_all, intro exI [of _ "ip_sorights y"], simp)
  show "k_events (if b then call calls ev k else k) = k_events k @ (if b then [ev] else [])" using c(2) by simp
  show "m \<in> set ms \<Longrightarrow> b \<longrightarrow> ev \<noteq> Kmsg_destroy m \<Longrightarrow> k_kmsgs (if b then call calls ev k else k) m = k_kmsgs k m"
    using c(3) by simp
qed

text \<open>The part that notifies the holders of dead names.\<close>

lemma dn_part_ok:
  assumes rel: "only_releases calls p gives evs ms" and y: "port_get k p = Some y" "\<not> ip_active y"
    and t: "case ip_dnrequests y of None \<Rightarrow> True
      | Some t \<Rightarrow> its_get dnsizes (ipr_size t) = Some (of_nat (length (dn_slots t))) \<and> length (dn_slots t) < 2 ^ 32 \<and>
          (\<forall>r\<in>set (tl (dn_slots t)). ipr_unused r \<or> ipr_soright r \<noteq> 0)"
    and g: "given gives (dn_calls p y) < unat (ip_references y)" "set (dn_calls p y) \<subseteq> set evs"
  shows "\<exists>k' so. (case ip_dnrequests y of
         None \<Rightarrow> Some k
       | Some t \<Rightarrow> do {
           sz \<leftarrow> its_get dnsizes (ipr_size t);
           k \<leftarrow> dead_names calls p (dn_addr t) (unat sz) 1 k;
           Some (log_event (Dnrequests_free (ipr_size t) (dn_addr t)) k) }) = Some k' \<and>
    port_get k' p = Some (y\<lparr>ip_sorights := so, ip_references := ip_references y - of_nat (given gives (dn_calls p y))\<rparr>) \<and>
    k_events k' = k_events k @ dn_calls p y @
      (case ip_dnrequests y of None \<Rightarrow> [] | Some t \<Rightarrow> [Dnrequests_free (ipr_size t) (dn_addr t)])"
proof (cases "ip_dnrequests y")
  case None
  thus ?thesis using y by (intro exI [of _ k] exI [of _ "ip_sorights y"]) (simp add: dn_calls_def)
next
  case (Some t)
  have u: "unat (of_nat (length (dn_slots t)) :: u32) = length (dn_slots t)"
    using assms(4) Some by (simp add: unat_of_nat32)
  have "\<exists>k' so. dead_names calls p (dn_addr t) (length (dn_slots t)) 1 k = Some k' \<and>
      port_get k' p = Some (y\<lparr>ip_sorights := so,
        ip_references := ip_references y - of_nat (given gives (concat (map (dn_notice p) (tl (dn_slots t)))))\<rparr>) \<and>
      k_events k' = k_events k @ concat (map (dn_notice p) (tl (dn_slots t)))"
    by (rule dead_names_ok [OF rel y Some]) (use assms(4) g Some in \<open>auto simp: dn_calls_def drop_Suc\<close>)
  then obtain k' so where k': "dead_names calls p (dn_addr t) (length (dn_slots t)) 1 k = Some k'"
    "port_get k' p = Some (y\<lparr>ip_sorights := so, ip_references := ip_references y - of_nat (given gives (dn_calls p y))\<rparr>)"
    "k_events k' = k_events k @ dn_calls p y"
    using Some by (auto simp: dn_calls_def)
  thus ?thesis using Some assms(4) u
    by (intro exI [of _ "log_event (Dnrequests_free (ipr_size t) (dn_addr t)) k'"] exI [of _ so]) simp
qed

text \<open>The reference given back last may be the last one.\<close>

lemma port_release_last:
  assumes "port_get k p = Some x" "0 < unat (ip_references x)"
  shows "\<exists>k'. ipc_port_release p k = Some k' \<and> k_events k' = k_events k \<and> port_get k' p =
    (if ip_references x = 1 then None else Some (x\<lparr>ip_references := ip_references x - 1\<rparr>))"
proof -
  have "0 < ip_references x" using assms(2) by (auto simp: word_gt_0)
  hence "ipc_port_release p k = ip_check_unlock p (put_port p (x\<lparr>ip_references := ip_references x - 1\<rparr>) k)"
    using assms(1) port_get_valid [OF assms(1)] by (simp add: ipc_port_release_def ip_release_def)
  thus ?thesis using assms(1) port_get_valid [OF assms(1)]
    by (cases "ip_references x = 1") (simp_all add: ip_check_unlock_def port_get_def put_port_def)
qed

text \<open>The dead port after \<open>n\<close> references were given back.\<close>

definition dead_port :: "u32 \<Rightarrow> ipc_port \<Rightarrow> ipc_mqueue \<Rightarrow> u32 \<Rightarrow> nat \<Rightarrow> ipc_port" where
  "dead_port stamp x mq so n = x\<lparr>ip_blocked := [], ip_bits := ip_bits x AND NOT IO_BITS_ACTIVE, ip_data := stamp,
     ip_messages := mq, ip_sorights := so, ip_references := ip_references x - of_nat n\<rparr>"

lemma dead_port_simps [simp]:
  "\<not> ip_active (dead_port stamp x mq so n)"
  "ip_messages (dead_port stamp x mq so n) = mq"
  "ip_nsrequest (dead_port stamp x mq so n) = ip_nsrequest x"
  "ip_dnrequests (dead_port stamp x mq so n) = ip_dnrequests x"
  "ip_blocked (dead_port stamp x mq so n) = []"
  "ip_timestamp (dead_port stamp x mq so n) = stamp"
  "io_kotype (ip_bits (dead_port stamp x mq so n)) = io_kotype (ip_bits x)"
  "ip_references (dead_port stamp x mq so n) = ip_references x - of_nat n"
  "(dead_port stamp x mq so n)\<lparr>ip_sorights := so', ip_references := ip_references x - of_nat n - of_nat n'\<rparr> =
     dead_port stamp x mq so' (n + n')"
  "(dead_port stamp x mq so n)\<lparr>ip_messages := mq', ip_sorights := so', ip_references := ip_references x - of_nat n - of_nat n'\<rparr> =
     dead_port stamp x mq' so' (n + n')"
  "dn_calls p (dead_port stamp x mq so n) = dn_calls p x"
  by (simp_all add: dead_port_def dn_calls_def algebra_simps)

lemma dead_port_zero [simp]:
  "(dead_port stamp x mq so 0)\<lparr>ip_sorights := so', ip_references := ip_references x - of_nat n'\<rparr> =
     dead_port stamp x mq so' n'"
  by (simp add: dead_port_def)

lemma dead_port_room:
  "n + n' < unat (ip_references x) \<Longrightarrow> n' < unat (ip_references (dead_port stamp x mq so n))"
  using unat_minus_of_nat [of n "ip_references x"] by simp

text \<open>The stages of the destruction after the death of the port.\<close>

lemma call_stage:
  assumes rel: "only_releases calls p gives evs ms" and k: "port_get k p = Some (dead_port ts x mq so n)"
    and g: "n + given gives (if b then [ev] else []) < unat (ip_references x)" "b \<Longrightarrow> ev \<in> set evs"
    and k': "k' = (if b then call calls ev k else k)"
  shows "\<exists>so'. port_get k' p = Some (dead_port ts x mq so' (n + given gives (if b then [ev] else [])))"
    and "k_events k' = k_events k @ (if b then [ev] else [])"
    and "m \<in> set ms \<Longrightarrow> b \<longrightarrow> ev \<noteq> Kmsg_destroy m \<Longrightarrow> k_kmsgs k' m = k_kmsgs k m"
  using optional_call [OF rel k dead_port_simps(1) dead_port_room [OF g(1)] g(2)] unfolding k' by (simp_all del: of_nat_add)

lemma messages_stage:
  assumes rel: "only_releases calls p gives (destroy_calls p x) (imq_messages (ip_messages x))"
    and d: "destroyable dnsizes gives p x k0"
    and k: "port_get k p = Some (dead_port ts x (ip_messages x) so n)"
      "\<forall>m\<in>set (imq_messages (ip_messages x)). k_kmsgs k m = k_kmsgs k0 m"
    and ms: "ms = imq_messages (ip_messages x)" "evs = map Kmsg_destroy ms"
    and g: "n + (length ms + given gives evs) < unat (ip_references x)"
  shows "\<exists>k' so'. destroy_messages calls p k = Some k' \<and>
    port_get k' p = Some (dead_port ts x ipc_mqueue_init so' (n + (length ms + given gives evs))) \<and>
    k_events k' = k_events k @ evs"
proof -
  let ?y = "dead_port ts x (ip_messages x) so n"
  have mq: "(ip_messages x)\<lparr>imq_messages := []\<rparr> = ipc_mqueue_init"
    using d by (cases "ip_messages x") (simp add: ipc_mqueue_init_def destroyable_def)
  have "\<exists>k' so. destroy_messages calls p k = Some k' \<and>
      port_get k' p = Some (?y\<lparr>ip_messages := (ip_messages ?y)\<lparr>imq_messages := []\<rparr>, ip_sorights := so,
        ip_references := ip_references ?y - of_nat (length ms + given gives (map Kmsg_destroy ms))\<rparr>) \<and>
      k_events k' = k_events k @ map Kmsg_destroy ms"
    using d k(2) dead_port_room [OF g] ms
    by (intro destroy_messages_ok [OF rel k(1)]) (auto simp: destroyable_def destroy_calls_def simp del: dead_port_simps(8))
  thus ?thesis using mq ms by (simp del: of_nat_add)
qed

lemma names_stage:
  assumes rel: "only_releases calls p gives (destroy_calls p x) ms" and d: "destroyable dnsizes gives p x k0"
    and k: "port_get k p = Some (dead_port ts x mq so n)"
    and g: "n + given gives (dn_calls p x) < unat (ip_references x)"
  shows "\<exists>k' so'. (case ip_dnrequests x of
         None \<Rightarrow> Some k
       | Some t \<Rightarrow> do {
           sz \<leftarrow> its_get dnsizes (ipr_size t);
           k \<leftarrow> dead_names calls p (dn_addr t) (unat sz) 1 k;
           Some (log_event (Dnrequests_free (ipr_size t) (dn_addr t)) k) }) = Some k' \<and>
    port_get k' p = Some (dead_port ts x mq so' (n + given gives (dn_calls p x))) \<and>
    k_events k' = k_events k @ dn_calls p x @
      (case ip_dnrequests x of None \<Rightarrow> [] | Some t \<Rightarrow> [Dnrequests_free (ipr_size t) (dn_addr t)])"
proof -
  have t: "case ip_dnrequests x of None \<Rightarrow> True
      | Some t \<Rightarrow> its_get dnsizes (ipr_size t) = Some (of_nat (length (dn_slots t))) \<and> length (dn_slots t) < 2 ^ 32 \<and>
          (\<forall>r\<in>set (tl (dn_slots t)). ipr_unused r \<or> ipr_soright r \<noteq> 0)"
    using d by (simp only: destroyable_def)
  have "set (dn_calls p x) \<subseteq> set (destroy_calls p x)" by (auto simp: destroy_calls_def)
  from dn_part_ok [OF rel k dead_port_simps(1), unfolded dead_port_simps(4,11), OF t dead_port_room [OF g] this]
  show ?thesis by (simp only: dead_port_simps(8,9))
qed

lemma destroy_port_ok:
  assumes rel: "only_releases calls p gives (destroy_calls p x) (imq_messages (ip_messages x))"
    and x: "port_get k p = Some x" and d: "destroyable dnsizes gives p x k"
  shows "\<exists>k1 so. destroy_port calls dnsizes p k = ipc_port_release p k1 \<and>
     k_events k1 = k_events k @ destroy_events p x \<and>
     port_get k1 p = Some (dead_port (k_timestamp k) x ipc_mqueue_init so (refs_given gives p x))"
proof -
  note v = port_get_valid [OF x]
  let ?mq = "ip_messages x" and ?ts = "k_timestamp k"
  let ?ms = "imq_messages ?mq"
  define g1 where "g1 = given gives (ns_calls x)"
  define g2 where "g2 = length ?ms + given gives (map Kmsg_destroy ?ms)"
  define g3 where "g3 = given gives (dn_calls p x)"
  define g4 where "g4 = given gives (ko_calls p x)"
  note g = g1_def g2_def g3_def g4_def
  have tot: "refs_given gives p x = g1 + g2 + g3 + g4" by (simp add: refs_given_def destroy_calls_def g)
  have room: "g1 + g2 + g3 + g4 < unat (ip_references x)" using d tot by (simp add: destroyable_def)
  define kw where "kw = woken MACH_MSG_SUCCESS (ip_blocked x) (put_port p (x\<lparr>ip_blocked := []\<rparr>) k)"
  define k2 where "k2 = put_port p (dead_port ?ts x ?mq (ip_sorights x) 0) (kw\<lparr>k_timestamp := k_timestamp kw + 1\<rparr>)"
  have k2: "port_get k2 p = Some (dead_port ?ts x ?mq (ip_sorights x) 0)"
    "k_events k2 = k_events k @ map Thread_go (ip_blocked x)" "k_kmsgs k2 = k_kmsgs k"
    using v by (simp_all add: k2_def kw_def)
  define k3 where "k3 = (if ip_nsrequest x \<noteq> 0 then call calls (Notify_send_once (ip_nsrequest x)) k2 else k2)"
  obtain so1 where k3: "port_get k3 p = Some (dead_port ?ts x ?mq so1 g1)" "k_events k3 = k_events k2 @ ns_calls x"
    "\<forall>m\<in>set ?ms. k_kmsgs k3 m = k_kmsgs k m"
    using call_stage [OF rel k2(1) _ _ k3_def] room k2(3) by (auto simp: g1_def ns_calls_def destroy_calls_def)
  obtain k4 so2 where k4: "destroy_messages calls p k3 = Some k4"
    "port_get k4 p = Some (dead_port ?ts x ipc_mqueue_init so2 (g1 + g2))" "k_events k4 = k_events k3 @ map Kmsg_destroy ?ms"
    using messages_stage [OF rel d k3(1,3) refl refl, folded g2_def] room by auto
  obtain k5 so3 where k5: "(case ip_dnrequests x of
         None \<Rightarrow> Some k4
       | Some t \<Rightarrow> do {
           sz \<leftarrow> its_get dnsizes (ipr_size t);
           k \<leftarrow> dead_names calls p (dn_addr t) (unat sz) 1 k4;
           Some (log_event (Dnrequests_free (ipr_size t) (dn_addr t)) k) }) = Some k5"
    "port_get k5 p = Some (dead_port ?ts x ipc_mqueue_init so3 (g1 + g2 + g3))"
    "k_events k5 = k_events k4 @ dn_calls p x @
      (case ip_dnrequests x of None \<Rightarrow> [] | Some t \<Rightarrow> [Dnrequests_free (ipr_size t) (dn_addr t)])"
    using names_stage [OF rel d k4(2), folded g3_def] room by auto
  define k6 where "k6 = (if io_kotype (ip_bits x) \<noteq> IKOT_NONE then call calls (Kobject_destroy p) k5 else k5)"
  obtain so where k6: "port_get k6 p = Some (dead_port ?ts x ipc_mqueue_init so (g1 + g2 + g3 + g4))"
    "k_events k6 = k_events k5 @ ko_calls p x"
    using call_stage [OF rel k5(2) _ _ k6_def] room by (auto simp: g4_def ko_calls_def destroy_calls_def)
  have "wake_all MACH_MSG_SUCCESS (ip_blocked x) (put_port p (x\<lparr>ip_blocked := []\<rparr>) k) = Some kw"
    unfolding kw_def by (rule wake_all_ok) (use d in \<open>simp add: destroyable_def\<close>)
  moreover have "port_upd p (\<lambda>x. x\<lparr>ip_bits := ip_bits x AND NOT IO_BITS_ACTIVE, ip_data := k_timestamp kw\<rparr>)
      (kw\<lparr>k_timestamp := k_timestamp kw + 1\<rparr>) = Some k2"
    using v by (simp add: k2_def kw_def dead_port_def)
  moreover have "imq_threads ?mq = []" using d by (simp add: destroyable_def)
  ultimately have "destroy_port calls dnsizes p k = ipc_port_release p k6"
    using x k2(1) k3(1) k4(1,2) k5(1,2)
    by (simp only: destroy_port_def ipc_port_timestamp_def port_upd_Some Let_def bind.bind_lunit
        oassert_simps oassert_bind case_prod_conv simp_thms dead_port_simps k3_def [symmetric] k6_def [symmetric])
  moreover have "k_events k6 = k_events k @ destroy_events p x"
    using k6(2) k5(3) k4(3) k3(2) k2(2) by (simp add: destroy_events_def)
  ultimately show ?thesis using k6(1) tot by auto
qed

end
