(* ===== verification/Port_Props.thy ===== *)
theory Port_Props
  imports Port_Destroy
begin

text \<open>
  The properties of ports: no circles of ports in transit, exact counting of rights, dead-name
  requests, destruction, queue limits and timestamps. The concrete states at the beginning are used
  to show that each property applies.
\<close>

section \<open>Concrete states\<close>

definition sample_space :: ipc_space where
  "sample_space = \<lparr>is_addr = 0x1000, is_references = 1, is_active = True, is_growing = False,
     is_table = [], is_table_size = 0, is_table_next = 0, is_tree = uninit_tree, is_tree_total = 0,
     is_tree_small = 0, is_tree_hash = 0, is_notify = 0\<rparr>"

definition sample_world :: world where
  "sample_world = \<lparr>w_space = sample_space,
     w_hash = \<lparr>ipc_hash_global_size = 1, ipc_hash_global_mask = 0, ipc_hash_global_table = [0]\<rparr>,
     w_heap = Map.empty, w_clock = 0\<rparr>"

text \<open>An active port whose receive right is in the space at \<open>0x1000\<close> under a name.\<close>

definition sample_port :: ipc_port where
  "sample_port = \<lparr>ip_references = 1, ip_bits = IO_BITS_ACTIVE, ip_receiver_name = 3, ip_messages = ipc_mqueue_init,
     ip_cur_target = 8, ip_data = 0x1000, ip_kobject = 0, ip_mscount = 0, ip_srights = 0, ip_sorights = 0,
     ip_nsrequest = 0, ip_pdrequest = 0, ip_dnrequests = None, ip_pset = 0, ip_seqno = 0, ip_msgcount = 0,
     ip_qlimit = MACH_PORT_QLIMIT_DEFAULT, ip_blocked = []\<rparr>"

definition limbo_port :: ipc_port where
  "limbo_port = sample_port\<lparr>ip_receiver_name := MACH_PORT_NULL, ip_data := 0\<rparr>"

definition sample_thread :: ipc_thread where
  "sample_thread = \<lparr>ith_state = MACH_SEND_IN_PROGRESS, ith_data = 64, ith_seqno = 0, ith_wait_result = THREAD_AWAKENED\<rparr>"

definition sample_kern :: kern where
  "sample_kern = \<lparr>k_world = sample_world, k_ports = [8 \<mapsto> sample_port, 16 \<mapsto> limbo_port], k_psets = Map.empty,
     k_kmsgs = Map.empty, k_threads = [32 \<mapsto> sample_thread, 40 \<mapsto> sample_thread], k_timestamp = 0, k_events = []\<rparr>"

lemma valid_samples [simp]: "IP_VALID 8" "IP_VALID 16" "IP_VALID 24"
  by (simp_all add: IP_VALID_def)

lemma sample_active [simp]: "io_active IO_BITS_ACTIVE"
  by (simp add: io_active_bit bit_active)

lemma sample_ports [simp]:
  "port_get sample_kern 8 = Some sample_port" "port_get sample_kern 16 = Some limbo_port"
  by (simp_all add: port_get_def sample_kern_def)

lemma sample_ports_only: "port_get sample_kern p = Some x \<Longrightarrow> p = 8 \<and> x = sample_port \<or> p = 16 \<and> x = limbo_port"
  by (simp add: port_get_def sample_kern_def split: if_splits)

lemma sample_port_fields [simp]:
  "ip_active sample_port" "ip_receiver_name sample_port = 3" "ip_active limbo_port" "in_limbo limbo_port"
  "not_in_transit sample_port" "not_in_transit limbo_port"
  by (simp_all add: sample_port_def limbo_port_def in_limbo_def not_in_transit_def MACH_PORT_NULL_def)

lemma sample_transit: "transit sample_kern = {}"
  by (auto simp: transit_def dest!: sample_ports_only)

lemma sample_transit_ok: "transit_ok sample_kern"
proof -
  have "finite (dom (k_ports sample_kern))" by (simp add: sample_kern_def)
  thus ?thesis by (simp add: transit_ok_def sample_transit acyclic_def)
qed

section \<open>Ports in transit\<close>

text \<open>C15. When no ports in transit form a circle, \<^verbatim>\<open>ipc_port_check_circularity\<close> returns,
  whether or not it can take the lock of the destination at once; it returns TRUE exactly when
  hanging the port on the destination would close a circle, and then changes nothing; otherwise it
  hangs the port there with a reference, and there is still no circle.\<close>

theorem circularity_correct:
  assumes "transit_ok k" "port_get k port = Some x" "in_limbo x" "port_get k dest = Some d"
  shows "\<exists>r k'. ipc_port_check_circularity try port dest k = Some (r, k') \<and> transit_ok k' \<and>
    (r = ((dest, port) \<in> (transit k)\<^sup>*)) \<and>
    (if r then k' = k
     else transit k' = insert (port, dest) (transit k) \<and>
       port_get k' dest = Some (d\<lparr>ip_references := ip_references d + 1\<rparr>))"
proof (cases "(dest, port) \<in> (transit k)\<^sup>*")
  case True
  thus ?thesis using assms by (intro exI [of _ True] exI [of _ k]) (simp add: check_circularity_ok)
next
  case False
  hence ne: "port \<noteq> dest" by auto
  have "port_get (hung port dest x d k) dest = Some (d\<lparr>ip_references := ip_references d + 1\<rparr>)"
    using ne port_get_valid [OF assms(4)] by (simp add: hung_def)
  thus ?thesis using False check_circularity_ok [OF assms, of "try"] transit_ok_hung [OF assms(1,2,4) ne assms(3) False]
      transit_hung [OF assms(2,4) ne assms(3)]
    by (intro exI [of _ False] exI [of _ "hung port dest x d k"]) simp
qed

theorem circularity_correct_witness:
  "\<exists>k'. ipc_port_check_circularity True 16 8 sample_kern = Some (False, k') \<and> transit k' = {(16, 8)}"
proof -
  obtain r k' where c: "ipc_port_check_circularity True 16 8 sample_kern = Some (r, k')"
    "r = ((8, 16) \<in> (transit sample_kern)\<^sup>*)" "if r then k' = sample_kern else transit k' = insert (16, 8) (transit sample_kern) \<and>
       port_get k' 8 = Some (sample_port\<lparr>ip_references := ip_references sample_port + 1\<rparr>)"
    using circularity_correct [OF sample_transit_ok sample_ports(2) sample_port_fields(4) sample_ports(1), of True] by blast
  have "\<not> r" using c(2) by (simp add: sample_transit)
  thus ?thesis using c by (auto simp: sample_transit)
qed

section \<open>Counting rights\<close>

text \<open>C16. Any sequence of operations on the naked rights of an active port that only copies and
  releases rights that exist runs without a failed assertion, and the port's counts of send rights,
  send-once rights and references stay exact. The notification of the port registered for no-senders
  is assumed not to change this port.\<close>

theorem rights_counted:
  assumes "rights_inv p s so r k" "right_steps ops (s, so) (s', so')" "s + so + r + length ops < 2 ^ 32" "ns_quiet calls p k"
  shows "\<exists>k'. performs calls p ops k = Some k' \<and> rights_inv p s' so' r k'"
  using rights_run_ok [OF assms(2) refl refl assms(1,3,4)] .

theorem rights_counted_witness:
  "\<exists>k'. performs (\<lambda>ev k. k) 8 [Make_send, Copy_send, Make_sonce, Release_send] sample_kern = Some k' \<and>
     rights_inv 8 1 1 1 k'"
proof -
  have "right_steps [Make_send, Copy_send, Make_sonce, Release_send] (0, 0) (1, 1)"
    by (intro right_steps_Cons [where c' = "(1, 0)"] right_steps_Cons [where c' = "(2, 0)"]
        right_steps_Cons [where c' = "(2, 1)"] right_steps_Cons [where c' = "(1, 1)"] right_steps_Nil)
      (simp_all add: right_step.simps numeral_2_eq_2)
  moreover have "rights_inv 8 0 0 1 sample_kern" by (simp add: rights_inv_def sample_port_def)
  ultimately show ?thesis
    using rights_counted [of 8 0 0 1 sample_kern "[Make_send, Copy_send, Make_sonce, Release_send]" 1 1 "\<lambda>ev k. k"]
    by (simp add: ns_quiet_def quiet_def)
qed

text \<open>C17. Releasing a send right of an active port takes one right and one reference; the
  no-senders notification, with the make-send count, is sent exactly when this was the last send
  right and a request is registered, and the request is then used up.\<close>

theorem no_senders_once:
  assumes "port_get k p = Some x" "ip_active x" "0 < ip_srights x" "ns_quiet calls p k"
  shows "\<exists>k'. ipc_port_release_send calls p k = Some k' \<and>
    (if ip_srights x = 1 \<and> ip_nsrequest x \<noteq> 0
     then port_get k' p = Some (x\<lparr>ip_references := ip_references x - 1, ip_srights := 0, ip_nsrequest := 0\<rparr>) \<and>
       k' = call calls (Notify_no_senders (ip_nsrequest x) (ip_mscount x))
         (put_port p (x\<lparr>ip_references := ip_references x - 1, ip_srights := 0, ip_nsrequest := 0\<rparr>) k)
     else k' = put_port p (x\<lparr>ip_references := ip_references x - 1, ip_srights := ip_srights x - 1\<rparr>) k)"
proof (cases "ip_srights x = 1 \<and> ip_nsrequest x \<noteq> 0")
  case True
  hence "quiet calls (ip_nsrequest x) p" using assms(1,4) by (auto simp: ns_quiet_def)
  thus ?thesis using True assms port_get_valid [OF assms(1)] by (simp add: release_send_eq Let_def quiet_call)
next
  case False
  thus ?thesis using assms by (auto simp: release_send_eq Let_def)
qed

theorem no_senders_once_witness:
  "\<exists>k'. ipc_port_release_send (\<lambda>ev k. k) 8
      (put_port 8 (sample_port\<lparr>ip_references := 2, ip_srights := 1, ip_mscount := 7, ip_nsrequest := 16\<rparr>) sample_kern) = Some k' \<and>
     k_events k' = [Notify_no_senders 16 7]"
proof -
  let ?x = "sample_port\<lparr>ip_references := 2, ip_srights := 1, ip_mscount := 7, ip_nsrequest := 16\<rparr>"
  let ?k = "put_port 8 ?x sample_kern"
  obtain k' where "ipc_port_release_send (\<lambda>ev k. k) 8 ?k = Some k'"
    "k' = call (\<lambda>ev k. k) (Notify_no_senders 16 7) (put_port 8 (?x\<lparr>ip_references := 1, ip_srights := 0, ip_nsrequest := 0\<rparr>) ?k)"
    using no_senders_once [of ?k 8 ?x "\<lambda>ev k. k"] by (auto simp: ns_quiet_def quiet_def)
  thus ?thesis by (simp add: call_def sample_kern_def)
qed

section \<open>Dead-name requests\<close>

text \<open>C18. Registering a dead-name request uses a free slot and disturbs no other request;
  cancelling it returns the registered right, restores the requests, and frees the slot. When no
  slot is free the registration fails with KERN_NO_SPACE and changes nothing.\<close>

theorem dnrequest_roundtrip:
  assumes "port_get k p = Some x" "ip_active x" "ip_dnrequests x = Some t" "dn_inv t fs"
    "name \<noteq> MACH_PORT_NULL" "soright \<noteq> 0"
  shows "case fs of
      [] \<Rightarrow> ipc_port_dnrequest p name soright k = Some (Inl KERN_NO_SPACE, k)
    | f # fs' \<Rightarrow> \<exists>k1 t1 k2 t2. ipc_port_dnrequest p name soright k = Some (Inr f, k1) \<and>
        port_get k1 p = Some (x\<lparr>ip_dnrequests := Some t1\<rparr>) \<and> dn_inv t1 fs' \<and>
        dn_map t f = None \<and> dn_map t1 = (dn_map t)(f \<mapsto> (name, soright)) \<and>
        ipc_port_dncancel p name f k1 = Some (soright, k2) \<and>
        port_get k2 p = Some (x\<lparr>ip_dnrequests := Some t2\<rparr>) \<and> dn_inv t2 fs \<and> dn_map t2 = dn_map t"
proof (cases fs)
  case Nil
  thus ?thesis using dnrequest_eq [OF assms] by simp
next
  case (Cons f fs')
  let ?t1 = "requested f name soright t"
  let ?k1 = "put_port p (x\<lparr>ip_dnrequests := Some ?t1\<rparr>) k"
  note v = port_get_valid [OF assms(1)]
  have t1: "dn_inv ?t1 fs'" "dn_map ?t1 = (dn_map t)(f \<mapsto> (name, soright))" "dn_map t f = None"
    using assms Cons by (simp_all add: requested_ok requested_map)
  have "ipc_port_dncancel p name f ?k1 =
      Some (soright, put_port p (x\<lparr>ip_dnrequests := Some (cancelled f ?t1)\<rparr>) ?k1)"
    using dncancel_eq [of ?k1 p "x\<lparr>ip_dnrequests := Some ?t1\<rparr>" ?t1 fs' f name soright] v assms t1 by simp
  moreover have "dn_inv (cancelled f ?t1) fs" "dn_map (cancelled f ?t1) = dn_map t"
    using cancelled_ok [OF t1(1), of f "(name, soright)"] t1 Cons by (auto simp: fun_upd_idem)
  moreover have "ipc_port_dnrequest p name soright k = Some (Inr f, ?k1)"
    using dnrequest_eq [OF assms] Cons by simp
  ultimately show ?thesis unfolding Cons list.case using v t1 Cons
    by (intro exI [of _ ?k1] exI [of _ ?t1]
        exI [of _ "put_port p (x\<lparr>ip_dnrequests := Some (cancelled f ?t1)\<rparr>) ?k1"] exI [of _ "cancelled f ?t1"] conjI) simp_all
qed

definition sample_table :: dn_table where
  "sample_table = \<lparr>dn_addr = 0x2000, ipr_size = 0, dn_slots =
     [\<lparr>ipr_notify = 2, ipr_name = 0\<rparr>, \<lparr>ipr_notify = 16, ipr_name = 5\<rparr>, \<lparr>ipr_notify = 0, ipr_name = 0\<rparr>]\<rparr>"

lemma sample_table_inv: "dn_inv sample_table [2]"
  by (auto simp: dn_inv_def free_list_def sample_table_def MACH_PORT_NULL_def less_Suc_eq numeral_3_eq_3)

theorem dnrequest_roundtrip_witness:
  "\<exists>k1 k2. ipc_port_dnrequest 8 7 16 (put_port 8 (sample_port\<lparr>ip_dnrequests := Some sample_table\<rparr>) sample_kern) =
       Some (Inr 2, k1) \<and> ipc_port_dncancel 8 7 2 k1 = Some (16, k2)"
  using dnrequest_roundtrip [of "put_port 8 (sample_port\<lparr>ip_dnrequests := Some sample_table\<rparr>) sample_kern" 8
      "sample_port\<lparr>ip_dnrequests := Some sample_table\<rparr>" sample_table "[2]" 7 16] sample_table_inv
  by (auto simp: MACH_PORT_NULL_def)

text \<open>C19. Growing a port's table of dead-name requests, or giving it a first one, keeps every
  request under its index and adds the new elements to the free list, so that the next registration
  succeeds.\<close>

theorem dngrow_correct:
  assumes "port_get k p = Some x" "ip_active x" "\<forall>k. port_get (step k) p = port_get k p"
    "t = (case ip_dnrequests x of None \<Rightarrow> no_requests | Some t \<Rightarrow> t)" "dn_inv t fs"
    "its = (case ip_dnrequests x of None \<Rightarrow> 0 | Some t \<Rightarrow> ipr_size t + 1)"
    "its_get dnsizes its = Some sz" "length (dn_slots t) < unat sz"
    "case ip_dnrequests x of None \<Rightarrow> True | Some t \<Rightarrow> its_get dnsizes (ipr_size t) = Some (of_nat (length (dn_slots t)))"
    "ntable \<noteq> 0" "name \<noteq> MACH_PORT_NULL" "soright \<noteq> 0"
  shows "\<exists>k' t' k''. ipc_port_dngrow dnsizes step ntable p k = Some (KERN_SUCCESS, k') \<and>
    port_get k' p = Some (x\<lparr>ip_dnrequests := Some t'\<rparr>) \<and> dn_map t' = dn_map t \<and>
    dn_inv t' (map of_nat (rev [length (dn_slots t)..<unat sz]) @ fs) \<and>
    ipc_port_dnrequest p name soright k' = Some (Inr (sz - 1), k'')"
proof -
  let ?fs = "map of_nat (rev [length (dn_slots t)..<unat sz]) @ fs"
  obtain k' t' where g: "ipc_port_dngrow dnsizes step ntable p k = Some (KERN_SUCCESS, k')"
    "port_get k' p = Some (x\<lparr>ip_dnrequests := Some t'\<rparr>)" "dn_map t' = dn_map t" "dn_inv t' ?fs"
    using dngrow_ok [OF assms(1-10)] by blast
  have "rev [length (dn_slots t)..<unat sz] = (unat sz - 1) # rev [length (dn_slots t)..<unat sz - 1]"
    using assms(8) by (cases "unat sz") auto
  hence "?fs = (sz - 1) # map of_nat (rev [length (dn_slots t)..<unat sz - 1]) @ fs"
    using assms(8) by (simp add: of_nat_diff)
  hence "ipc_port_dnrequest p name soright k' = Some (Inr (sz - 1),
      put_port p (x\<lparr>ip_dnrequests := Some (requested (sz - 1) name soright t')\<rparr>) k')"
    using dnrequest_eq [OF g(2) _ _ g(4) assms(11,12)] assms(2) by simp
  thus ?thesis using g by blast
qed

theorem dngrow_correct_witness:
  "\<exists>k' k''. ipc_port_dngrow [2, 4, 8] id 0x3000 8 sample_kern = Some (KERN_SUCCESS, k') \<and>
     ipc_port_dnrequest 8 7 16 k' = Some (Inr 1, k'')"
  using dngrow_correct [where k = sample_kern and p = 8 and x = sample_port and step = id and t = no_requests and
      fs = "[]" and its = 0 and dnsizes = "[2, 4, 8]" and sz = 2 and ntable = "0x3000" and name = 7 and soright = 16]
  by (auto simp: no_requests sample_port_def its_get_def MACH_PORT_NULL_def)

section \<open>Destruction\<close>

text \<open>C20. Destroying an active port without a backup request (\<open>ip_pdrequest\<close> is null) wakes the
  blocked senders in order, returns the no-senders right, destroys the queued messages in order, sends
  the dead-name notifications in the order of the table, frees the table, tells the kernel object,
  and gives back the caller's reference. The code called meanwhile may give back rights it holds for
  the dead port, \<open>gives ev\<close> references in the call \<open>ev\<close>, one for instance when the
  object of a pager is destroyed. The port is dead and carries the timestamp of its death, its queues
  are empty, its references are fewer by one for each message, those given back by the calls and the
  caller's, and it is freed exactly when no reference is left.\<close>

theorem destroy_correct:
  assumes "only_releases calls p gives (destroy_calls p x) (imq_messages (ip_messages x))"
    "port_get k p = Some x" "destroyable dnsizes gives p x k"
    "ip_active x" "ip_pset x = 0" "ip_mscount x = 0" "ip_seqno x = 0" "ip_pdrequest x = 0"
  shows "\<exists>k'. ipc_port_destroy calls dnsizes tr p k = Some k' \<and>
    k_events k' = k_events k @ destroy_events p x \<and>
    (if unat (ip_references x) = refs_given gives p x + 1 then port_get k' p = None
     else \<exists>y. port_get k' p = Some y \<and> \<not> ip_active y \<and> ip_timestamp y = k_timestamp k \<and>
       unat (ip_references y) = unat (ip_references x) - (refs_given gives p x + 1) \<and>
       ip_messages y = ipc_mqueue_init \<and> ip_blocked y = [])"
proof -
  let ?n = "refs_given gives p x"
  obtain k1 so where k: "destroy_port calls dnsizes p k = ipc_port_release p k1"
    "k_events k1 = k_events k @ destroy_events p x"
    "port_get k1 p = Some (dead_port (k_timestamp k) x ipc_mqueue_init so ?n)"
    using destroy_port_ok [OF assms(1-3)] by blast
  let ?y = "dead_port (k_timestamp k) x ipc_mqueue_init so ?n"
  have n: "?n < unat (ip_references x)" using assms(3) by (simp add: destroyable_def)
  hence u: "unat (ip_references ?y) = unat (ip_references x) - ?n" using unat_minus_of_nat by simp
  hence pos: "0 < unat (ip_references ?y)" using n by simp
  obtain k' where k': "ipc_port_release p k1 = Some k'" "k_events k' = k_events k1"
    "port_get k' p = (if ip_references ?y = 1 then None else Some (?y\<lparr>ip_references := ip_references ?y - 1\<rparr>))"
    using port_release_last [OF k(3) pos] by blast
  have one: "ip_references ?y = 1 \<longleftrightarrow> unat (ip_references x) = ?n + 1"
    using u n by (simp only: word_unat_eq_iff) auto
  have "unat (ip_references ?y - 1) = unat (ip_references x) - (?n + 1)"
    using u pos unat_minus_of_nat [of 1 "ip_references ?y"] by simp
  moreover have "ipc_port_destroy calls dnsizes tr p k = Some k'"
    using assms k(1) k'(1) by (simp add: ipc_port_destroy_def)
  moreover have "\<not> ip_active ?y" "ip_timestamp ?y = k_timestamp k" "ip_messages ?y = ipc_mqueue_init" "ip_blocked ?y = []"
    by simp_all
  ultimately show ?thesis using k(2) k'(2,3) one
    by (cases "ip_references ?y = 1") (simp_all del: dead_port_simps)
qed

text \<open>A pager port with blocked senders, a no-senders request, a queued message and a dead-name
  request. Destroying its object gives back the send right that the object holds.\<close>

definition dying_port :: ipc_port where
  "dying_port = sample_port\<lparr>ip_references := 4, ip_bits := IO_BITS_ACTIVE OR 8, ip_blocked := [32, 40],
     ip_dnrequests := Some sample_table, ip_nsrequest := 16, ip_messages := \<lparr>imq_messages = [72], imq_threads = []\<rparr>\<rparr>"

definition dying_kern :: kern where
  "dying_kern = put_port 8 dying_port (put_kmsg 72
     \<lparr>msgh_bits = 0, msgh_size = 24, msgh_remote_port = 8, msgh_local_port = 0, ikm_marequest = 0\<rparr> sample_kern)"

definition pager_calls :: calls where
  "pager_calls ev k = (if ev = Kobject_destroy 8 then
     (case port_get k 8 of Some y \<Rightarrow> put_port 8 (y\<lparr>ip_references := ip_references y - 1\<rparr>) k | None \<Rightarrow> k) else k)"

definition pager_gives :: "event \<Rightarrow> nat" where
  "pager_gives ev = (if ev = Kobject_destroy 8 then 1 else 0)"

lemma pager_only_releases: "only_releases pager_calls 8 pager_gives evs ms"
  unfolding only_releases_def
proof (intro ballI allI conjI impI, goal_cases)
  case (3 ev k y)
  thus ?case by (intro exI [of _ "ip_sorights y"]) (simp add: pager_calls_def pager_gives_def)
qed (simp_all add: pager_calls_def put_port_def split: option.split)

lemma dying_active: "ip_active dying_port" "io_kotype (ip_bits dying_port) = 8"
  by (simp_all add: dying_port_def io_active_def io_kotype_def IO_BITS_ACTIVE_def IO_BITS_KOTYPE_def)

theorem destroy_correct_witness:
  "\<exists>k' y. ipc_port_destroy pager_calls [3] True 8 dying_kern = Some k' \<and>
     k_events k' = [Thread_go 32, Thread_go 40, Notify_send_once 16, Kmsg_destroy 72, Notify_dead_name 16 5,
       Dnrequests_free 0 0x2000, Kobject_destroy 8] \<and>
     port_get k' 8 = Some y \<and> \<not> ip_active y \<and> unat (ip_references y) = 1"
proof -
  have c: "destroy_calls 8 dying_port = [Notify_send_once 16, Kmsg_destroy 72, Notify_dead_name 16 5, Kobject_destroy 8]"
    "destroy_events 8 dying_port = [Thread_go 32, Thread_go 40, Notify_send_once 16, Kmsg_destroy 72, Notify_dead_name 16 5,
       Dnrequests_free 0 0x2000, Kobject_destroy 8]"
    using dying_active(2) unfolding destroy_calls_def destroy_events_def ns_calls_def dn_calls_def ko_calls_def
    by (simp_all add: dying_port_def sample_table_def dn_notice.simps MACH_PORT_NULL_def ipr_spacep_def IKOT_NONE_def)
  have g: "refs_given pager_gives 8 dying_port = 2"
    by (simp add: refs_given_def c pager_gives_def) (simp add: dying_port_def)
  have d: "destroyable [3] pager_gives 8 dying_port dying_kern"
    unfolding destroyable_def g
    by (simp add: dying_port_def dying_kern_def sample_port_def sample_table_def its_get_def sample_kern_def MACH_PORT_NULL_def)
  have p: "port_get dying_kern 8 = Some dying_port" by (simp add: dying_kern_def)
  have f: "ip_pset dying_port = 0" "ip_mscount dying_port = 0" "ip_seqno dying_port = 0" "ip_pdrequest dying_port = 0"
    "unat (ip_references dying_port) = 4" "k_events dying_kern = []"
    by (simp_all add: dying_port_def sample_port_def dying_kern_def sample_kern_def put_port_def put_kmsg_def)
  from destroy_correct [OF pager_only_releases p d dying_active(1) f(1-4), of True] g f(5,6) c(2)
  show ?thesis by auto
qed

section \<open>Queue limit and timestamps\<close>

lemma wake_senders_ok:
  "port_get k p = Some x \<Longrightarrow> \<forall>th\<in>set (ip_blocked x). k_threads k th \<noteq> None \<Longrightarrow>
   wake_senders n p k = Some (woken MACH_MSG_SUCCESS (take n (ip_blocked x))
     (put_port p (x\<lparr>ip_blocked := drop n (ip_blocked x)\<rparr>) k))"
proof (induction n arbitrary: k x)
  case 0
  hence "put_port p x k = k" by (auto simp: put_port_def port_get_def fun_upd_idem split: if_splits)
  thus ?case by (simp add: woken_def)
next
  case (Suc n)
  note v = port_get_valid [OF Suc.prems(1)]
  show ?case
  proof (cases "ip_blocked x")
    case Nil
    hence "put_port p (x\<lparr>ip_blocked := []\<rparr>) k = k"
      using Suc.prems(1) by (cases x) (auto simp: put_port_def port_get_def fun_upd_idem split: if_splits)
    thus ?thesis using Nil Suc.prems(1) by (simp add: woken_def)
  next
    case (Cons th ths)
    then obtain t where t: "k_threads k th = Some t" using Suc.prems(2) by auto
    let ?y = "x\<lparr>ip_blocked := ths\<rparr>"
    let ?k = "thread_go th (put_thread th (t\<lparr>ith_state := MACH_MSG_SUCCESS\<rparr>) (put_port p ?y k))"
    have "wake_senders n p ?k = Some (woken MACH_MSG_SUCCESS (take n ths) (put_port p (?y\<lparr>ip_blocked := drop n ths\<rparr>) ?k))"
      using Suc.IH [of ?k ?y] Suc.prems(2) Cons v by simp
    moreover have "woken MACH_MSG_SUCCESS (take n ths) (put_port p (?y\<lparr>ip_blocked := drop n ths\<rparr>) ?k) =
        woken MACH_MSG_SUCCESS (th # take n ths) (put_port p (x\<lparr>ip_blocked := drop n ths\<rparr>) k)"
      using t by (auto simp: woken_def thread_go_def log_event_def put_thread_def put_port_def fun_eq_iff)
    ultimately show ?thesis using Cons t Suc.prems(1) by simp
  qed
qed

text \<open>C21. Raising the queue limit of a port wakes as many of the blocked senders as slots are
  added, the longest waiting first, and leaves the others waiting in order; lowering it wakes
  nobody.\<close>

theorem set_qlimit_correct:
  assumes "port_get k p = Some x" "ip_active x" "\<forall>th\<in>set (ip_blocked x). k_threads k th \<noteq> None"
  shows "\<exists>k'. ipc_port_set_qlimit p qlimit k = Some k' \<and>
    (let n = unat qlimit - unat (ip_qlimit x)
     in port_get k' p = Some (x\<lparr>ip_qlimit := qlimit, ip_blocked := drop n (ip_blocked x)\<rparr>) \<and>
        k_events k' = k_events k @ map Thread_go (take n (ip_blocked x)) \<and>
        (\<forall>th\<in>set (take n (ip_blocked x)). \<exists>t. k_threads k' th = Some t \<and> ith_state t = MACH_MSG_SUCCESS))"
proof (cases "ip_qlimit x < qlimit")
  case True
  let ?n = "unat qlimit - unat (ip_qlimit x)"
  let ?k = "woken MACH_MSG_SUCCESS (take ?n (ip_blocked x)) (put_port p (x\<lparr>ip_blocked := drop ?n (ip_blocked x)\<rparr>) k)"
  let ?k' = "put_port p (x\<lparr>ip_blocked := drop ?n (ip_blocked x), ip_qlimit := qlimit\<rparr>) ?k"
  have u: "unat (qlimit - ip_qlimit x) = ?n" using True by (intro unat_sub) simp
  note v = port_get_valid [OF assms(1)]
  have "ipc_port_set_qlimit p qlimit k = Some ?k'"
    using assms(1,2) True u wake_senders_ok [OF assms(1,3), of ?n] v by (simp add: ipc_port_set_qlimit_def)
  moreover have "\<exists>t. k_threads ?k' th = Some t \<and> ith_state t = MACH_MSG_SUCCESS" if th: "th \<in> set (take ?n (ip_blocked x))" for th
  proof -
    obtain t where "k_threads k th = Some t" using in_set_takeD [OF th] assms(3) by blast
    thus ?thesis using th by (simp add: woken_def)
  qed
  ultimately show ?thesis using v by (intro exI [of _ ?k']) (simp add: Let_def)
next
  case False
  hence "unat qlimit - unat (ip_qlimit x) = 0" by (simp add: word_less_nat_alt)
  thus ?thesis using assms False port_get_valid [OF assms(1)] by (simp add: ipc_port_set_qlimit_def Let_def)
qed

theorem set_qlimit_correct_witness:
  "\<exists>k'. ipc_port_set_qlimit 8 6 (put_port 8 (sample_port\<lparr>ip_blocked := [32, 40]\<rparr>) sample_kern) = Some k' \<and>
     k_events k' = [Thread_go 32]"
  using set_qlimit_correct [of "put_port 8 (sample_port\<lparr>ip_blocked := [32, 40]\<rparr>) sample_kern" 8
      "sample_port\<lparr>ip_blocked := [32, 40]\<rparr>" 6]
  by (auto simp: sample_kern_def sample_port_def MACH_PORT_QLIMIT_DEFAULT_def Let_def)

text \<open>C22. Timestamps order the deaths of ports as long as fewer than \<open>2 ^ 31\<close> lie between
  them, also when the counter wraps around: of two timestamps drawn \<open>n\<close> draws apart, the first
  is before the second and not the other way round.\<close>

theorem timestamp_order:
  assumes "0 < n" "n < 2 ^ 31"
  shows "let k' = ((\<lambda>k. snd (ipc_port_timestamp k)) ^^ n) k
    in IP_TIMESTAMP_ORDER (fst (ipc_port_timestamp k)) (fst (ipc_port_timestamp k')) \<and>
       \<not> IP_TIMESTAMP_ORDER (fst (ipc_port_timestamp k')) (fst (ipc_port_timestamp k))"
proof -
  have f: "fst (ipc_port_timestamp k) = k_timestamp k" for k by (simp add: ipc_port_timestamp_def)
  have t: "k_timestamp (((\<lambda>k. snd (ipc_port_timestamp k)) ^^ n) k) = k_timestamp k + of_nat n" for n
    by (induction n) (simp_all add: ipc_port_timestamp_def)
  have n: "unat (of_nat n :: u32) = n" using assms by (simp add: unat_of_nat32)
  have "sint (of_nat n :: u32) = int n"
    using assms by (simp add: signed_of_nat signed_take_bit_int_eq_self)
  moreover have "sint (- of_nat n :: u32) = - int n"
  proof -
    have "(- of_nat n :: u32) = of_int (- int n)" by simp
    thus ?thesis using assms by (simp only: signed_of_int) (simp add: signed_take_bit_int_eq_self)
  qed
  ultimately show ?thesis using assms by (simp add: f t IP_TIMESTAMP_ORDER_def Let_def)
qed

theorem timestamp_order_witness:
  "IP_TIMESTAMP_ORDER (- 1) 0"
  using timestamp_order [of 1 "sample_kern\<lparr>k_timestamp := - 1\<rparr>"]
  by (simp add: ipc_port_timestamp_def Let_def)

end
