(* ===== verification/Msg_Props.thy ===== *)
theory Msg_Props
  imports Msg_Correct Port_Props
begin

text \<open>
  The properties of message queues and port sets: first in, first out; hand-over to waiting
  receivers; sleeping and waking of senders; messages follow their port into and out of a set.
\<close>

section \<open>Concrete states\<close>

definition sample_msg :: ipc_kmsg where
  "sample_msg = \<lparr>msgh_bits = 17, msgh_size = 32, msgh_remote_port = 8, msgh_local_port = 0, ikm_marequest = 0\<rparr>"

definition sample_pset :: ipc_pset where
  "sample_pset = \<lparr>ips_references = 1, ips_bits = IO_BITS_ACTIVE, ips_local_name = 9, ips_messages = ipc_mqueue_init\<rparr>"

text \<open>Two messages for the port at 8, one of them queued; a port set.\<close>

definition queue_port :: ipc_port where
  "queue_port = sample_port\<lparr>ip_msgcount := 1, ip_messages := \<lparr>imq_messages = [64], imq_threads = []\<rparr>\<rparr>"

definition queue_kern :: kern where
  "queue_kern = sample_kern\<lparr>k_ports := [8 \<mapsto> queue_port], k_psets := [24 \<mapsto> sample_pset],
     k_kmsgs := [64 \<mapsto> sample_msg, 72 \<mapsto> sample_msg]\<rparr>"

lemma queue_state [simp]:
  "port_get queue_kern 8 = Some queue_port" "pset_get queue_kern 24 = Some sample_pset"
  "k_kmsgs queue_kern 64 = Some sample_msg" "k_kmsgs queue_kern 72 = Some sample_msg"
  "k_threads queue_kern 32 = Some sample_thread" "k_threads queue_kern 40 = Some sample_thread"
  by (simp_all add: port_get_def pset_get_def queue_kern_def sample_kern_def)

lemma sample_sendable [simp]: "sendable queue_kern 8 64 sample_msg" "sendable queue_kern 8 72 sample_msg"
  by (simp_all add: sendable_def sample_msg_def MACH_MSGH_BITS_CIRCULAR_def)

lemma queue_port_plain [simp]: "plain_port 0x5000 queue_kern 8 queue_port"
  by (simp add: plain_port_def queue_port_def sample_port_def)

section \<open>Sending and receiving\<close>

text \<open>C23. A message sent to a live port with room goes to the end of its queue without blocking
  and is counted; a receive on the port with a large enough buffer then returns the first message of
  the queue with the port's next sequence number, and keeps the order of the rest.\<close>

theorem send_receive_fifo:
  assumes "plain_port kspace k p x" "sendable k p m km" "ikm_marequest km = 0" "ip_msgcount x + 1 \<noteq> 0"
    "imq_threads (ip_messages x) = []" "ip_blocked x = []" "send_now opt km x"
    "imq_messages (ip_messages x) @ [m] = m0 # rest" "sendable k p m0 km0" "ikm_marequest km0 = 0" "msgh_size km0 \<le> max_size"
  shows "\<exists>k1 k2. ipc_mqueue_send kspace calls server self m opt time_out ws k = Some (Returned MACH_MSG_SUCCESS, k1) \<and>
    port_get k1 p = Some (queued m x) \<and>
    ipc_mqueue_receive calls cont rcv (Port_mqueue p) ropt max_size rtime False rws k1 =
      Some (Returned (Received m0 (ip_seqno x)), k2) \<and>
    port_get k2 p = Some (x\<lparr>ip_messages := (ip_messages x)\<lparr>imq_messages := rest\<rparr>, ip_seqno := ip_seqno x + 1\<rparr>)"
proof -
  let ?k1 = "put_port p (queued m x) k"
  have x: "port_get k p = Some x" "ip_active x" using assms(1) by (simp_all add: plain_port_def)
  note v = port_get_valid [OF x(1)]
  have s: "ipc_mqueue_send kspace calls server self m opt time_out ws k = Some (Returned MACH_MSG_SUCCESS, ?k1)"
    by (rule send_ok [OF assms(1,2,4,5,7)])
  have "ipc_mqueue_receive calls cont rcv (Port_mqueue p) ropt max_size rtime False rws ?k1 =
      Some (Returned (Received m0 (ip_seqno (queued m x))), received p rest (queued m x) ?k1)"
    by (rule receive_ok [where km = km0])
      (use x v assms in \<open>simp_all add: queued_def sendable_def word_gt_0\<close>)
  moreover have "port_get (received p rest (queued m x) ?k1) p =
      Some (x\<lparr>ip_messages := (ip_messages x)\<lparr>imq_messages := rest\<rparr>, ip_seqno := ip_seqno x + 1\<rparr>)"
    using assms(6) v by (simp add: received_def queued_def dequeued_def)
  ultimately show ?thesis using s v by (simp add: queued_def)
qed

theorem send_receive_fifo_witness:
  "\<exists>k1 k2. ipc_mqueue_send 0x5000 (\<lambda>ev k. k) (\<lambda>m k. (0, k)) 32 72 0 0 [] queue_kern = Some (Returned MACH_MSG_SUCCESS, k1) \<and>
     ipc_mqueue_receive (\<lambda>ev k. k) False 40 (Port_mqueue 8) 0 100 0 False [] k1 = Some (Returned (Received 64 0), k2) \<and>
     map_option (imq_messages \<circ> ip_messages) (port_get k2 8) = Some [72]"
proof -
  have a: "send_now 0 sample_msg queue_port" "msgh_size sample_msg \<le> 100" "ikm_marequest sample_msg = 0"
    "ip_msgcount queue_port + 1 \<noteq> 0" "imq_threads (ip_messages queue_port) = []" "ip_blocked queue_port = []"
    "imq_messages (ip_messages queue_port) @ [72] = 64 # [72]" "ip_seqno queue_port = 0"
    by (simp_all add: send_now_def queue_port_def sample_port_def sample_msg_def MACH_PORT_QLIMIT_DEFAULT_def)
  show ?thesis
    using send_receive_fifo [OF queue_port_plain sample_sendable(2) a(3-6,1,7) sample_sendable(1) a(3,2),
        where calls = "\<lambda>ev k. k" and server = "\<lambda>m k. (0, k)" and self = 32 and time_out = 0 and ws = "[]" and
        cont = False and rcv = 40 and ropt = 0 and rtime = 0 and rws = "[]"] a(8)
    by auto
qed

text \<open>C24. Threads waiting on a queue are served before the message is queued: the receivers with
  too small a buffer, in front, are woken with its size and the code MACH_RCV_TOO_LARGE; the first
  with room is woken with the message and the port's next sequence number; those behind it keep
  waiting. The message is queued only if no receiver can take it.\<close>

theorem deliver_correct:
  assumes "mq_get k mq = Some q" "imq_messages q = []" "k_kmsgs k m = Some km" "distinct (imq_threads q)"
    "\<forall>th\<in>set (imq_threads q). k_threads k th \<noteq> None" "port_get k port = Some x"
    "imq_threads q = small @ rest" "\<forall>th\<in>set small. too_small k (msgh_size km) th"
    "rest = [] \<or> \<not> too_small k (msgh_size km) (hd rest)"
  shows "\<exists>k' q'. deliver mq port m k = Some k' \<and> mq_get k' mq = Some q' \<and>
    imq_threads q' = tl rest \<and> imq_messages q' = (if rest = [] then [m] else []) \<and>
    (\<forall>th\<in>set small. \<exists>t. k_threads k' th = Some t \<and> ith_state t = MACH_RCV_TOO_LARGE \<and> ith_msize t = msgh_size km) \<and>
    (rest \<noteq> [] \<longrightarrow> (\<exists>t. k_threads k' (hd rest) = Some t \<and> ith_state t = MACH_MSG_SUCCESS \<and>
       ith_kmsg t = m \<and> ith_seqno t = ip_seqno x)) \<and>
    k_events k' = k_events k @ map Thread_go (small @ take 1 rest)"
proof -
  let ?sz = "msgh_size km"
  have tw: "takeWhile (too_small k ?sz) (imq_threads q) = small" "dropWhile (too_small k ?sz) (imq_threads q) = rest"
    using assms(7,8,9) by (cases rest; simp add: takeWhile_append dropWhile_append takeWhile_eq_all_conv dropWhile_eq_Nil_conv)+
  have live: "\<exists>t. k_threads k th = Some t" if "th \<in> set (small @ rest)" for th
    using that assms(5,7) by auto
  have dis: "distinct (small @ rest)" using assms(4,7) by simp
  note d = deliver_offers [OF assms(1-6)]
  show ?thesis
  proof (cases rest)
    case Nil
    let ?k = "turned_away ?sz small (put_mq mq (q\<lparr>imq_threads := []\<rparr>) k)"
    have "\<exists>t. k_threads ?k th = Some t \<and> ith_state t = MACH_RCV_TOO_LARGE \<and> ith_msize t = ?sz" if "th \<in> set small" for th
      using that live [of th] turned_away_thread [of th small "put_mq mq (q\<lparr>imq_threads := []\<rparr>) k"] by auto
    thus ?thesis using d tw Nil assms(1,2) by (simp add: offered_def)
  next
    case (Cons th ths)
    let ?k = "turned_away ?sz small (put_mq mq (q\<lparr>imq_threads := ths\<rparr>) k)"
    obtain t where t: "k_threads k th = Some t" using live [of th] Cons by auto
    have th: "th \<notin> set small" using dis Cons by auto
    have kt: "k_threads ?k th = Some t" using t th by simp
    have "port_get ?k port \<noteq> None" using assms(6) by simp
    then obtain y where y: "port_get ?k port = Some y" by blast
    hence "ip_seqno y = ip_seqno x" using assms(6) by (auto split: if_splits)
    note h = handed_simps [OF y kt, of m]
    have "\<exists>t. k_threads (handed port m th ?k) s = Some t \<and> ith_state t = MACH_RCV_TOO_LARGE \<and> ith_msize t = ?sz"
      if s: "s \<in> set small" for s
    proof -
      obtain u where "k_threads k s = Some u" using live [of s] s by auto
      hence "k_threads ?k s = Some (u\<lparr>ith_state := MACH_RCV_TOO_LARGE, ith_data := ?sz\<rparr>)"
        using s by (simp add: turned_away_thread)
      thus ?thesis using s th h(2) by auto
    qed
    thus ?thesis using d tw Cons assms(1,2) h \<open>ip_seqno y = ip_seqno x\<close> by (simp add: offered_def)
  qed
qed

theorem deliver_correct_witness:
  "\<exists>k'. deliver (Port_mqueue 8) 8 72 (put_thread 40 (sample_thread\<lparr>ith_data := 8\<rparr>)
        (put_port 8 (sample_port\<lparr>ip_messages := \<lparr>imq_messages = [], imq_threads = [40, 32]\<rparr>\<rparr>) queue_kern)) = Some k' \<and>
     k_events k' = [Thread_go 40, Thread_go 32]"
proof -
  let ?x = "sample_port\<lparr>ip_messages := \<lparr>imq_messages = [], imq_threads = [40, 32]\<rparr>\<rparr>"
  let ?k = "put_thread 40 (sample_thread\<lparr>ith_data := 8\<rparr>) (put_port 8 ?x queue_kern)"
  have "\<exists>k' q'. deliver (Port_mqueue 8) 8 72 ?k = Some k' \<and> mq_get k' (Port_mqueue 8) = Some q' \<and>
    imq_threads q' = tl [32] \<and> imq_messages q' = (if [32 :: ptr] = [] then [72] else []) \<and>
    (\<forall>th\<in>set [40]. \<exists>t. k_threads k' th = Some t \<and> ith_state t = MACH_RCV_TOO_LARGE \<and> ith_msize t = msgh_size sample_msg) \<and>
    ([32 :: ptr] \<noteq> [] \<longrightarrow> (\<exists>t. k_threads k' (hd [32]) = Some t \<and> ith_state t = MACH_MSG_SUCCESS \<and>
       ith_kmsg t = 72 \<and> ith_seqno t = ip_seqno ?x)) \<and>
    k_events k' = k_events ?k @ map Thread_go ([40] @ take 1 [32])"
    by (rule deliver_correct [where q = "\<lparr>imq_messages = [], imq_threads = [40, 32]\<rparr>"])
      (simp_all add: too_small_def sample_thread_def sample_msg_def)
  thus ?thesis by (auto simp: queue_kern_def sample_kern_def)
qed

text \<open>C25. A sender that finds the queue full goes to sleep at the end of the queue of blocked
  senders; when another thread receives a message and so makes room, the sender wakes, its message
  goes to the end of the queue, and the port is as full as before, with nobody blocked.\<close>

theorem blocked_sender_served:
  assumes "plain_port kspace k p x" "sendable k p m km" "ip_msgcount x = ip_qlimit x" "0 < ip_qlimit x" "ip_blocked x = []"
    "MACH_MSGH_BITS_REMOTE (msgh_bits km) \<noteq> MACH_MSG_TYPE_PORT_SEND_ONCE" "imq_threads (ip_messages x) = []"
    "imq_messages (ip_messages x) = m0 # rest" "sendable k p m0 km0" "ikm_marequest km0 = 0" "msgh_size km0 \<le> max_size"
    "k_threads k self = Some t"
  shows "ipc_mqueue_send kspace calls server self m 0 0 [] k = Some (Asleep, asleep self p x t k) \<and>
    (\<exists>k'. ipc_mqueue_send kspace calls server self m 0 0 [receive_step calls rcv p max_size] k =
        Some (Returned MACH_MSG_SUCCESS, k') \<and>
      port_get k' p = Some (x\<lparr>ip_messages := (ip_messages x)\<lparr>imq_messages := rest @ [m]\<rparr>, ip_seqno := ip_seqno x + 1\<rparr>) \<and>
      k_events k' = k_events k @ [Thread_go self])"
proof
  have "\<not> send_now 0 km x" using assms(3,6) by (simp add: send_now_def)
  thus "ipc_mqueue_send kspace calls server self m 0 0 [] k = Some (Asleep, asleep self p x t k)"
    by (rule send_sleeps [OF assms(1,2) _ assms(12)]) simp
  have v: "IP_VALID p" using assms(1) by (auto simp: plain_port_def dest: port_get_valid)
  show "\<exists>k'. ipc_mqueue_send kspace calls server self m 0 0 [receive_step calls rcv p max_size] k =
        Some (Returned MACH_MSG_SUCCESS, k') \<and>
      port_get k' p = Some (x\<lparr>ip_messages := (ip_messages x)\<lparr>imq_messages := rest @ [m]\<rparr>, ip_seqno := ip_seqno x + 1\<rparr>) \<and>
      k_events k' = k_events k @ [Thread_go self]"
    using blocked_send_ok [OF assms, of calls server rcv] v word_pred_less [OF assms(4)] assms(3)
    by (auto simp: queued_def dequeued_def received_def asleep_def)
qed

text \<open>A full port, of limit 1.\<close>

definition full_port :: ipc_port where
  "full_port = queue_port\<lparr>ip_qlimit := 1\<rparr>"

theorem blocked_sender_served_witness:
  "\<exists>k'. ipc_mqueue_send 0x5000 (\<lambda>ev k. k) (\<lambda>m k. (0, k)) 32 72 0 0 [receive_step (\<lambda>ev k. k) 40 8 100]
        (put_port 8 full_port queue_kern) = Some (Returned MACH_MSG_SUCCESS, k') \<and>
     map_option (imq_messages \<circ> ip_messages) (port_get k' 8) = Some [72]"
proof -
  let ?k = "put_port 8 full_port queue_kern"
  have a: "plain_port 0x5000 ?k 8 full_port" "sendable ?k 8 72 sample_msg" "ip_msgcount full_port = ip_qlimit full_port"
    "0 < ip_qlimit full_port" "ip_blocked full_port = []"
    "MACH_MSGH_BITS_REMOTE (msgh_bits sample_msg) \<noteq> MACH_MSG_TYPE_PORT_SEND_ONCE"
    "imq_threads (ip_messages full_port) = []" "imq_messages (ip_messages full_port) = 64 # []"
    "sendable ?k 8 64 sample_msg" "ikm_marequest sample_msg = 0" "msgh_size sample_msg \<le> 100"
    "k_threads ?k 32 = Some sample_thread"
    by (simp_all add: plain_port_def sendable_def full_port_def queue_port_def sample_port_def sample_msg_def
        MACH_MSGH_BITS_CIRCULAR_def MACH_MSGH_BITS_REMOTE_def MACH_MSG_TYPE_PORT_SEND_ONCE_def)
  show ?thesis
    using blocked_sender_served [OF a, where calls = "\<lambda>ev k. k" and server = "\<lambda>m k. (0, k)" and rcv = 40] by auto
qed

section \<open>Port sets\<close>

text \<open>C26. Putting a port into a port set appends its messages to those of the set, wakes its
  receivers with MACH_RCV_PORT_CHANGED and takes a reference to the set; taking it out again gives
  back the port's messages in their order, leaves the messages of the other members in theirs, and
  returns the reference.\<close>

theorem pset_roundtrip:
  assumes "pset_get k s = Some ps" "ips_active ps" "imq_threads (ips_messages ps) = []"
    "port_get k p = Some x" "ip_active x" "ip_pset x = 0" "ip_cur_target x = p"
    "live_msgs k (imq_messages (ips_messages ps) @ imq_messages (ip_messages x))"
    "\<forall>m\<in>set (imq_messages (ip_messages x)). to_port k p m" "\<forall>m\<in>set (imq_messages (ips_messages ps)). \<not> to_port k p m"
    "\<forall>th\<in>set (imq_threads (ip_messages x)). k_threads k th \<noteq> None"
  shows "\<exists>k1 k2. ipc_pset_add s p k = Some k1 \<and>
    map_option (imq_messages \<circ> ips_messages) (pset_get k1 s) = Some (imq_messages (ips_messages ps) @ imq_messages (ip_messages x)) \<and>
    map_option (imq_messages \<circ> ip_messages) (port_get k1 p) = Some [] \<and>
    k_events k1 = k_events k @ map Thread_go (imq_threads (ip_messages x)) \<and>
    ipc_pset_remove s p k1 = Some k2 \<and> pset_get k2 s = Some ps \<and>
    port_get k2 p = Some (x\<lparr>ip_messages := (ip_messages x)\<lparr>imq_threads := []\<rparr>\<rparr>)"
proof -
  let ?ms = "imq_messages (ip_messages x)" and ?qs = "imq_messages (ips_messages ps)"
  let ?ps = "ps\<lparr>ips_references := ips_references ps + 1, ips_messages := (ips_messages ps)\<lparr>imq_messages := ?qs @ ?ms\<rparr>\<rparr>"
  let ?k1 = "woken MACH_RCV_PORT_CHANGED (imq_threads (ip_messages x)) (put_port p (in_set s x) (put_pset s ?ps k))"
  note v = port_get_valid [OF assms(4)] pset_get_valid [OF assms(1)]
  have a: "ipc_pset_add s p k = Some ?k1"
    using assms by (intro pset_add_ok) (auto simp: live_msgs_def)
  have f: "filter (to_port k p) (?qs @ ?ms) = ?ms" "filter (\<lambda>m. \<not> to_port k p m) (?qs @ ?ms) = ?qs"
    using assms(9,10) by (auto simp: filter_id_conv filter_empty_conv)
  have r: "ipc_pset_remove s p ?k1 = Some
    (put_port p (in_set s x\<lparr>ip_pset := 0, ip_cur_target := p, ip_messages := (ip_messages (in_set s x))\<lparr>imq_messages := ?ms\<rparr>\<rparr>)
      (put_pset s (?ps\<lparr>ips_references := ips_references ?ps - 1, ips_messages := (ips_messages ?ps)\<lparr>imq_messages := ?qs\<rparr>\<rparr>) ?k1))"
    using pset_remove_ok [of ?k1 s ?ps p "in_set s x"] v assms(5,8) f
    by (simp add: in_set_def ipc_mqueue_init_def)
  have "port_get ?k1 p = Some (in_set s x)" "pset_get ?k1 s = Some ?ps" using v by simp_all
  thus ?thesis using a r v assms(3,6,7) by (simp add: in_set_def ipc_mqueue_init_def)
qed

theorem pset_roundtrip_witness:
  "\<exists>k1 k2. ipc_pset_add 24 8 queue_kern = Some k1 \<and> ipc_pset_remove 24 8 k1 = Some k2 \<and>
     map_option (imq_messages \<circ> ips_messages) (pset_get k1 24) = Some [64] \<and> port_get k2 8 = Some queue_port"
proof -
  have "to_port queue_kern 8 64" by (simp add: to_port_def sample_msg_def)
  moreover have "live_msgs queue_kern [64]" by (simp add: live_msgs_def)
  ultimately show ?thesis
    using pset_roundtrip [where k = queue_kern and s = 24 and ps = sample_pset and p = 8 and x = queue_port]
    by (auto simp: sample_pset_def queue_port_def sample_port_def ipc_mqueue_init_def)
qed

end
