(* ===== verification/Link_Queue.thy ===== *)
theory Link_Queue
  imports Mach_Prelude
begin

text \<open>
  The circular doubly linked queues of threads (\<^verbatim>\<open>mach4/kernel/ipc/ipc_thread.c\<close>,
  \<^verbatim>\<open>ipc_thread.h\<close>) and of kernel messages (\<^verbatim>\<open>ipc_kmsg.c\<close>, \<^verbatim>\<open>ipc_kmsg.h\<close>),
  on an explicit heap of links. A queue is its base pointer, null when empty. Both kinds are shown
  to implement one interface, the locale \<open>fifo\<close>: queues are lists, elements are added at the end
  and taken from the front or by name. It is the abstraction the model of message queues uses.

  The two differ in the state of an element that is on no queue: a thread is linked to itself,
  which its enqueue operation asserts, while the links of a message are poisoned.
\<close>

record links =
  lk_next :: ptr
  lk_prev :: ptr

type_synonym link_heap = "ptr \<Rightarrow> links option"

definition lk_get :: "link_heap \<Rightarrow> ptr \<Rightarrow> links option" where
  "lk_get h p = (if p = 0 then None else h p)"

definition set_lnext :: "ptr \<Rightarrow> ptr \<Rightarrow> link_heap \<Rightarrow> link_heap option" where
  "set_lnext p v h = do { l \<leftarrow> lk_get h p; Some (h(p \<mapsto> l\<lparr>lk_next := v\<rparr>)) }"

definition set_lprev :: "ptr \<Rightarrow> ptr \<Rightarrow> link_heap \<Rightarrow> link_heap option" where
  "set_lprev p v h = do { l \<leftarrow> lk_get h p; Some (h(p \<mapsto> l\<lparr>lk_prev := v\<rparr>)) }"

abbreviation (input) ITH_NULL :: ptr where "ITH_NULL \<equiv> 0"

section \<open>Threads\<close>

definition ipc_thread_links_init :: "ptr \<Rightarrow> link_heap \<Rightarrow> link_heap option" where
  "ipc_thread_links_init thread h = do {
     h \<leftarrow> set_lnext thread thread h;
     set_lprev thread thread h }"

definition ipc_thread_queue_init :: ptr where
  "ipc_thread_queue_init = ITH_NULL"

definition ipc_thread_rmqueue_first_macro :: "ptr \<Rightarrow> ptr \<Rightarrow> link_heap \<Rightarrow> (ptr \<times> link_heap) option" where
  "ipc_thread_rmqueue_first_macro ithq_base thread h = do {
     oassert (ithq_base = thread);
     l \<leftarrow> lk_get h thread;
     let next = lk_next l;
     if next = thread then do {
       oassert (lk_prev l = thread);
       Some (ITH_NULL, h) }
     else do {
       let prev = lk_prev l;
       h \<leftarrow> set_lprev next prev h;
       h \<leftarrow> set_lnext prev next h;
       h \<leftarrow> ipc_thread_links_init thread h;
       Some (next, h) } }"

definition ipc_thread_enqueue_macro :: "ptr \<Rightarrow> ptr \<Rightarrow> link_heap \<Rightarrow> (ptr \<times> link_heap) option" where
  "ipc_thread_enqueue_macro ithq_base thread h = do {
     let first = ithq_base;
     if first = ITH_NULL then do {
       l \<leftarrow> lk_get h thread;
       oassert (lk_next l = thread);
       oassert (lk_prev l = thread);
       Some (thread, h) }
     else do {
       f \<leftarrow> lk_get h first;
       let last = lk_prev f;
       h \<leftarrow> set_lnext thread first h;
       h \<leftarrow> set_lprev thread last h;
       h \<leftarrow> set_lprev first thread h;
       h \<leftarrow> set_lnext last thread h;
       Some (first, h) } }"

definition ipc_thread_enqueue :: "ptr \<Rightarrow> ptr \<Rightarrow> link_heap \<Rightarrow> (ptr \<times> link_heap) option" where
  "ipc_thread_enqueue ithq_base thread h = ipc_thread_enqueue_macro ithq_base thread h"

definition ipc_thread_dequeue :: "ptr \<Rightarrow> link_heap \<Rightarrow> (ptr \<times> ptr \<times> link_heap) option" where
  "ipc_thread_dequeue ithq_base h = do {
     let first = ithq_base;
     if first \<noteq> ITH_NULL then do {
       (base, h) \<leftarrow> ipc_thread_rmqueue_first_macro ithq_base first h;
       Some (first, base, h) }
     else Some (first, ithq_base, h) }"

definition ipc_thread_rmqueue :: "ptr \<Rightarrow> ptr \<Rightarrow> link_heap \<Rightarrow> (ptr \<times> link_heap) option" where
  "ipc_thread_rmqueue ithq_base thread h = do {
     oassert (ithq_base \<noteq> ITH_NULL);
     l \<leftarrow> lk_get h thread;
     let next = lk_next l;
     let prev = lk_prev l;
     if next = thread then do {
       oassert (prev = thread);
       oassert (ithq_base = thread);
       Some (ITH_NULL, h) }
     else do {
       let base = (if ithq_base = thread then next else ithq_base);
       h \<leftarrow> set_lprev next prev h;
       h \<leftarrow> set_lnext prev next h;
       h \<leftarrow> ipc_thread_links_init thread h;
       Some (base, h) } }"

section \<open>Messages\<close>

definition IKM_BOGUS :: ptr where "IKM_BOGUS = 0xffffff10"

definition kmsg_poison :: "ptr \<Rightarrow> link_heap \<Rightarrow> link_heap option" where
  "kmsg_poison kmsg h = do {
     h \<leftarrow> set_lnext kmsg IKM_BOGUS h;
     set_lprev kmsg IKM_BOGUS h }"

definition ipc_kmsg_queue_init :: ptr where
  "ipc_kmsg_queue_init = 0"

definition ipc_kmsg_rmqueue_first_macro :: "ptr \<Rightarrow> ptr \<Rightarrow> link_heap \<Rightarrow> (ptr \<times> link_heap) option" where
  "ipc_kmsg_rmqueue_first_macro ikmq_base kmsg h = do {
     oassert (ikmq_base = kmsg);
     l \<leftarrow> lk_get h kmsg;
     let next = lk_next l;
     (base, h) \<leftarrow>
       (if next = kmsg then do {
          oassert (lk_prev l = kmsg);
          Some (0, h) }
        else do {
          let prev = lk_prev l;
          h \<leftarrow> set_lprev next prev h;
          h \<leftarrow> set_lnext prev next h;
          Some (next, h) });
     h \<leftarrow> kmsg_poison kmsg h;
     Some (base, h) }"

definition ipc_kmsg_enqueue_macro :: "ptr \<Rightarrow> ptr \<Rightarrow> link_heap \<Rightarrow> (ptr \<times> link_heap) option" where
  "ipc_kmsg_enqueue_macro ikmq_base kmsg h = do {
     let first = ikmq_base;
     if first = 0 then do {
       h \<leftarrow> set_lnext kmsg kmsg h;
       h \<leftarrow> set_lprev kmsg kmsg h;
       Some (kmsg, h) }
     else do {
       f \<leftarrow> lk_get h first;
       let last = lk_prev f;
       h \<leftarrow> set_lnext kmsg first h;
       h \<leftarrow> set_lprev kmsg last h;
       h \<leftarrow> set_lprev first kmsg h;
       h \<leftarrow> set_lnext last kmsg h;
       Some (first, h) } }"

definition ipc_kmsg_enqueue :: "ptr \<Rightarrow> ptr \<Rightarrow> link_heap \<Rightarrow> (ptr \<times> link_heap) option" where
  "ipc_kmsg_enqueue ikmq_base kmsg h = ipc_kmsg_enqueue_macro ikmq_base kmsg h"

definition ipc_kmsg_dequeue :: "ptr \<Rightarrow> link_heap \<Rightarrow> (ptr \<times> ptr \<times> link_heap) option" where
  "ipc_kmsg_dequeue ikmq_base h = do {
     let first = ikmq_base;
     if first \<noteq> 0 then do {
       (base, h) \<leftarrow> ipc_kmsg_rmqueue_first_macro ikmq_base first h;
       Some (first, base, h) }
     else Some (first, ikmq_base, h) }"

definition ipc_kmsg_rmqueue :: "ptr \<Rightarrow> ptr \<Rightarrow> link_heap \<Rightarrow> (ptr \<times> link_heap) option" where
  "ipc_kmsg_rmqueue ikmq_base kmsg h = do {
     oassert (ikmq_base \<noteq> 0);
     l \<leftarrow> lk_get h kmsg;
     let next = lk_next l;
     let prev = lk_prev l;
     (base, h) \<leftarrow>
       (if next = kmsg then do {
          oassert (prev = kmsg);
          oassert (ikmq_base = kmsg);
          Some (0, h) }
        else do {
          let base = (if ikmq_base = kmsg then next else ikmq_base);
          h \<leftarrow> set_lprev next prev h;
          h \<leftarrow> set_lnext prev next h;
          Some (base, h) });
     h \<leftarrow> kmsg_poison kmsg h;
     Some (base, h) }"

definition ipc_kmsg_queue_next :: "ptr \<Rightarrow> ptr \<Rightarrow> link_heap \<Rightarrow> ptr option" where
  "ipc_kmsg_queue_next ikmq_base kmsg h = do {
     oassert (ikmq_base \<noteq> 0);
     l \<leftarrow> lk_get h kmsg;
     let next = lk_next l;
     Some (if ikmq_base = next then 0 else next) }"

section \<open>Rings\<close>

definition lnext :: "link_heap \<Rightarrow> ptr \<Rightarrow> ptr" where "lnext h p = (case h p of Some l \<Rightarrow> lk_next l | None \<Rightarrow> 0)"
definition lprev :: "link_heap \<Rightarrow> ptr \<Rightarrow> ptr" where "lprev h p = (case h p of Some l \<Rightarrow> lk_prev l | None \<Rightarrow> 0)"

definition lk_live :: "link_heap \<Rightarrow> ptr \<Rightarrow> bool" where "lk_live h p \<longleftrightarrow> p \<noteq> 0 \<and> h p \<noteq> None"

definition linked :: "link_heap \<Rightarrow> ptr \<Rightarrow> ptr \<Rightarrow> bool" where
  "linked h a b \<longleftrightarrow> lnext h a = b \<and> lprev h b = a"

text \<open>The queue with base \<open>base\<close> holds \<open>xs\<close>.\<close>

definition ring :: "link_heap \<Rightarrow> ptr \<Rightarrow> ptr list \<Rightarrow> bool" where
  "ring h base xs \<longleftrightarrow> base = (case xs of [] \<Rightarrow> 0 | x # _ \<Rightarrow> x) \<and> distinct xs \<and> (\<forall>x\<in>set xs. lk_live h x) \<and>
     (xs \<noteq> [] \<longrightarrow> successively (linked h) xs \<and> linked h (last xs) (hd xs))"

text \<open>Nothing else changes: links of other elements, and what is allocated.\<close>

definition only :: "ptr set \<Rightarrow> link_heap \<Rightarrow> link_heap \<Rightarrow> bool" where
  "only X h h' \<longleftrightarrow> (\<forall>p. p \<notin> X \<longrightarrow> h' p = h p) \<and> (\<forall>p. (h' p = None) = (h p = None))"

text \<open>Writing both directions of a link.\<close>

definition join :: "ptr \<Rightarrow> ptr \<Rightarrow> link_heap \<Rightarrow> link_heap" where
  "join a b h = (let h = h(a := map_option (\<lambda>l. l\<lparr>lk_next := b\<rparr>) (h a))
     in h(b := map_option (\<lambda>l. l\<lparr>lk_prev := a\<rparr>) (h b)))"

lemma lnext_join: "lk_live h a \<Longrightarrow> lnext (join a b h) p = (if p = a then b else lnext h p)"
  by (auto simp: lnext_def join_def lk_live_def Let_def split: option.split)

lemma lprev_join: "lk_live h b \<Longrightarrow> lprev (join a b h) p = (if p = b then a else lprev h p)"
  by (auto simp: lprev_def join_def lk_live_def Let_def split: option.split)

lemma live_join [simp]: "lk_live (join a b h) p = lk_live h p"
  by (auto simp: join_def lk_live_def Let_def)

lemma only_join: "a \<in> X \<Longrightarrow> b \<in> X \<Longrightarrow> only X h (join a b h)"
  by (auto simp: only_def join_def Let_def)

lemma only_trans: "only X h h' \<Longrightarrow> only X h' h'' \<Longrightarrow> only X h h''"
  by (auto simp: only_def)

lemma set_lnext_Some: "lk_live h p \<Longrightarrow> set_lnext p v h = Some (h(p := map_option (\<lambda>l. l\<lparr>lk_next := v\<rparr>) (h p)))"
  by (auto simp: set_lnext_def lk_get_def lk_live_def)

lemma set_lprev_Some: "lk_live h p \<Longrightarrow> set_lprev p v h = Some (h(p := map_option (\<lambda>l. l\<lparr>lk_prev := v\<rparr>) (h p)))"
  by (auto simp: set_lprev_def lk_get_def lk_live_def)

lemma lk_get_Some: "lk_live h p \<Longrightarrow> lk_get h p = Some \<lparr>lk_next = lnext h p, lk_prev = lprev h p\<rparr>"
  by (auto simp: lk_get_def lk_live_def lnext_def lprev_def)

lemma successively_frame:
  assumes "successively (linked h) xs" "distinct xs"
    "\<forall>p\<in>set (butlast xs). lnext h' p = lnext h p" "\<forall>p\<in>set (tl xs). lprev h' p = lprev h p"
  shows "successively (linked h') xs"
  using assms
proof (induction xs rule: induct_list012)
  case (3 x y zs)
  have "linked h' x y" using 3 by (auto simp: linked_def)
  moreover have "successively (linked h') (y # zs)"
    by (rule 3(2)) (use "3.prems" in auto)
  ultimately show ?case by simp
qed auto

lemma linked_join:
  assumes "lk_live h a" "lk_live h b" "linked h c d \<or> c = a \<and> d = b" "c = a \<longleftrightarrow> d = b"
  shows "linked (join a b h) c d"
  using assms by (auto simp: linked_def lnext_join lprev_join)

lemma successively_join:
  assumes "successively (linked h) xs" "distinct xs" "lk_live h a" "lk_live h b"
    "a \<notin> set (butlast xs)" "b \<notin> set (tl xs)"
  shows "successively (linked (join a b h)) xs"
  by (rule successively_frame [OF assms(1,2)]) (use assms in \<open>auto simp: lnext_join lprev_join\<close>)

lemma ring_nonempty: "ring h base xs \<Longrightarrow> xs \<noteq> [] \<Longrightarrow> base = hd xs \<and> base \<noteq> 0 \<and> lk_live h base"
  by (cases xs) (auto simp: ring_def lk_live_def)

lemma ring_links: "ring h base xs \<Longrightarrow> xs \<noteq> [] \<Longrightarrow> lprev h (hd xs) = last xs \<and> lnext h (last xs) = hd xs"
  by (simp add: ring_def linked_def)

lemma ring_enq:
  assumes r: "ring h base xs" and ne: "xs \<noteq> []" and x: "x \<notin> set xs" "lk_live h x"
  shows "ring (join (last xs) x (join x base h)) base (xs @ [x])"
proof -
  let ?h1 = "join x base h" and ?h = "join (last xs) x (join x base h)"
  have b: "base = hd xs" "lk_live h base" using ring_nonempty [OF r ne] by auto
  have d: "distinct xs" "successively (linked h) xs" and l: "lk_live h (last xs)"
    using r ne by (simp_all add: ring_def)
  have nb: "base \<notin> set (tl xs)" using b(1) d(1) ne by (cases xs) auto
  have nl: "last xs \<notin> set (butlast xs)" using d(1) ne by (cases xs rule: rev_cases) auto
  have nx: "x \<notin> set (butlast xs)" "x \<notin> set (tl xs)" using x(1) by (auto dest: in_set_butlastD) (cases xs; simp)
  have s1: "successively (linked ?h1) xs" by (rule successively_join [OF d(2,1) x(2) b(2) nx(1) nb])
  have "successively (linked ?h) xs" by (rule successively_join [OF s1 d(1) _ _ nl nx(2)]) (use x l in simp_all)
  moreover have "linked ?h (last xs) x" using l x by (auto simp: linked_def lnext_join lprev_join)
  moreover have "linked ?h x base"
    using l x b ne by (auto simp: linked_def lnext_join lprev_join)
  ultimately show ?thesis using r ne x b
    by (auto simp: ring_def successively_append_iff hd_append split: list.split)
qed

text \<open>Taking an element out.\<close>

definition before :: "ptr list \<Rightarrow> ptr list \<Rightarrow> ptr" where "before as bs = (if as = [] then last bs else last as)"
definition behind :: "ptr list \<Rightarrow> ptr list \<Rightarrow> ptr" where "behind as bs = (if bs = [] then hd as else hd bs)"

lemma ring_around:
  assumes r: "ring h base (as @ x # bs)" and ne: "as @ bs \<noteq> []"
  shows "lprev h x = before as bs" "lnext h x = behind as bs" "before as bs \<noteq> x" "behind as bs \<noteq> x"
    "lk_live h (before as bs)" "lk_live h (behind as bs)" "lk_live h x"
proof -
  have s: "successively (linked h) (as @ x # bs)" "linked h (last (as @ x # bs)) (hd (as @ x # bs))"
    and d: "distinct (as @ x # bs)" and l: "\<forall>y\<in>set (as @ x # bs). lk_live h y"
    using r by (simp_all add: ring_def)
  have "as \<noteq> [] \<Longrightarrow> linked h (last as) x" "bs \<noteq> [] \<Longrightarrow> linked h x (hd bs)"
    using s(1) by (simp_all add: successively_append_iff successively_Cons)
  moreover have "as = [] \<Longrightarrow> bs \<noteq> [] \<Longrightarrow> linked h (last bs) x" "bs = [] \<Longrightarrow> as \<noteq> [] \<Longrightarrow> linked h x (hd as)"
    using s(2) by simp_all
  ultimately have "linked h (before as bs) x" "linked h x (behind as bs)"
    using ne unfolding before_def behind_def by (cases "as = []"; cases "bs = []"; simp)+
  thus "lprev h x = before as bs" "lnext h x = behind as bs" by (simp_all add: linked_def)
  have m: "before as bs \<in> set (as @ bs)" "behind as bs \<in> set (as @ bs)"
    using ne by (auto simp: before_def behind_def)
  have "x \<notin> set (as @ bs)" using d by simp
  thus "before as bs \<noteq> x" "behind as bs \<noteq> x" using m by metis+
  show "lk_live h (before as bs)" "lk_live h (behind as bs)" "lk_live h x"
    using m l by (metis Un_iff list.set_intros(2) set_append)+ (use l in simp)
qed

lemma ring_rm:
  assumes r: "ring h base (as @ x # bs)" and ne: "as @ bs \<noteq> []"
  shows "ring (join (before as bs) (behind as bs) h) (if as = [] then behind as bs else base) (as @ bs)"
proof -
  let ?p = "before as bs" and ?n = "behind as bs"
  note a = ring_around [OF r ne]
  have s: "successively (linked h) as" "successively (linked h) bs" "linked h (last (as @ x # bs)) (hd (as @ x # bs))"
    and d: "distinct as" "distinct bs" "set as \<inter> set bs = {}" and l: "\<forall>y\<in>set (as @ bs). lk_live h y"
    using r by (auto simp: ring_def successively_append_iff successively_Cons)
  have pa: "?p \<notin> set (butlast as)" "?p \<notin> set (butlast bs)"
    using d by (cases as rule: rev_cases; cases bs rule: rev_cases; auto simp: before_def)+
  have na: "?n \<notin> set (tl as)" "?n \<notin> set (tl bs)"
    using d by (cases as; cases bs; auto simp: behind_def)+
  have sj: "successively (linked (join ?p ?n h)) as" "successively (linked (join ?p ?n h)) bs"
    by (rule successively_join [OF s(1) d(1) a(5,6) pa(1) na(1)], rule successively_join [OF s(2) d(2) a(5,6) pa(2) na(2)])
  have pn: "linked (join ?p ?n h) ?p ?n" using a by (simp add: linked_def lnext_join lprev_join)
  have "successively (linked (join ?p ?n h)) (as @ bs) \<and> linked (join ?p ?n h) (last (as @ bs)) (hd (as @ bs))"
  proof (cases "as = [] \<or> bs = []")
    case True
    thus ?thesis using sj pn ne by (auto simp: before_def behind_def)
  next
    case False
    have "linked h (last bs) (hd as)" using s(3) False by simp
    moreover have "last bs \<noteq> last as" "hd as \<noteq> hd bs" using False d(3) by (metis disjoint_iff last_in_set hd_in_set)+
    ultimately have "linked (join ?p ?n h) (last bs) (hd as)"
      using False a by (intro linked_join) (auto simp: before_def behind_def)
    thus ?thesis using sj pn False by (simp add: successively_append_iff before_def behind_def)
  qed
  moreover have "(if as = [] then ?n else base) = (case as @ bs of [] \<Rightarrow> 0 | y # _ \<Rightarrow> y)"
    using r ne by (cases as; cases bs) (auto simp: ring_def behind_def)
  ultimately show ?thesis using d l by (simp add: ring_def)
qed

text \<open>Writing the links of an element on no queue does not disturb a queue.\<close>

lemma ring_outside:
  assumes "ring h base xs" "only {x} h h'" "x \<notin> set xs"
  shows "ring h' base xs"
proof -
  have e: "h' p = h p" if "p \<in> set xs" for p using assms(2,3) that by (auto simp: only_def)
  hence f: "lnext h' p = lnext h p \<and> lprev h' p = lprev h p \<and> lk_live h' p = lk_live h p" if "p \<in> set xs" for p
    using that by (simp add: lnext_def lprev_def lk_live_def)
  have "successively (linked h') xs" if "xs \<noteq> []"
  proof (rule successively_frame [of h])
    show "\<forall>p\<in>set (butlast xs). lnext h' p = lnext h p" using f by (simp add: in_set_butlastD)
    show "\<forall>p\<in>set (tl xs). lprev h' p = lprev h p" using f by (cases xs) simp_all
  qed (use assms(1) that in \<open>simp_all add: ring_def\<close>)
  moreover have "linked h' (last xs) (hd xs)" if "xs \<noteq> []"
    using assms(1) that f by (simp add: ring_def linked_def)
  ultimately show ?thesis using assms(1) f by (simp add: ring_def)
qed

section \<open>The interface\<close>

text \<open>Elements other than the ones on the queue and the one moved stay as they are.\<close>

definition others :: "('h \<Rightarrow> ptr \<Rightarrow> bool) \<Rightarrow> ptr set \<Rightarrow> 'h \<Rightarrow> 'h \<Rightarrow> bool" where
  "others idle X h h' \<longleftrightarrow> (\<forall>y. y \<notin> X \<longrightarrow> idle h' y = idle h y)"

fun put_all :: "(ptr \<Rightarrow> ptr \<Rightarrow> 'h \<Rightarrow> (ptr \<times> 'h) option) \<Rightarrow> ptr \<Rightarrow> ptr list \<Rightarrow> 'h \<Rightarrow> (ptr \<times> 'h) option" where
  "put_all enq b [] h = Some (b, h)"
| "put_all enq b (x # xs) h = do { (b, h) \<leftarrow> enq b x h; put_all enq b xs h }"

fun take_all :: "(ptr \<Rightarrow> 'h \<Rightarrow> (ptr \<times> ptr \<times> 'h) option) \<Rightarrow> nat \<Rightarrow> ptr \<Rightarrow> 'h \<Rightarrow> (ptr list \<times> ptr \<times> 'h) option" where
  "take_all deq 0 b h = Some ([], b, h)"
| "take_all deq (Suc n) b h = do {
     (x, b, h) \<leftarrow> deq b h;
     (xs, b, h) \<leftarrow> take_all deq n b h;
     Some (x # xs, b, h) }"

locale fifo =
  fixes queue :: "'h \<Rightarrow> ptr \<Rightarrow> ptr list \<Rightarrow> bool"
    and idle :: "'h \<Rightarrow> ptr \<Rightarrow> bool"
    and enq :: "ptr \<Rightarrow> ptr \<Rightarrow> 'h \<Rightarrow> (ptr \<times> 'h) option"
    and deq :: "ptr \<Rightarrow> 'h \<Rightarrow> (ptr \<times> ptr \<times> 'h) option"
    and rmq :: "ptr \<Rightarrow> ptr \<Rightarrow> 'h \<Rightarrow> (ptr \<times> 'h) option"
  assumes queue_init: "queue h 0 []"
    and enq_ok: "queue h b xs \<Longrightarrow> idle h x \<Longrightarrow> x \<notin> set xs \<Longrightarrow>
      \<exists>b' h'. enq b x h = Some (b', h') \<and> queue h' b' (xs @ [x]) \<and> others idle (set (x # xs)) h h'"
    and deq_empty: "queue h b [] \<Longrightarrow> deq b h = Some (0, b, h)"
    and deq_ok: "queue h b (x # xs) \<Longrightarrow>
      \<exists>b' h'. deq b h = Some (x, b', h') \<and> queue h' b' xs \<and> idle h' x \<and> others idle (set (x # xs)) h h'"
    and rmq_ok: "queue h b (as @ x # bs) \<Longrightarrow>
      \<exists>b' h'. rmq b x h = Some (b', h') \<and> queue h' b' (as @ bs) \<and> idle h' x \<and> others idle (set (as @ x # bs)) h h'"
    and queue_distinct: "queue h b xs \<Longrightarrow> distinct xs"
begin

lemma put_all_ok:
  "queue h b xs \<Longrightarrow> distinct (xs @ ys) \<Longrightarrow> \<forall>y\<in>set ys. idle h y \<Longrightarrow>
   \<exists>b' h'. put_all enq b ys h = Some (b', h') \<and> queue h' b' (xs @ ys)"
proof (induction ys arbitrary: b h xs)
  case (Cons y ys)
  obtain b1 h1 where 1: "enq b y h = Some (b1, h1)" "queue h1 b1 (xs @ [y])" "others idle (set (y # xs)) h h1"
    using enq_ok [of h b xs y] Cons.prems by auto
  have "\<forall>z\<in>set ys. idle h1 z" using 1(3) Cons.prems by (auto simp: others_def)
  then obtain b' h' where "put_all enq b1 ys h1 = Some (b', h')" "queue h' b' ((xs @ [y]) @ ys)"
    using Cons.IH [of h1 b1 "xs @ [y]"] 1(2) Cons.prems by auto
  thus ?case using 1 by simp
qed auto

lemma take_all_ok:
  "queue h b xs \<Longrightarrow> \<exists>b' h'. take_all deq (length xs) b h = Some (xs, b', h') \<and> queue h' b' [] \<and>
     (\<forall>x\<in>set xs. idle h' x) \<and> others idle (set xs) h h'"
proof (induction xs arbitrary: b h)
  case (Cons x xs)
  obtain b1 h1 where 1: "deq b h = Some (x, b1, h1)" "queue h1 b1 xs" "idle h1 x" "others idle (set (x # xs)) h h1"
    using deq_ok [OF Cons.prems] by auto
  obtain b' h' where 2: "take_all deq (length xs) b1 h1 = Some (xs, b', h')" "queue h' b' []"
    "\<forall>x\<in>set xs. idle h' x" "others idle (set xs) h1 h'"
    using Cons.IH [OF 1(2)] by auto
  have "x \<notin> set xs" using queue_distinct [OF Cons.prems] by simp
  hence "idle h' x" using 1(3) 2(4) by (simp add: others_def)
  moreover have "others idle (set (x # xs)) h h'" using 1(4) 2(4) by (auto simp: others_def)
  ultimately show ?case using 1(1) 2 by simp
qed (auto simp: others_def)

lemma first_in_first_out:
  assumes "distinct (as @ x # bs)" "\<forall>y\<in>set (as @ x # bs). idle h y"
  shows "\<exists>b1 h1 b2 h2 b3 h3. put_all enq 0 (as @ x # bs) h = Some (b1, h1) \<and> rmq b1 x h1 = Some (b2, h2) \<and>
    take_all deq (length (as @ bs)) b2 h2 = Some (as @ bs, b3, h3) \<and> deq b3 h3 = Some (0, b3, h3) \<and>
    (\<forall>y\<in>set (as @ x # bs). idle h3 y)"
proof -
  obtain b1 h1 where 1: "put_all enq 0 (as @ x # bs) h = Some (b1, h1)" "queue h1 b1 (as @ x # bs)"
    using put_all_ok [OF queue_init, of "as @ x # bs" h] assms by auto
  obtain b2 h2 where 2: "rmq b1 x h1 = Some (b2, h2)" "queue h2 b2 (as @ bs)" "idle h2 x"
    using rmq_ok [OF 1(2)] by auto
  obtain b3 h3 where 3: "take_all deq (length (as @ bs)) b2 h2 = Some (as @ bs, b3, h3)" "queue h3 b3 []"
    "\<forall>y\<in>set (as @ bs). idle h3 y" "others idle (set (as @ bs)) h2 h3"
    using take_all_ok [OF 2(2)] by auto
  have "idle h3 x" using 2(3) 3(4) assms(1) by (simp add: others_def)
  thus ?thesis using 1 2 3 deq_empty [OF 3(2)] by auto
qed

end

section \<open>The two implementations\<close>

definition thread_idle :: "link_heap \<Rightarrow> ptr \<Rightarrow> bool" where
  "thread_idle h x \<longleftrightarrow> lk_live h x \<and> lnext h x = x \<and> lprev h x = x"

text \<open>The four writes of an enqueue, and the two that close the gap.\<close>

lemma enq_writes:
  assumes "lk_live h x" "lk_live h first" "lk_live h lst" "x \<noteq> first" "x \<noteq> lst"
  shows "do { h \<leftarrow> set_lnext x first h; h \<leftarrow> set_lprev x lst h; h \<leftarrow> set_lprev first x h; set_lnext lst x h } =
    Some (join lst x (join x first h))"
proof -
  obtain a b c where "h x = Some a" "h first = Some b" "h lst = Some c" "x \<noteq> 0" "first \<noteq> 0" "lst \<noteq> 0"
    using assms by (auto simp: lk_live_def)
  thus ?thesis using assms(4,5)
    by (cases "first = lst") (auto simp: set_lnext_def set_lprev_def lk_get_def join_def Let_def fun_eq_iff)
qed

lemma gap_writes:
  assumes "lk_live h p" "lk_live h n"
  shows "do { h \<leftarrow> set_lprev n p h; set_lnext p n h } = Some (join p n h)"
proof -
  obtain a b where "h p = Some a" "h n = Some b" "p \<noteq> 0" "n \<noteq> 0" using assms by (auto simp: lk_live_def)
  thus ?thesis
    by (cases "p = n") (auto simp: set_lnext_def set_lprev_def lk_get_def join_def Let_def fun_eq_iff)
qed

lemma links_init_eq: "lk_live h x \<Longrightarrow> ipc_thread_links_init x h = Some (join x x h)"
  by (auto simp: ipc_thread_links_init_def set_lnext_def set_lprev_def lk_get_def join_def lk_live_def)

definition poisoned :: "ptr \<Rightarrow> link_heap \<Rightarrow> link_heap" where
  "poisoned x h = h(x := map_option (\<lambda>l. \<lparr>lk_next = IKM_BOGUS, lk_prev = IKM_BOGUS\<rparr>) (h x))"

lemma links_fields: "(l :: links)\<lparr>lk_next := a, lk_prev := b\<rparr> = \<lparr>lk_next = a, lk_prev = b\<rparr>"
  by (cases l) simp

lemma kmsg_poison_eq: "lk_live h x \<Longrightarrow> kmsg_poison x h = Some (poisoned x h)"
  by (auto simp: kmsg_poison_def set_lnext_def set_lprev_def lk_get_def poisoned_def lk_live_def links_fields)

lemma only_poisoned: "only {x} h (poisoned x h)"
  by (auto simp: only_def poisoned_def)

lemma others_only:
  assumes "only X h h'" shows "others thread_idle X h h'" "others lk_live X h h'"
  using assms by (auto simp: others_def only_def thread_idle_def lk_live_def lnext_def lprev_def)

lemma ring_single: "lk_live h x \<Longrightarrow> lnext h x = x \<Longrightarrow> lprev h x = x \<Longrightarrow> ring h x [x]"
  by (simp add: ring_def linked_def)

lemma ring_singleD: "ring h b [x] \<Longrightarrow> b = x \<and> lk_live h x \<and> lnext h x = x \<and> lprev h x = x"
  by (simp add: ring_def linked_def)

text \<open>Adding to a queue that is not empty; the same writes for both kinds.\<close>

lemma enq_ring:
  assumes r: "ring h b xs" and ne: "xs \<noteq> []" and x: "x \<notin> set xs" "lk_live h x"
  shows "lprev h b = last xs" "do { h \<leftarrow> set_lnext x b h; h \<leftarrow> set_lprev x (last xs) h; h \<leftarrow> set_lprev b x h; set_lnext (last xs) x h } =
      Some (join (last xs) x (join x b h))"
    "only (set (x # xs)) h (join (last xs) x (join x b h))"
proof -
  have b: "b \<in> set xs" "lk_live h b" "b = hd xs" using ring_nonempty [OF r ne] ne by auto
  have l: "last xs \<in> set xs" "lk_live h (last xs)" using r ne by (simp_all add: ring_def)
  show "lprev h b = last xs" using ring_links [OF r ne] b by simp
  show "do { h \<leftarrow> set_lnext x b h; h \<leftarrow> set_lprev x (last xs) h; h \<leftarrow> set_lprev b x h; set_lnext (last xs) x h } =
      Some (join (last xs) x (join x b h))"
    by (rule enq_writes) (use x b l in auto)
  show "only (set (x # xs)) h (join (last xs) x (join x b h))"
    by (rule only_trans [OF only_join only_join]) (use b l in auto)
qed

lemma thread_enq_ok:
  assumes "ring h b xs" "thread_idle h x" "x \<notin> set xs"
  shows "\<exists>b' h'. ipc_thread_enqueue b x h = Some (b', h') \<and> ring h' b' (xs @ [x]) \<and> others thread_idle (set (x # xs)) h h'"
proof (cases "xs = []")
  case True
  hence "b = 0" using assms(1) by (simp add: ring_def)
  thus ?thesis using True assms(2)
    by (simp add: ipc_thread_enqueue_def ipc_thread_enqueue_macro_def thread_idle_def lk_get_Some ring_single others_def)
next
  case False
  have x: "lk_live h x" using assms(2) by (simp add: thread_idle_def)
  note e = enq_ring [OF assms(1) False assms(3) x]
  have "ipc_thread_enqueue b x h = Some (b, join (last xs) x (join x b h))"
    using ring_nonempty [OF assms(1) False] e(1,2)
    by (auto simp: ipc_thread_enqueue_def ipc_thread_enqueue_macro_def lk_get_Some bind_eq_Some_conv Let_def)
  thus ?thesis using ring_enq [OF assms(1) False assms(3) x] others_only(1) [OF e(3)] by blast
qed

lemma kmsg_enq_ok:
  assumes "ring h b xs" "lk_live h x" "x \<notin> set xs"
  shows "\<exists>b' h'. ipc_kmsg_enqueue b x h = Some (b', h') \<and> ring h' b' (xs @ [x]) \<and> others lk_live (set (x # xs)) h h'"
proof (cases "xs = []")
  case True
  hence "b = 0" using assms(1) by (simp add: ring_def)
  moreover have "do { h \<leftarrow> set_lnext x x h; set_lprev x x h } = Some (join x x h)"
    using links_init_eq [OF assms(2)] by (simp add: ipc_thread_links_init_def)
  ultimately have "ipc_kmsg_enqueue b x h = Some (x, join x x h)"
    by (auto simp: ipc_kmsg_enqueue_def ipc_kmsg_enqueue_macro_def bind_eq_Some_conv)
  moreover have "ring (join x x h) x [x]" using assms(2) by (intro ring_single) (simp_all add: lnext_join lprev_join)
  ultimately show ?thesis using True by (auto simp: others_def)
next
  case False
  note e = enq_ring [OF assms(1) False assms(3,2)]
  have "ipc_kmsg_enqueue b x h = Some (b, join (last xs) x (join x b h))"
    using ring_nonempty [OF assms(1) False] e(1,2)
    by (auto simp: ipc_kmsg_enqueue_def ipc_kmsg_enqueue_macro_def lk_get_Some bind_eq_Some_conv Let_def)
  thus ?thesis using ring_enq [OF assms(1) False assms(3,2)] others_only(2) [OF e(3)] by blast
qed

text \<open>Taking out, for both kinds: the gap is closed, then the links of the element are set.\<close>

lemma rm_ring:
  assumes r: "ring h b (as @ x # bs)" and ne: "as @ bs \<noteq> []" and o: "only {x} (join (before as bs) (behind as bs) h) h'"
  shows "ring h' (if as = [] then behind as bs else b) (as @ bs)" "only (set (as @ x # bs)) h h'"
    "b = x \<longleftrightarrow> as = []" "b \<noteq> 0"
proof -
  have d: "x \<notin> set (as @ bs)" using r by (simp add: ring_def)
  show "ring h' (if as = [] then behind as bs else b) (as @ bs)"
    by (rule ring_outside [OF ring_rm [OF r ne] o d])
  have "before as bs \<in> set (as @ x # bs)" "behind as bs \<in> set (as @ x # bs)"
    using ne by (auto simp: before_def behind_def)
  hence "only (set (as @ x # bs)) h (join (before as bs) (behind as bs) h)" by (rule only_join)
  moreover have "only (set (as @ x # bs)) (join (before as bs) (behind as bs) h) h'"
    using o by (auto simp: only_def)
  ultimately show "only (set (as @ x # bs)) h h'" by (rule only_trans)
  show "b = x \<longleftrightarrow> as = []" "b \<noteq> 0" using r d by (cases as; auto simp: ring_def lk_live_def)+
qed

lemma thread_rm_ok:
  assumes r: "ring h b (as @ x # bs)"
  shows "\<exists>b' h'. ipc_thread_rmqueue b x h = Some (b', h') \<and> (as = [] \<longrightarrow> ipc_thread_rmqueue_first_macro b x h = Some (b', h')) \<and>
    ring h' b' (as @ bs) \<and> thread_idle h' x \<and> others thread_idle (set (as @ x # bs)) h h'"
proof (cases "as @ bs = []")
  case True
  hence s: "b = x" "lk_live h x" "lnext h x = x" "lprev h x = x" using r ring_singleD by auto
  hence "x \<noteq> 0" by (simp add: lk_live_def)
  thus ?thesis using True s
    by (simp add: ipc_thread_rmqueue_def ipc_thread_rmqueue_first_macro_def lk_get_Some thread_idle_def ring_def others_def)
next
  case False
  note a = ring_around [OF r False]
  let ?h1 = "join (before as bs) (behind as bs) h"
  let ?h2 = "join x x ?h1"
  have x1: "lk_live ?h1 x" using a by simp
  note m = rm_ring [OF r False only_join [of x "{x}" x ?h1]]
  have "do { h \<leftarrow> set_lprev (behind as bs) (before as bs) h; h \<leftarrow> set_lnext (before as bs) (behind as bs) h; ipc_thread_links_init x h } = Some ?h2"
    using gap_writes [OF a(5,6)] links_init_eq [OF x1] by (auto simp: bind_eq_Some_conv)
  hence "ipc_thread_rmqueue b x h = Some (if as = [] then behind as bs else b, ?h2)"
    "as = [] \<Longrightarrow> ipc_thread_rmqueue_first_macro b x h = Some (behind as bs, ?h2)"
    using a m(3,4) by (auto simp: ipc_thread_rmqueue_def ipc_thread_rmqueue_first_macro_def lk_get_Some bind_eq_Some_conv Let_def)
  moreover have "thread_idle ?h2 x" using x1 by (simp add: thread_idle_def lnext_join lprev_join)
  ultimately show ?thesis using m(1,2) others_only(1) [OF m(2)] by auto
qed

lemma kmsg_rm_ok:
  assumes r: "ring h b (as @ x # bs)"
  shows "\<exists>b' h'. ipc_kmsg_rmqueue b x h = Some (b', h') \<and> (as = [] \<longrightarrow> ipc_kmsg_rmqueue_first_macro b x h = Some (b', h')) \<and>
    ring h' b' (as @ bs) \<and> lk_live h' x \<and> others lk_live (set (as @ x # bs)) h h'"
proof (cases "as @ bs = []")
  case True
  hence s: "b = x" "lk_live h x" "lnext h x = x" "lprev h x = x" using r ring_singleD by auto
  hence "x \<noteq> 0" by (simp add: lk_live_def)
  moreover have "lk_live (poisoned x h) x" using s(2) by (simp add: lk_live_def poisoned_def)
  ultimately show ?thesis using True s others_only(2) [OF only_poisoned [of x h]]
    by (simp add: ipc_kmsg_rmqueue_def ipc_kmsg_rmqueue_first_macro_def lk_get_Some kmsg_poison_eq ring_def)
next
  case False
  note a = ring_around [OF r False]
  let ?h1 = "join (before as bs) (behind as bs) h"
  let ?h2 = "poisoned x ?h1"
  have x1: "lk_live ?h1 x" using a by simp
  note m = rm_ring [OF r False only_poisoned]
  have "ipc_kmsg_rmqueue b x h = Some (if as = [] then behind as bs else b, ?h2)"
    "as = [] \<Longrightarrow> ipc_kmsg_rmqueue_first_macro b x h = Some (behind as bs, ?h2)"
    using a m(3,4) gap_writes [OF a(5,6)] kmsg_poison_eq [OF x1]
    by (auto simp: ipc_kmsg_rmqueue_def ipc_kmsg_rmqueue_first_macro_def lk_get_Some bind_eq_Some_conv Let_def)
  moreover have "lk_live ?h2 x" using x1 by (simp add: lk_live_def poisoned_def)
  ultimately show ?thesis using m(1,2) others_only(2) [OF m(2)] by auto
qed

lemma thread_deq_ok:
  assumes "ring h b (x # xs)"
  shows "\<exists>b' h'. ipc_thread_dequeue b h = Some (x, b', h') \<and> ring h' b' xs \<and> thread_idle h' x \<and>
    others thread_idle (set (x # xs)) h h'"
  using thread_rm_ok [of h b "[]" x xs] ring_nonempty [OF assms] assms by (auto simp: ipc_thread_dequeue_def)

lemma kmsg_deq_ok:
  assumes "ring h b (x # xs)"
  shows "\<exists>b' h'. ipc_kmsg_dequeue b h = Some (x, b', h') \<and> ring h' b' xs \<and> lk_live h' x \<and>
    others lk_live (set (x # xs)) h h'"
  using kmsg_rm_ok [of h b "[]" x xs] ring_nonempty [OF assms] assms by (auto simp: ipc_kmsg_dequeue_def)

interpretation thread_queue: fifo ring thread_idle ipc_thread_enqueue ipc_thread_dequeue ipc_thread_rmqueue
proof
  show "ring h 0 []" for h by (simp add: ring_def)
  show "ipc_thread_dequeue b h = Some (0, b, h)" if "ring h b []" for h b
    using that by (simp add: ipc_thread_dequeue_def ring_def)
  show "\<exists>b' h'. ipc_thread_rmqueue b x h = Some (b', h') \<and> ring h' b' (as @ bs) \<and> thread_idle h' x \<and>
      others thread_idle (set (as @ x # bs)) h h'" if "ring h b (as @ x # bs)" for h b as x bs
    using thread_rm_ok [OF that] by blast
  show "distinct xs" if "ring h b xs" for h b xs using that by (simp add: ring_def)
qed (fact thread_enq_ok thread_deq_ok)+

interpretation kmsg_queue: fifo ring lk_live ipc_kmsg_enqueue ipc_kmsg_dequeue ipc_kmsg_rmqueue
proof
  show "ring h 0 []" for h by (simp add: ring_def)
  show "ipc_kmsg_dequeue b h = Some (0, b, h)" if "ring h b []" for h b
    using that by (simp add: ipc_kmsg_dequeue_def ring_def)
  show "\<exists>b' h'. ipc_kmsg_rmqueue b x h = Some (b', h') \<and> ring h' b' (as @ bs) \<and> lk_live h' x \<and>
      others lk_live (set (as @ x # bs)) h h'" if "ring h b (as @ x # bs)" for h b as x bs
    using kmsg_rm_ok [OF that] by blast
  show "distinct xs" if "ring h b xs" for h b xs using that by (simp add: ring_def)
qed (fact kmsg_enq_ok kmsg_deq_ok)+

text \<open>Walking a queue of messages from its first element visits it in order and ends with null.\<close>

lemma kmsg_next_ok:
  assumes "ring h b (as @ x # bs)"
  shows "ipc_kmsg_queue_next b x h = Some (case bs of [] \<Rightarrow> 0 | y # _ \<Rightarrow> y)"
proof (cases "as @ bs = []")
  case True
  thus ?thesis using ring_singleD [of h b x] assms
    by (auto simp: ipc_kmsg_queue_next_def lk_get_Some lk_live_def)
next
  case False
  note a = ring_around [OF assms False]
  have b: "b = hd (as @ x # bs)" "b \<noteq> 0" using ring_nonempty [OF assms] by auto
  have d: "distinct (as @ x # bs)" using assms by (simp add: ring_def)
  show ?thesis
  proof (cases bs)
    case Nil
    thus ?thesis using a b False by (simp add: ipc_kmsg_queue_next_def lk_get_Some behind_def)
  next
    case (Cons y ys)
    hence "b \<noteq> y" using b(1) d by (cases as) auto
    thus ?thesis using a b(2) Cons by (simp add: ipc_kmsg_queue_next_def lk_get_Some behind_def)
  qed
qed

section \<open>Properties\<close>

text \<open>C28. Threads enqueued on an empty queue are dequeued in the order they came; one of them
  removed by name is left out, whatever its position; in the end the queue is empty and every thread
  is linked to itself again, as the next enqueue requires.\<close>

theorem thread_queue_fifo:
  assumes "distinct (as @ x # bs)" "\<forall>y\<in>set (as @ x # bs). thread_idle h y"
  shows "\<exists>b1 h1 b2 h2 b3 h3. put_all ipc_thread_enqueue ipc_thread_queue_init (as @ x # bs) h = Some (b1, h1) \<and>
    ipc_thread_rmqueue b1 x h1 = Some (b2, h2) \<and>
    take_all ipc_thread_dequeue (length (as @ bs)) b2 h2 = Some (as @ bs, b3, h3) \<and>
    ipc_thread_dequeue b3 h3 = Some (0, b3, h3) \<and> (\<forall>y\<in>set (as @ x # bs). thread_idle h3 y)"
  unfolding ipc_thread_queue_init_def by (rule thread_queue.first_in_first_out [OF assms])

definition sample_links :: link_heap where
  "sample_links = [4 \<mapsto> \<lparr>lk_next = 4, lk_prev = 4\<rparr>, 8 \<mapsto> \<lparr>lk_next = 8, lk_prev = 8\<rparr>, 12 \<mapsto> \<lparr>lk_next = 12, lk_prev = 12\<rparr>]"

theorem thread_queue_fifo_witness:
  "\<exists>b1 h1 b2 h2 b3 h3. put_all ipc_thread_enqueue 0 [4, 8, 12] sample_links = Some (b1, h1) \<and>
    ipc_thread_rmqueue b1 8 h1 = Some (b2, h2) \<and> take_all ipc_thread_dequeue (length [4 :: ptr, 12]) b2 h2 = Some ([4, 12], b3, h3)"
proof -
  have "distinct ([4] @ 8 # [12 :: ptr])" "\<forall>y\<in>set ([4] @ 8 # [12]). thread_idle sample_links y"
    by (simp_all add: thread_idle_def lk_live_def lnext_def lprev_def sample_links_def)
  from thread_queue_fifo [OF this] show ?thesis
    by (auto simp: ipc_thread_queue_init_def simp del: put_all.simps take_all.simps)
qed

text \<open>C29. Messages enqueued on an empty queue are dequeued in the order they came, without one
  that was removed by name, and walking the queue with \<^verbatim>\<open>ipc_kmsg_queue_next\<close> goes from each
  message to the one behind it and ends at the last.\<close>

theorem kmsg_queue_fifo:
  assumes "distinct (as @ x # bs)" "\<forall>y\<in>set (as @ x # bs). lk_live h y"
  shows "\<exists>b1 h1 b2 h2 b3 h3. put_all ipc_kmsg_enqueue ipc_kmsg_queue_init (as @ x # bs) h = Some (b1, h1) \<and>
    ipc_kmsg_queue_next b1 x h1 = Some (case bs of [] \<Rightarrow> 0 | y # _ \<Rightarrow> y) \<and>
    ipc_kmsg_rmqueue b1 x h1 = Some (b2, h2) \<and>
    take_all ipc_kmsg_dequeue (length (as @ bs)) b2 h2 = Some (as @ bs, b3, h3) \<and>
    ipc_kmsg_dequeue b3 h3 = Some (0, b3, h3)"
proof -
  obtain b1 h1 where 1: "put_all ipc_kmsg_enqueue 0 (as @ x # bs) h = Some (b1, h1)" "ring h1 b1 (as @ x # bs)"
    using kmsg_queue.put_all_ok [OF kmsg_queue.queue_init, of "as @ x # bs" h] assms by auto
  show ?thesis
    using kmsg_queue.first_in_first_out [OF assms] 1 kmsg_next_ok [OF 1(2)]
    by (auto simp: ipc_kmsg_queue_init_def)
qed

theorem kmsg_queue_fifo_witness:
  "\<exists>b1 h1 b2 h2 b3 h3. put_all ipc_kmsg_enqueue 0 [4, 8, 12] sample_links = Some (b1, h1) \<and>
    ipc_kmsg_queue_next b1 8 h1 = Some 12 \<and>
    ipc_kmsg_rmqueue b1 8 h1 = Some (b2, h2) \<and> take_all ipc_kmsg_dequeue (length [4 :: ptr, 12]) b2 h2 = Some ([4, 12], b3, h3)"
proof -
  have "distinct ([4] @ 8 # [12 :: ptr])" "\<forall>y\<in>set ([4] @ 8 # [12]). lk_live sample_links y"
    by (simp_all add: lk_live_def sample_links_def)
  from kmsg_queue_fifo [OF this] show ?thesis
    by (auto simp: ipc_kmsg_queue_init_def simp del: put_all.simps take_all.simps)
qed

end
