(* ===== verification/Spec2Isabelle.thy ===== *)
theory Spec2Isabelle
  imports Splay_Props Hash_Props Msg_Props Link_Queue
begin

text \<open>
  Verification of the inter-process communication (IPC) core of the Mach 4 kernel, the C files of
  \<^verbatim>\<open>src/mach4/kernel/ipc\<close>. A task names its rights by 32-bit names in a space; a right is
  a right to a port, a queue of messages in the kernel. The parts and their theories:

  \<^item> Names and entries of a space. A name is an index and a generation (\<open>Port_Name\<close>:
    \<^verbatim>\<open>port.h\<close>, the bit fields of \<^verbatim>\<open>ipc_entry.h\<close>). The entry of a name is in the
    table of the space or, when the index does not fit or is taken by another generation, in a splay
    tree; \<open>Space\<close> has the record of a space. \<open>Ipc_Entry\<close> and \<open>Ipc_Entry_Grow\<close>
    translate \<^verbatim>\<open>ipc_entry.c\<close> (lookup, allocation, deallocation, growth of the table);
    \<open>Ipc_Table\<close> the table sizes of \<^verbatim>\<open>ipc_table.c\<close>.
  \<^item> The splay tree, \<^verbatim>\<open>ipc_splay.c\<close>. \<open>Splay\<close> translates every routine on an
    explicit heap, one definition per routine, one update per pointer write. \<open>Splay_Rep\<close> says
    which list of entries, in symmetric order, a structure represents; \<open>Splay_Loop\<close>,
    \<open>Splay_Correct\<close>, \<open>Splay_Ops\<close>, \<open>Splay_Split\<close>, \<open>Splay_Traverse\<close> prove the
    routines correct against it; \<open>Splay_Contract\<close> has the interface \<open>name_tree\<close> and its
    interpretation; \<open>Splay_Props\<close> the properties C1 to C7.
  \<^item> The reverse hash tables, \<^verbatim>\<open>ipc_hash.c\<close>, from objects to names. \<open>Hash_Local\<close>
    translates the table with linear probing inside the table of a space, \<open>Hash_Global\<close> the
    chained table of tree entries with move-to-front, the routines that choose between them, and the
    initialisation. \<open>Hash_Local_Correct\<close> has the invariant of clumps of slots and
    \<open>Hash_Global_Correct\<close> that of chains; \<open>Hash_Contract\<close> the interface \<open>rev_hash\<close>,
    with two interpretations; \<open>Hash_Props\<close> the properties C10 to C14.
  \<^item> Ports, port sets and messages share the state \<open>kern\<close> of \<open>Kern\<close>: heaps of ports,
    port sets, messages and threads, the space with its tables (\<open>k_world\<close>), the timestamp, and a
    log of calls. \<open>Ipc_Mqueue\<close> translates the moving and waking of \<^verbatim>\<open>ipc_mqueue.c\<close>
    and \<^verbatim>\<open>ipc_pset.c\<close>; \<open>Ipc_Msg\<close> sending and receiving; \<open>Ipc_Port\<close> translates
    \<^verbatim>\<open>ipc_port.c\<close>. \<open>Port_Circular\<close> shows that no circle of ports in transit arises,
    \<open>Port_Requests\<close> that dead-name requests are a finite map beside a free list
    (\<open>Free_List\<close>), \<open>Port_Rights\<close> that rights are counted exactly, \<open>Port_Destroy\<close> what
    the destruction of a port does, with the properties C15 to C22 in \<open>Port_Props\<close>.
    \<open>Mqueue_Correct\<close>, \<open>Pset_Correct\<close>, \<open>Msg_Correct\<close> show the effect of delivery, port
    sets, sending and receiving on the queues as lists, with the properties in \<open>Msg_Props\<close>.
  \<^item> \<open>Link_Queue\<close> translates the circular doubly linked queues of threads
    (\<^verbatim>\<open>ipc_thread.c\<close>) and of messages (\<^verbatim>\<open>ipc_kmsg.c\<close>) and shows that they
    implement the lists that the other theories use.

  Conventions. Machine integers are 32-bit words, with wrap-around; slot and bucket numbers that are
  bounded by a table size are natural numbers. A definition that can fail returns an option:
  \<open>None\<close> is a null or dangling pointer, an index out of range, a failed assertion, or a loop
  that does not end (\<open>partial_function\<close>). Error codes are values. Every property says that the
  result is \<open>Some\<close>, hence also that no assertion fails and all loops end; no fuel is used.
  Configuration: \<^verbatim>\<open>MACH_IPC_COMPAT\<close> is 1, \<^verbatim>\<open>NORMA_IPC\<close> is 0,
  \<^verbatim>\<open>MIGRATING_THREADS\<close> is not defined; \<^verbatim>\<open>PORT_GENERATIONS\<close> is the parameter
  \<open>g\<close>.

  Parameters. Code outside of the translated files that may change ports or messages
  (notifications, destruction of messages and kernel objects) is the parameter \<open>calls\<close>, a
  function on the state for each call in the log. What properties assume of it is named:
  \<open>ns_quiet\<close>, that the no-senders notification of the registered port leaves this port alone; and
  \<open>only_releases\<close>, that code called during the destruction of a port does nothing to the dead
  port but give back rights, of which \<open>gives\<close> counts the references. What other threads do
  while a lock is released is the parameter \<open>step\<close> or the environment of \<open>Ipc_Entry\<close>; the
  wake-ups of a sleeping thread are a list of steps.

  Not modelled. Locks: each operation is one step between the points where the source unlocks.
  Memory allocation, beyond its success or failure: the assertions on the address of the table in
  \<^verbatim>\<open>ipc_entry_grow_table\<close> and on the result of \<^verbatim>\<open>kalloc\<close> in
  \<^verbatim>\<open>ipc_hash_init\<close> have no counterpart. \<^verbatim>\<open>ipc_right.c\<close>,
  \<^verbatim>\<open>ipc_space.c\<close>, \<^verbatim>\<open>ipc_kmsg.c\<close> apart from its queues, the notifications and the
  system calls are clients of the parts above and not translated; nor is any part of the system
  outside of \<^verbatim>\<open>mach4/kernel/ipc\<close>. The operations of \<open>Ipc_Entry\<close> and
  \<open>Ipc_Entry_Grow\<close> are definitions only; what is proved of them is proved of the tree, the hash
  tables and the names they are made of.
\<close>

end
